(* ===== verification/Prelude.thy ===== *)
theory Prelude
  imports Main "HOL-Library.Word" "HOL-Library.List_Lexorder"
begin

text \<open>
  Shared vocabulary of the development: the machine types of the Rust source, the three-way
  result of a fallible call (value, error value, panic), the order on byte strings used by the
  storage engine, and the two interfaces every byte encoding of the program is held to: a
  decoder that undoes the encoder and hands back the unread input, and an encoder whose output
  compares like its argument.
\<close>

section \<open>Types\<close>

type_synonym u8 = "8 word"
type_synonym u16 = "16 word"
type_synonym u32 = "32 word"
type_synonym u64 = "64 word"
type_synonym bytes = "u8 list"

text \<open>
  \<open>Ok\<close> and \<open>Err\<close> are the two constructors of Rust's \<open>Result\<close>;
  \<open>Panic\<close> is the outcome of a failed assertion, an \<open>unwrap\<close> of nothing, an index out
  of range, or an unchecked access outside its slice.
\<close>

datatype ('e, 'a) result = Ok 'a | Err 'e | Panic

fun rbind :: "('e, 'a) result \<Rightarrow> ('a \<Rightarrow> ('e, 'b) result) \<Rightarrow> ('e, 'b) result" where
  "rbind (Ok a) f = f a"
| "rbind (Err e) f = Err e"
| "rbind Panic f = Panic"

fun map_error :: "('e \<Rightarrow> 'f) \<Rightarrow> ('e, 'a) result \<Rightarrow> ('f, 'a) result" where
  "map_error g (Ok a) = Ok a"
| "map_error g (Err e) = Err (g e)"
| "map_error g Panic = Panic"

named_theorems codec_simps \<open>evaluation of encoders and decoders on symbolic input\<close>
named_theorems key_simps \<open>operations on encoded keys\<close>
named_theorems engine_simps \<open>reads of the engine after writes\<close>
named_theorems mvcc_simps \<open>reads of the multi-version store after writes\<close>

lemma rbind_eq_Ok [simp]: "rbind r f = Ok b \<longleftrightarrow> (\<exists>a. r = Ok a \<and> f a = Ok b)"
  by (cases r) auto

lemma rbind_assoc: "rbind (rbind r f) g = rbind r (\<lambda>a. rbind (f a) g)"
  by (cases r) auto

lemma map_error_eq_Ok [simp]: "map_error g r = Ok a \<longleftrightarrow> r = Ok a"
  by (cases r) auto

section \<open>Byte strings in the engine's order\<close>

text \<open>
  Two byte strings are separated when they differ at a position both have; the first such
  position decides. Separated strings keep their order whatever is appended to them.
\<close>

fun sep_less :: "'a::linorder list \<Rightarrow> 'a list \<Rightarrow> bool" where
  "sep_less (a # s) (b # t) \<longleftrightarrow> a < b \<or> a = b \<and> sep_less s t"
| "sep_less _ _ \<longleftrightarrow> False"

lemma sep_less_append: "sep_less s t \<Longrightarrow> sep_less (s @ u) (t @ v)"
  by (induction s t rule: sep_less.induct) auto

lemma sep_less_append_same [simp]: "sep_less (u @ s) (u @ t) \<longleftrightarrow> sep_less s t"
  by (induction u) auto

lemma sep_less_imp_less: "sep_less s t \<Longrightarrow> s < t"
  by (induction s t rule: sep_less.induct) auto

lemma sep_less_irrefl [simp]: "\<not> sep_less s s"
  by (induction s) auto

lemma less_imp_sep_less: "s < t \<Longrightarrow> length s = length t \<Longrightarrow> sep_less s t"
proof (induction s arbitrary: t)
  case (Cons a s)
  then show ?case by (cases t) auto
qed simp

lemma sep_less_iff_less: "length s = length t \<Longrightarrow> sep_less s t \<longleftrightarrow> s < t"
  using less_imp_sep_less sep_less_imp_less by blast

lemma less_append_same [simp]: "(u @ s :: 'a::linorder list) < u @ t \<longleftrightarrow> s < t"
  by (induction u) auto

lemma le_append_same [simp]: "(u @ s :: 'a::linorder list) \<le> u @ t \<longleftrightarrow> s \<le> t"
  by (induction u) auto

lemma le_append_right [simp]: "(s :: 'a::linorder list) \<le> s @ t"
  by (induction s) auto

lemma Nil_le [simp]: "([] :: 'a::linorder list) \<le> s"
  by (cases s) auto

lemma Nil_less [simp]: "([] :: 'a::linorder list) < s \<longleftrightarrow> s \<noteq> []"
  by (cases s) auto

lemma append_eq_length_less:
  fixes s t :: "'a::linorder list"
  assumes "length s = length t"
  shows "s @ u < t @ v \<longleftrightarrow> s < t \<or> s = t \<and> u < v"
  using assms by (induction s t rule: list_induct2) auto

lemma map_sep_less:
  assumes "\<And>x y. x < y \<longleftrightarrow> f y < f x"
  shows "sep_less (map f s) (map f t) \<longleftrightarrow> sep_less t s"
proof (induction s t rule: sep_less.induct)
  case (1 a s b t)
  have "f a = f b \<longleftrightarrow> a = b"
    using assms by (metis linorder_neq_iff)
  with 1 show ?case using assms by auto
qed (auto elim: sep_less.elims)

section \<open>Words\<close>

unbundle bit_operations_syntax

lemma word_not_less_not_iff: "NOT x < NOT y \<longleftrightarrow> y < (x :: 'a::len word)"
proof -
  have "uint (NOT z) = 2 ^ LENGTH('a) - 1 - uint z" for z :: "'a word"
    by (simp add: word_not_def uint_word_of_int take_bit_not_eq_mask_diff mask_eq_exp_minus_1
        take_bit_int_eq_self
        flip: take_bit_eq_mod)
  then show ?thesis by (simp add: word_less_def)
qed

lemma word_not_le_not_iff: "NOT x \<le> NOT y \<longleftrightarrow> y \<le> (x :: 'a::len word)"
  using word_not_less_not_iff [of y x] by (simp add: not_less [symmetric])

section \<open>Interface: a decoder that inverts an encoder\<close>

text \<open>
  Reading \<open>n\<close> items one after the other, as the loops of the parsers do.
\<close>

primrec read_n :: "(bytes \<Rightarrow> ('e, 'a \<times> bytes) result) \<Rightarrow> nat \<Rightarrow> bytes
    \<Rightarrow> ('e, 'a list \<times> bytes) result" where
  "read_n dec 0 data = Ok ([], data)"
| "read_n dec (Suc n) data =
     rbind (dec data) (\<lambda>(x, rest).
     rbind (read_n dec n rest) (\<lambda>(xs, rest'). Ok (x # xs, rest')))"

locale codec =
  fixes enc :: "'a \<Rightarrow> bytes"
    and dec :: "bytes \<Rightarrow> ('e, 'a \<times> bytes) result"
    and valid :: "'a \<Rightarrow> bool"
  assumes dec_enc: "valid x \<Longrightarrow> dec (enc x @ rest) = Ok (x, rest)"
begin

lemma dec_enc_Nil: "valid x \<Longrightarrow> dec (enc x) = Ok (x, [])"
  using dec_enc [of x "[]"] by simp

lemma enc_inject: "valid x \<Longrightarrow> valid y \<Longrightarrow> enc x = enc y \<longleftrightarrow> x = y"
  by (metis dec_enc_Nil prod.inject result.inject(1))

lemma enc_prefix_free:
  "valid x \<Longrightarrow> valid y \<Longrightarrow> enc x @ s = enc y @ t \<longleftrightarrow> x = y \<and> s = t"
  by (auto dest: arg_cong [where f = dec] simp: dec_enc)

lemma read_n_enc:
  "\<forall>x\<in>set xs. valid x \<Longrightarrow>
   read_n dec (length xs) (concat (map enc xs) @ rest) = Ok (xs, rest)"
  by (induction xs) (simp_all add: dec_enc)

end

section \<open>Interface: an encoding that compares like its argument\<close>

locale memcomparable =
  fixes lt :: "'a \<Rightarrow> 'a \<Rightarrow> bool"
    and enc :: "'a \<Rightarrow> bytes"
  assumes lt_total: "x \<noteq> y \<Longrightarrow> lt x y \<or> lt y x"
    and enc_sep: "lt x y \<Longrightarrow> sep_less (enc x) (enc y)"
begin

lemma lt_irrefl: "\<not> lt x x"
  using enc_sep by fastforce

lemma enc_append_less:
  "enc x @ s < enc y @ t \<longleftrightarrow> lt x y \<or> x = y \<and> s < t"
proof (cases "x = y")
  case True
  then show ?thesis using lt_irrefl by simp
next
  case False
  then consider "lt x y" | "lt y x" using lt_total by blast
  then show ?thesis
  proof cases
    case 1
    then show ?thesis by (simp add: enc_sep sep_less_append sep_less_imp_less)
  next
    case 2
    then have "enc y @ t < enc x @ s" by (simp add: enc_sep sep_less_append sep_less_imp_less)
    moreover have "\<not> lt x y"
      using 2 enc_sep [of x y] enc_sep [of y x]
      by (auto dest!: sep_less_imp_less)
    ultimately show ?thesis using False by auto
  qed
qed

lemma enc_less: "enc x < enc y \<longleftrightarrow> lt x y"
  using enc_append_less [of x "[]" y "[]"] by simp

lemma enc_append_eq: "enc x @ s = enc y @ t \<longleftrightarrow> x = y \<and> s = t"
proof
  assume eq: "enc x @ s = enc y @ t"
  then have "\<not> lt x y" "\<not> lt y x"
    using enc_append_less [of x s y t] enc_append_less [of y t x s] by auto
  then have "x = y" using lt_total by blast
  with eq show "x = y \<and> s = t" by simp
qed simp

lemma enc_eq: "enc x = enc y \<longleftrightarrow> x = y"
  using enc_append_eq [of x "[]" y "[]"] by simp

lemma enc_append_le: "enc x @ s \<le> enc y @ t \<longleftrightarrow> lt x y \<or> x = y \<and> s \<le> t"
  by (auto simp: order_le_less enc_append_less enc_append_eq)

end

text \<open>One encoding followed by another orders pairs lexicographically.\<close>

locale memcomparable_pair =
  a: memcomparable lt1 enc1 + b: memcomparable lt2 enc2
  for lt1 :: "'a \<Rightarrow> 'a \<Rightarrow> bool" and enc1 :: "'a \<Rightarrow> bytes"
    and lt2 :: "'b \<Rightarrow> 'b \<Rightarrow> bool" and enc2 :: "'b \<Rightarrow> bytes"

sublocale memcomparable_pair \<subseteq> pair: memcomparable
  "\<lambda>(x, u) (y, v). lt1 x y \<or> x = y \<and> lt2 u v"
  "\<lambda>(x, u). enc1 x @ enc2 u"
proof unfold_locales
  fix p q :: "'a \<times> 'b"
  assume "p \<noteq> q"
  then show "(case p of (x, u) \<Rightarrow> \<lambda>(y, v). lt1 x y \<or> x = y \<and> lt2 u v) q \<or>
    (case q of (x, u) \<Rightarrow> \<lambda>(y, v). lt1 x y \<or> x = y \<and> lt2 u v) p"
    using a.lt_total b.lt_total by (auto split: prod.splits)
next
  fix p q :: "'a \<times> 'b"
  assume "(case p of (x, u) \<Rightarrow> \<lambda>(y, v). lt1 x y \<or> x = y \<and> lt2 u v) q"
  then show "sep_less (case p of (x, u) \<Rightarrow> enc1 x @ enc2 u) (case q of (x, u) \<Rightarrow> enc1 x @ enc2 u)"
    by (auto split: prod.splits simp: a.enc_sep b.enc_sep sep_less_append)
qed

end
