(* ===== verification/NumberCodec.thy ===== *)
theory NumberCodec
  imports Prelude
begin

text \<open>
  The number codec of \<open>components/tikv_util/src/codec/number.rs\<close>: big- and little-endian
  fixed-width integers, their order-preserving forms, and the variable-length integers. An
  encoder is the byte string it appends; a decoder takes the unread slice and returns the value
  with the slice that is left. Signed integers are kept as words read by \<open>sint\<close>.
\<close>

section \<open>Errors of the codec module\<close>

datatype io_kind = UnexpectedEof | InvalidData

datatype codec_error =
  Io io_kind | KeyLength | KeyPadding | KeyNotFound | ValueLength | ValueMeta

type_synonym 'a decoded = "(codec_error, 'a \<times> bytes) result"

definition unexpected_eof :: codec_error where
  "unexpected_eof = Io UnexpectedEof"

fun maybe_clone :: "codec_error \<Rightarrow> codec_error option" where
  "maybe_clone (Io k) = None"
| "maybe_clone e = Some e"

section \<open>Fixed width\<close>

text \<open>Bytes of a number, most significant first, and the number they spell.\<close>

primrec nat_be :: "nat \<Rightarrow> nat \<Rightarrow> bytes" where
  "nat_be 0 x = []"
| "nat_be (Suc n) x = nat_be n (x div 256) @ [of_nat x]"

definition be_nat :: "bytes \<Rightarrow> nat" where
  "be_nat bs = foldl (\<lambda>a b. a * 256 + unat b) 0 bs"

definition to_be_bytes :: "nat \<Rightarrow> 'a::len word \<Rightarrow> bytes" where
  "to_be_bytes n v = nat_be n (unat v)"

definition from_be_bytes :: "bytes \<Rightarrow> 'a::len word" where
  "from_be_bytes bs = of_nat (be_nat bs)"

definition read_num_bytes :: "nat \<Rightarrow> (bytes \<Rightarrow> 'a) \<Rightarrow> bytes \<Rightarrow> 'a decoded" where
  "read_num_bytes sz f data =
     (if sz \<le> length data then Ok (f (take sz data), drop sz data)
      else Err unexpected_eof)"

definition SIGN_MARK :: u64 where "SIGN_MARK = 0x8000000000000000"

definition order_encode_i64 :: "u64 \<Rightarrow> u64" where
  "order_encode_i64 v = v XOR SIGN_MARK"

definition order_decode_i64 :: "u64 \<Rightarrow> u64" where
  "order_decode_i64 u = u XOR SIGN_MARK"

text \<open>A double is its bit pattern; its sign is the top bit.\<close>

definition order_encode_f64 :: "u64 \<Rightarrow> u64" where
  "order_encode_f64 u = (if u AND SIGN_MARK = 0 then u OR SIGN_MARK else NOT u)"

definition order_decode_f64 :: "u64 \<Rightarrow> u64" where
  "order_decode_f64 u = (if u AND SIGN_MARK > 0 then u AND NOT SIGN_MARK else NOT u)"

definition encode_u64 :: "u64 \<Rightarrow> bytes" where
  "encode_u64 v = to_be_bytes 8 v"

definition encode_u64_desc :: "u64 \<Rightarrow> bytes" where
  "encode_u64_desc v = to_be_bytes 8 (NOT v)"

definition encode_i64 :: "u64 \<Rightarrow> bytes" where
  "encode_i64 v = encode_u64 (order_encode_i64 v)"

definition encode_i64_desc :: "u64 \<Rightarrow> bytes" where
  "encode_i64_desc v = encode_u64_desc (order_encode_i64 v)"

definition encode_f64 :: "u64 \<Rightarrow> bytes" where
  "encode_f64 v = encode_u64 (order_encode_f64 v)"

definition encode_f64_desc :: "u64 \<Rightarrow> bytes" where
  "encode_f64_desc v = encode_u64_desc (order_encode_f64 v)"

definition encode_u32 :: "u32 \<Rightarrow> bytes" where
  "encode_u32 v = to_be_bytes 4 v"

definition encode_u16 :: "u16 \<Rightarrow> bytes" where
  "encode_u16 v = to_be_bytes 2 v"

definition encode_u16_le :: "u16 \<Rightarrow> bytes" where
  "encode_u16_le v = rev (to_be_bytes 2 v)"

definition encode_u32_le :: "u32 \<Rightarrow> bytes" where
  "encode_u32_le v = rev (to_be_bytes 4 v)"

definition encode_u64_le :: "u64 \<Rightarrow> bytes" where
  "encode_u64_le v = rev (to_be_bytes 8 v)"

definition decode_u64 :: "bytes \<Rightarrow> u64 decoded" where
  "decode_u64 data = read_num_bytes 8 from_be_bytes data"

definition decode_u32 :: "bytes \<Rightarrow> u32 decoded" where
  "decode_u32 data = read_num_bytes 4 from_be_bytes data"

definition decode_u16 :: "bytes \<Rightarrow> u16 decoded" where
  "decode_u16 data = read_num_bytes 2 from_be_bytes data"

definition decode_u64_desc :: "bytes \<Rightarrow> u64 decoded" where
  "decode_u64_desc data = rbind (decode_u64 data) (\<lambda>(v, rest). Ok (NOT v, rest))"

definition decode_i64 :: "bytes \<Rightarrow> u64 decoded" where
  "decode_i64 data = rbind (decode_u64 data) (\<lambda>(v, rest). Ok (order_decode_i64 v, rest))"

definition decode_i64_desc :: "bytes \<Rightarrow> u64 decoded" where
  "decode_i64_desc data =
     rbind (decode_u64_desc data) (\<lambda>(v, rest). Ok (order_decode_i64 v, rest))"

definition decode_f64 :: "bytes \<Rightarrow> u64 decoded" where
  "decode_f64 data = rbind (decode_u64 data) (\<lambda>(v, rest). Ok (order_decode_f64 v, rest))"

definition decode_f64_desc :: "bytes \<Rightarrow> u64 decoded" where
  "decode_f64_desc data =
     rbind (decode_u64_desc data) (\<lambda>(v, rest). Ok (order_decode_f64 v, rest))"

definition decode_u16_le :: "bytes \<Rightarrow> u16 decoded" where
  "decode_u16_le data = read_num_bytes 2 (\<lambda>b. from_be_bytes (rev b)) data"

definition decode_u32_le :: "bytes \<Rightarrow> u32 decoded" where
  "decode_u32_le data = read_num_bytes 4 (\<lambda>b. from_be_bytes (rev b)) data"

definition decode_u64_le :: "bytes \<Rightarrow> u64 decoded" where
  "decode_u64_le data = read_num_bytes 8 (\<lambda>b. from_be_bytes (rev b)) data"

fun read_u8 :: "bytes \<Rightarrow> u8 decoded" where
  "read_u8 (b # rest) = Ok (b, rest)"
| "read_u8 [] = Err unexpected_eof"

section \<open>Variable length\<close>

lemma drop_bit_7_less: "0x80 \<le> v \<Longrightarrow> unat (drop_bit 7 v) < unat (v :: u64)"
  by (simp add: word_le_nat_alt drop_bit_eq_div unat_div)

function encode_var_u64 :: "u64 \<Rightarrow> bytes" where
  "encode_var_u64 v =
     (if 0x80 \<le> v then (ucast v OR 0x80) # encode_var_u64 (drop_bit 7 v)
      else [ucast v])"
  by auto
termination by (relation "measure unat") (simp_all add: drop_bit_7_less)

declare encode_var_u64.simps [simp del]

definition encode_var_i64 :: "u64 \<Rightarrow> bytes" where
  "encode_var_i64 v =
     (let vx = push_bit 1 v in encode_var_u64 (if sint v < 0 then NOT vx else vx))"

definition var_payload :: "u8 \<Rightarrow> nat \<Rightarrow> u64" where
  "var_payload b i = push_bit (i * 7) (ucast b AND 0x7f)"

text \<open>
  The loop over the first nine bytes followed by the tenth; \<open>k\<close> counts the iterations that are
  left. The accesses are unchecked in the source: reading past the slice is \<open>Panic\<close> here.
\<close>

fun decode_var_nine :: "nat \<Rightarrow> nat \<Rightarrow> u64 \<Rightarrow> bytes \<Rightarrow> u64 decoded" where
  "decode_var_nine k i res [] = Panic"
| "decode_var_nine (Suc k) i res (b # rest) =
     (let res' = res OR var_payload b i in
      if b < 0x80 then Ok (res', rest) else decode_var_nine k (Suc i) res' rest)"
| "decode_var_nine 0 i res (b # rest) =
     (if b \<le> 1 then Ok (res OR var_payload b 9, rest) else Err (Io InvalidData))"

fun decode_var_short :: "nat \<Rightarrow> u64 \<Rightarrow> bytes \<Rightarrow> u64 decoded" where
  "decode_var_short i res [] = Err unexpected_eof"
| "decode_var_short i res (b # rest) =
     (let res' = res OR var_payload b i in
      if b < 0x80 then Ok (res', rest) else decode_var_short (Suc i) res' rest)"

definition decode_var_u64 :: "bytes \<Rightarrow> u64 decoded" where
  "decode_var_u64 data =
     (if data \<noteq> [] \<and> hd data < 0x80 then Ok (ucast (hd data) AND 0x7f, tl data)
      else if data \<noteq> [] \<and> (10 \<le> length data \<or> last data < 0x80)
      then decode_var_nine 9 0 0 data
      else decode_var_short 0 0 data)"

definition decode_var_i64 :: "bytes \<Rightarrow> u64 decoded" where
  "decode_var_i64 data =
     rbind (decode_var_u64 data) (\<lambda>(v, rest).
       let vx = drop_bit 1 v in Ok (if v AND 1 = 0 then vx else NOT vx, rest))"

section \<open>Fixed-width facts\<close>

lemma length_nat_be [simp]: "length (nat_be n x) = n"
  by (induction n arbitrary: x) auto

lemma be_nat_snoc [simp]: "be_nat (bs @ [b]) = be_nat bs * 256 + unat b"
  by (simp add: be_nat_def)

lemma be_nat_Nil [simp]: "be_nat [] = 0"
  by (simp add: be_nat_def)

lemma be_nat_less: "be_nat bs < 256 ^ length bs"
proof (induction bs rule: rev_induct)
  case (snoc b bs)
  have "unat b < 256" using unsigned_less [of b, where 'a = nat] by simp
  with snoc have "be_nat bs * 256 + unat b < (be_nat bs + 1) * 256" by simp
  also have "\<dots> \<le> 256 ^ length bs * 256"
    using snoc by (intro mult_le_mono1) simp
  finally show ?case by (simp add: mult.commute)
qed simp

lemma be_nat_nat_be [simp]: "be_nat (nat_be n x) = x mod 256 ^ n"
proof (induction n arbitrary: x)
  case (Suc n)
  then show ?case
    by (simp add: unat_of_nat mod_mult2_eq [of x 256 "256 ^ n"] mult.commute)
qed simp

lemma nat_be_be_nat: "nat_be (length bs) (be_nat bs) = bs"
proof (induction bs rule: rev_induct)
  case (snoc b bs)
  have b: "unat b < 256" using unsigned_less [of b, where 'a = nat] by simp
  then have "unat (of_nat (be_nat bs * 256 + unat b) :: u8) = unat b"
    by (simp only: unat_of_nat) simp
  then have "of_nat (be_nat bs * 256 + unat b) = b"
    by (simp only: word_unat_eq_iff)
  with b snoc show ?case by (simp add: div_mult_self3)
qed simp

lemma nat_be_eq:
  assumes "x < 256 ^ n" "y < 256 ^ n"
  shows "nat_be n x = nat_be n y \<longleftrightarrow> x = y"
  by (metis assms be_nat_nat_be mod_less)

lemma radix_256_less:
  fixes p q r s :: nat
  assumes "r < 256" "s < 256"
  shows "256 * q + r < 256 * p + s \<longleftrightarrow> q < p \<or> q = p \<and> r < s"
  using assms by (cases q p rule: linorder_cases) auto

lemma nat_be_less:
  assumes "x < 256 ^ n" "y < 256 ^ n"
  shows "nat_be n x < nat_be n y \<longleftrightarrow> x < y"
  using assms
proof (induction n arbitrary: x y)
  case (Suc n)
  have b: "x div 256 < 256 ^ n" "y div 256 < 256 ^ n"
    using Suc.prems by (simp_all add: less_mult_imp_div_less mult.commute)
  have "nat_be (Suc n) x < nat_be (Suc n) y \<longleftrightarrow>
      x div 256 < y div 256 \<or> x div 256 = y div 256 \<and> x mod 256 < y mod 256"
    using Suc.IH [OF b] nat_be_eq [OF b]
    by (simp add: append_eq_length_less word_less_nat_alt unat_of_nat)
  also have "\<dots> \<longleftrightarrow> x < y"
    using radix_256_less [of "x mod 256" "y mod 256" "x div 256" "y div 256"] by simp
  finally show ?case .
qed simp

lemma length_to_be_bytes [simp]: "length (to_be_bytes n v) = n"
  by (simp add: to_be_bytes_def)

lemma to_be_bytes_sep:
  fixes v w :: "'a::len word"
  assumes "2 ^ LENGTH('a) \<le> (256::nat) ^ n"
  shows "sep_less (to_be_bytes n v) (to_be_bytes n w) \<longleftrightarrow> v < w"
proof -
  have "unat u < 256 ^ n" for u :: "'a word"
    by (rule less_le_trans [OF unsigned_less assms])
  then show ?thesis
    by (simp add: sep_less_iff_less to_be_bytes_def nat_be_less word_less_nat_alt)
qed

lemma from_to_be_bytes:
  fixes v :: "'a::len word"
  assumes "2 ^ LENGTH('a) \<le> (256::nat) ^ n"
  shows "from_be_bytes (to_be_bytes n v) = v"
proof -
  have "unat v < 256 ^ n"
    by (rule less_le_trans [OF unsigned_less assms])
  then show ?thesis by (simp add: from_be_bytes_def to_be_bytes_def)
qed

lemma to_from_be_bytes:
  assumes "256 ^ length bs \<le> (2::nat) ^ LENGTH('a::len)"
  shows "to_be_bytes (length bs) (from_be_bytes bs :: 'a word) = bs"
proof -
  have "be_nat bs < 2 ^ LENGTH('a)"
    using be_nat_less [of bs] assms by simp
  then show ?thesis
    by (simp add: to_be_bytes_def from_be_bytes_def unat_of_nat nat_be_be_nat)
qed

lemma read_num_bytes_append [codec_simps]:
  "length bs = n \<Longrightarrow> read_num_bytes n f (bs @ rest) = Ok (f bs, rest)"
  by (simp add: read_num_bytes_def)

lemma length_encode_u64 [simp]: "length (encode_u64 v) = 8"
  by (simp add: encode_u64_def)

lemma length_encode_u64_desc [simp]: "length (encode_u64_desc v) = 8"
  by (simp add: encode_u64_desc_def)

lemmas fixed_width_defs =
  decode_u64_def decode_u64_desc_def decode_i64_def decode_i64_desc_def decode_f64_def
  decode_f64_desc_def decode_u32_def decode_u16_def decode_u16_le_def decode_u32_le_def
  decode_u64_le_def encode_u64_def encode_u64_desc_def encode_i64_def encode_i64_desc_def
  encode_f64_def encode_f64_desc_def encode_u32_def encode_u16_def encode_u16_le_def
  encode_u32_le_def encode_u64_le_def

lemma order_decode_encode_i64: "order_decode_i64 (order_encode_i64 v) = v"
  by (simp add: order_decode_i64_def order_encode_i64_def xor.assoc)

lemma decode_encode_u64 [codec_simps]: "decode_u64 (encode_u64 v @ rest) = Ok (v, rest)"
  by (simp add: fixed_width_defs read_num_bytes_append from_to_be_bytes)

lemma decode_encode_u64_desc [codec_simps]:
  "decode_u64_desc (encode_u64_desc v @ rest) = Ok (v, rest)"
  by (simp add: fixed_width_defs read_num_bytes_append from_to_be_bytes)

lemma decode_encode_i64: "decode_i64 (encode_i64 v @ rest) = Ok (v, rest)"
  by (simp add: decode_i64_def encode_i64_def decode_encode_u64 order_decode_encode_i64)

interpretation u64_codec: codec encode_u64 decode_u64 "\<lambda>_. True"
  by unfold_locales (simp add: decode_encode_u64)

interpretation u64_desc_codec: codec encode_u64_desc decode_u64_desc "\<lambda>_. True"
  by unfold_locales (simp add: decode_encode_u64_desc)

interpretation i64_codec: codec encode_i64 decode_i64 "\<lambda>_. True"
  by unfold_locales (simp add: decode_encode_i64)

interpretation u64_order: memcomparable "(<)" encode_u64
  by unfold_locales (simp_all add: encode_u64_def to_be_bytes_sep neq_iff)

interpretation u64_desc_order: memcomparable "(\<lambda>v w. w < v)" encode_u64_desc
  by unfold_locales
    (simp_all add: encode_u64_desc_def to_be_bytes_sep word_not_less_not_iff neq_iff disj_commute)

section \<open>Variable-length facts\<close>

lemma mask_7_eq: "(0x7f :: u64) = mask 7"
  by (simp add: mask_eq_exp_minus_1)

lemma bit_0x80: "bit (0x80 :: 'a::len word) n \<longleftrightarrow> n = 7 \<and> n < LENGTH('a)"
proof -
  have "(0x80 :: 'a word) = push_bit 7 1" by simp
  then show ?thesis by (simp only: bit_simps) auto
qed

lemma bit_0x80_int: "bit (0x80 :: int) n \<longleftrightarrow> n = 7"
proof -
  have "(0x80 :: int) = push_bit 7 1" by simp
  then show ?thesis by (simp only: bit_simps) auto
qed

lemma encode_var_u64_small: "v < 0x80 \<Longrightarrow> encode_var_u64 v = [ucast v]"
  by (subst encode_var_u64.simps) (simp add: not_le [symmetric])

lemma encode_var_u64_big:
  "0x80 \<le> v \<Longrightarrow> encode_var_u64 v = (ucast v OR 0x80) # encode_var_u64 (drop_bit 7 v)"
  by (subst encode_var_u64.simps) simp

lemma var_continued: "\<not> (ucast v OR 0x80 :: u8) < 0x80" for v :: u64
  by (simp add: not_less word_le_def uint_or or_greater_eq or.commute [of "uint (ucast v)"])

lemma var_payload_continued:
  "var_payload (ucast v OR 0x80) i OR push_bit (Suc i * 7) (drop_bit 7 v) = push_bit (i * 7) v"
  for v :: u64
proof (rule bit_word_eqI)
  fix n assume "n < LENGTH(64)"
  then show "bit (var_payload (ucast v OR 0x80) i OR push_bit (Suc i * 7) (drop_bit 7 v)) n =
      bit (push_bit (i * 7) v) n"
    by (cases "n < i * 7"; cases "n < i * 7 + 7")
      (auto simp: var_payload_def mask_7_eq bit_simps bit_0x80 bit_0x80_int not_less le_iff_add)
qed

lemma var_payload_last: "v < 0x80 \<Longrightarrow> var_payload (ucast v) i = push_bit (i * 7) v" for v :: u64
proof -
  assume "v < 0x80"
  then have v: "take_bit 7 v = v"
    by (simp add: word_unat_eq_iff unsigned_take_bit_eq take_bit_nat_eq_self word_less_nat_alt)
  have "ucast (ucast v :: u8) AND 0x7f = take_bit 7 v"
    by (rule bit_word_eqI) (auto simp: mask_7_eq bit_simps)
  with v show ?thesis by (simp add: var_payload_def)
qed

lemma var_last_byte: "v < 0x80 \<Longrightarrow> (ucast v :: u8) < 0x80" for v :: u64
  by (simp add: word_less_nat_alt unsigned_ucast_eq take_bit_eq_mod)

lemma decode_var_short_encode:
  "decode_var_short i res (encode_var_u64 v @ rest) = Ok (res OR push_bit (i * 7) v, rest)"
proof (induction v arbitrary: i res rule: encode_var_u64.induct)
  case (1 v)
  show ?case
  proof (cases "0x80 \<le> v")
    case True
    then show ?thesis
      using 1 var_payload_continued [of v i]
      by (simp add: encode_var_u64_big var_continued or.assoc Let_def)
  next
    case False
    then show ?thesis
      by (simp add: encode_var_u64_small var_last_byte var_payload_last not_le Let_def)
  qed
qed

lemma decode_var_nine_encode:
  assumes "i + k = 9" "unat v < 2 ^ (64 - 7 * i)"
  shows "decode_var_nine k i res (encode_var_u64 v @ rest) = Ok (res OR push_bit (i * 7) v, rest)"
  using assms
proof (induction v arbitrary: i k res rule: encode_var_u64.induct)
  case (1 v)
  show ?case
  proof (cases "0x80 \<le> v")
    case True
    have "k \<noteq> 0"
    proof
      assume "k = 0"
      with 1(2) have "i = 9" by simp
      with 1(3) True show False by (simp add: word_le_nat_alt)
    qed
    then obtain k' where k: "k = Suc k'" by (cases k) auto
    have "64 - 7 * i = (64 - 7 * Suc i) + 7"
      using 1(2) k by simp
    then have "(2::nat) ^ (64 - 7 * i) = 2 ^ (64 - 7 * Suc i) * 2 ^ 7"
      by (simp only: power_add)
    then have "(2::nat) ^ (64 - 7 * i) = 2 ^ (64 - 7 * Suc i) * 128"
      by simp
    then have "unat (drop_bit 7 v) < 2 ^ (64 - 7 * Suc i)"
      using 1(3) by (simp add: drop_bit_eq_div unat_div less_mult_imp_div_less)
    then show ?thesis
      using 1(1) [OF True, of "Suc i" k'] 1(2) k True var_payload_continued [of v i]
      by (simp add: encode_var_u64_big var_continued or.assoc Let_def)
  next
    case False
    then have small: "v < 0x80" by simp
    show ?thesis
    proof (cases k)
      case 0
      then have "i = 9" "unat v < 2" using 1(2,3) by auto
      moreover from this have "(ucast v :: u8) \<le> 1"
        by (simp add: word_le_nat_alt unsigned_ucast_eq take_bit_eq_mod)
      ultimately show ?thesis
        using 0 small var_payload_last [of v 9] by (simp add: encode_var_u64_small)
    next
      case (Suc k')
      then show ?thesis
        using small by (simp add: encode_var_u64_small var_last_byte var_payload_last Let_def)
    qed
  qed
qed

lemma encode_var_u64_not_Nil [simp]: "encode_var_u64 v \<noteq> []"
  by (subst encode_var_u64.simps) simp

lemma decode_encode_var_u64 [codec_simps]:
  "decode_var_u64 (encode_var_u64 v @ rest) = Ok (v, rest)"
proof -
  have one: "hd (encode_var_u64 v @ rest) < 0x80 \<Longrightarrow>
      encode_var_u64 v = [ucast v] \<and> v < 0x80"
    by (cases "0x80 \<le> v")
      (auto simp: encode_var_u64_small encode_var_u64_big var_continued not_le)
  show ?thesis
    using one var_payload_last [of v 0] decode_var_nine_encode [of 0 9 v 0 rest]
      decode_var_short_encode [of 0 0 v rest] unsigned_less [of v, where 'a = nat]
    by (auto simp: decode_var_u64_def var_payload_def)
qed

lemma length_encode_var_u64: "0 < n \<Longrightarrow> unat v < 2 ^ (7 * n) \<Longrightarrow> length (encode_var_u64 v) \<le> n"
proof (induction v arbitrary: n rule: encode_var_u64.induct)
  case (1 v)
  show ?case
  proof (cases "0x80 \<le> v")
    case True
    then have "n \<noteq> 1" using 1(3) by (auto simp: word_le_nat_alt)
    with 1(2) obtain m where m: "n = Suc m" "0 < m" by (cases n) auto
    then have "unat (drop_bit 7 v) < 2 ^ (7 * m)"
      using 1(3) by (simp add: drop_bit_eq_div unat_div less_mult_imp_div_less power_add mult.commute)
    then show ?thesis
      using 1(1) [OF True m(2)] m True by (simp add: encode_var_u64_big)
  next
    case False
    then show ?thesis using 1(2) by (simp add: encode_var_u64_small)
  qed
qed

lemma decode_var_nine_in_bounds:
  "k < length data \<or> data \<noteq> [] \<and> last data < 0x80 \<Longrightarrow> decode_var_nine k i res data \<noteq> Panic"
  by (induction k i res data rule: decode_var_nine.induct) (auto simp: Let_def split: if_splits)

lemma decode_var_short_no_panic: "decode_var_short i res data \<noteq> Panic"
  by (induction i res data rule: decode_var_short.induct) (auto simp: Let_def)

lemma decode_encode_var_i64 [codec_simps]:
  "decode_var_i64 (encode_var_i64 v @ rest) = Ok (v, rest)"
proof -
  have neg: "sint v < 0 \<longleftrightarrow> bit v 63" using bit_last_iff [of v] by simp
  have even: "drop_bit 1 (push_bit 1 v) = v" if "\<not> bit v 63"
  proof (rule bit_word_eqI)
    fix n assume "n < LENGTH(64)"
    then show "bit (drop_bit 1 (push_bit 1 v)) n = bit v n"
      using that by (cases "n = 63") (auto simp: bit_simps simp del: push_bit_Suc drop_bit_Suc)
  qed
  have odd: "NOT (drop_bit 1 (NOT (push_bit 1 v))) = v" if "bit v 63"
  proof (rule bit_word_eqI)
    fix n assume "n < LENGTH(64)"
    then show "bit (NOT (drop_bit 1 (NOT (push_bit 1 v)))) n = bit v n"
      using that by (cases "n = 63") (auto simp: bit_simps simp del: push_bit_Suc drop_bit_Suc)
  qed
  have "even (push_bit 1 v)" "odd (NOT (push_bit 1 v))"
    by (simp_all add: bit_0 [symmetric] bit_simps del: push_bit_Suc)
  then have parity: "push_bit 1 v AND 1 = 0" "NOT (push_bit 1 v) AND 1 \<noteq> 0"
    by (simp_all only: and_one_eq odd_iff_mod_2_eq_one even_iff_mod_2_eq_zero) auto
  show ?thesis
    using neg even odd parity
    by (simp add: decode_var_i64_def encode_var_i64_def decode_encode_var_u64 Let_def)
qed

interpretation var_u64_codec: codec encode_var_u64 decode_var_u64 "\<lambda>_. True"
  by unfold_locales (simp add: decode_encode_var_u64)

interpretation var_i64_codec: codec encode_var_i64 decode_var_i64 "\<lambda>_. True"
  by unfold_locales (simp add: decode_encode_var_i64)

section \<open>Signed order\<close>

lemma bit_SIGN_MARK: "bit SIGN_MARK n \<longleftrightarrow> n = 63"
proof -
  have sign: "SIGN_MARK = push_bit 63 1" by (simp add: SIGN_MARK_def)
  show ?thesis unfolding sign by (simp only: bit_simps) auto
qed

lemma xor_SIGN_MARK: "v XOR SIGN_MARK = v + SIGN_MARK"
proof -
  have clear: "u XOR SIGN_MARK = u + SIGN_MARK" if "\<not> bit u 63" for u
  proof -
    have "u + SIGN_MARK = u OR SIGN_MARK"
      using that by (intro disjunctive_add) (auto simp: bit_SIGN_MARK)
    also have "\<dots> = u XOR SIGN_MARK"
      by (rule bit_word_eqI) (use that in \<open>auto simp: bit_simps bit_SIGN_MARK\<close>)
    finally show ?thesis by simp
  qed
  show ?thesis
  proof (cases "bit v 63")
    case True
    define u where "u = v XOR SIGN_MARK"
    have v: "v = u XOR SIGN_MARK" by (simp add: u_def xor.assoc)
    have "\<not> bit u 63" using True by (simp add: u_def bit_simps bit_SIGN_MARK)
    then have "v = u + SIGN_MARK" using clear v by simp
    moreover have "SIGN_MARK + SIGN_MARK = 0" by (simp add: SIGN_MARK_def)
    ultimately have "v + SIGN_MARK = u" by (simp add: add.assoc)
    then show ?thesis by (simp add: u_def)
  qed (simp add: clear)
qed

lemma uint_order_encode_i64: "uint (order_encode_i64 v) = sint v + 2 ^ 63"
proof -
  have "sint v = take_bit 64 (uint v + 2 ^ 63) - 2 ^ 63"
    by (simp add: sint_uint signed_take_bit_eq_take_bit_shift)
  moreover have "uint (v + SIGN_MARK) = take_bit 64 (uint v + 2 ^ 63)"
    by (simp add: uint_word_ariths SIGN_MARK_def take_bit_eq_mod)
  ultimately show ?thesis by (simp add: order_encode_i64_def xor_SIGN_MARK)
qed

lemma order_encode_i64_less: "order_encode_i64 v < order_encode_i64 w \<longleftrightarrow> sint v < sint w"
  by (simp add: word_less_def uint_order_encode_i64)

lemma order_decode_encode_f64: "order_decode_f64 (order_encode_f64 u) = u"
proof -
  have "w AND SIGN_MARK = (if bit w 63 then SIGN_MARK else 0)" for w
    by (rule bit_word_eqI) (auto simp: bit_simps bit_SIGN_MARK)
  then have zero: "w AND SIGN_MARK = 0 \<longleftrightarrow> \<not> bit w 63"
    and pos: "w AND SIGN_MARK > 0 \<longleftrightarrow> bit w 63" for w
    by (simp_all add: SIGN_MARK_def)
  have "(u OR SIGN_MARK) AND NOT SIGN_MARK = u" if "\<not> bit u 63"
    by (rule bit_word_eqI) (use that in \<open>auto simp: bit_simps bit_SIGN_MARK\<close>)
  then show ?thesis
    by (simp add: order_decode_f64_def order_encode_f64_def zero pos bit_simps bit_SIGN_MARK)
qed

lemma decode_encode_f64: "decode_f64 (encode_f64 v @ rest) = Ok (v, rest)"
  by (simp add: decode_f64_def encode_f64_def decode_encode_u64 order_decode_encode_f64)

interpretation f64_codec: codec encode_f64 decode_f64 "\<lambda>_. True"
  by unfold_locales (simp add: decode_encode_f64)

interpretation i64_order: memcomparable "(\<lambda>v w. sint v < sint w)" encode_i64
proof unfold_locales
  show "x \<noteq> y \<Longrightarrow> sint x < sint y \<or> sint y < sint x" for x y :: u64
    by (auto simp: neq_iff [symmetric] signed_word_eqI)
  show "sint x < sint y \<Longrightarrow> sep_less (encode_i64 x) (encode_i64 y)" for x y :: u64
    using u64_order.enc_sep order_encode_i64_less by (simp add: encode_i64_def)
qed

section \<open>The decoder of the codec crate\<close>

text \<open>
  \<open>NumberCodec::try_decode_var_u64\<close> and \<open>read_var_u64\<close> of
  \<open>components/codec/src/number.rs\<close>: a second decoder of the same format. It returns the value
  and the number of bytes it used, and it keeps only the lowest bit of a tenth byte.
\<close>

fun try_decode_var_fast :: "nat \<Rightarrow> nat \<Rightarrow> u64 \<Rightarrow> bytes \<Rightarrow> (codec_error, u64 \<times> nat) result" where
  "try_decode_var_fast k i val [] = Panic"
| "try_decode_var_fast (Suc k) i val (b # rest) =
     (let val' = val OR var_payload b i in
      if b < 0x80 then Ok (val', Suc i) else try_decode_var_fast k (Suc i) val' rest)"
| "try_decode_var_fast 0 i val (b # rest) =
     Ok (val OR push_bit (i * 7) (ucast b AND 1), 10)"

fun try_decode_var_slow :: "nat \<Rightarrow> u64 \<Rightarrow> bytes \<Rightarrow> (codec_error, u64 \<times> nat) result" where
  "try_decode_var_slow i val [] = Err unexpected_eof"
| "try_decode_var_slow i val (b # rest) =
     (if b \<ge> 0x80 then try_decode_var_slow (Suc i) (val OR var_payload b i) rest
      else Ok (val OR push_bit (i * 7) (ucast b), Suc i))"

definition try_decode_var_u64 :: "bytes \<Rightarrow> (codec_error, u64 \<times> nat) result" where
  "try_decode_var_u64 buf =
     (if length buf \<ge> 10 then try_decode_var_fast 9 0 0 buf else try_decode_var_slow 0 0 buf)"

definition read_var_u64 :: "bytes \<Rightarrow> u64 decoded" where
  "read_var_u64 buf = rbind (try_decode_var_u64 buf) (\<lambda>(v, n). Ok (v, drop n buf))"

lemma var_payload_small: "b < 0x80 \<Longrightarrow> var_payload b i = push_bit (i * 7) (ucast b)"
proof -
  assume "b < 0x80"
  then have "take_bit 7 b = b"
    by (simp add: word_unat_eq_iff unsigned_take_bit_eq take_bit_nat_eq_self word_less_nat_alt)
  moreover have "(ucast b :: u64) AND 0x7f = ucast (take_bit 7 b)"
    by (rule bit_word_eqI) (auto simp: mask_7_eq bit_simps)
  ultimately show ?thesis by (simp add: var_payload_def)
qed

lemma try_decode_var_fast_agrees:
  "decode_var_nine k i res data = Ok (v, rest) \<Longrightarrow> i + k = 9 \<Longrightarrow>
   \<exists>n. try_decode_var_fast k i res data = Ok (v, n) \<and> i \<le> n \<and> rest = drop (n - i) data"
proof (induction k i res data rule: decode_var_nine.induct)
  case (2 k i res b data)
  show ?case
  proof (cases "b < 0x80")
    case False
    then have "decode_var_nine k (Suc i) (res OR var_payload b i) data = Ok (v, rest)"
      using 2(2) by (simp add: Let_def)
    then obtain n where n: "try_decode_var_fast k (Suc i) (res OR var_payload b i) data = Ok (v, n)"
      "Suc i \<le> n" "rest = drop (n - Suc i) data"
      using 2(1) [OF refl False] 2(3) by auto
    then have "n - i = Suc (n - Suc i)" by simp
    with n False show ?thesis by (intro exI [of _ n]) (simp add: Let_def)
  qed (use 2 in \<open>auto simp: Let_def\<close>)
next
  case (3 i res b data)
  then have "b = 0 \<or> b = 1" "i = 9"
    by (auto split: if_splits simp: word_le_nat_alt word_unat_eq_iff le_Suc_eq)
  with 3 show ?case by (auto simp: var_payload_def)
qed simp

lemma try_decode_var_slow_agrees:
  "decode_var_short i res data = Ok (v, rest) \<Longrightarrow>
   \<exists>n. try_decode_var_slow i res data = Ok (v, n) \<and> i \<le> n \<and> rest = drop (n - i) data"
proof (induction i res data rule: decode_var_short.induct)
  case (2 i res b data)
  show ?case
  proof (cases "b < 0x80")
    case False
    then have "decode_var_short (Suc i) (res OR var_payload b i) data = Ok (v, rest)"
      using 2(2) by (simp add: Let_def)
    then obtain n where n: "try_decode_var_slow (Suc i) (res OR var_payload b i) data = Ok (v, n)"
      "Suc i \<le> n" "rest = drop (n - Suc i) data"
      using 2(1) [OF refl False] by auto
    then have "n - i = Suc (n - Suc i)" by simp
    with n False show ?thesis by (intro exI [of _ n]) (simp add: not_less)
  qed (use 2 in \<open>auto simp: Let_def var_payload_small not_le\<close>)
qed simp

lemma read_encode_var_u64 [codec_simps]: "read_var_u64 (encode_var_u64 v @ rest) = Ok (v, rest)"
proof -
  have "decode_var_nine 9 0 0 (encode_var_u64 v @ rest) = Ok (v, rest)"
    using decode_var_nine_encode [of 0 9 v 0 rest] unsigned_less [of v, where 'a = nat] by simp
  moreover have "decode_var_short 0 0 (encode_var_u64 v @ rest) = Ok (v, rest)"
    using decode_var_short_encode [of 0 0 v rest] by simp
  ultimately have "\<exists>n. try_decode_var_u64 (encode_var_u64 v @ rest) = Ok (v, n) \<and>
      rest = drop n (encode_var_u64 v @ rest)"
    using try_decode_var_fast_agrees [of 9 0 0 "encode_var_u64 v @ rest" v rest]
      try_decode_var_slow_agrees [of 0 0 "encode_var_u64 v @ rest" v rest]
    by (auto simp: try_decode_var_u64_def)
  then show ?thesis by (auto simp: read_var_u64_def)
qed

interpretation read_var_u64_codec: codec encode_var_u64 read_var_u64 "\<lambda>_. True"
  by unfold_locales (simp add: read_encode_var_u64)

section \<open>Properties of the number codec\<close>

text \<open>
  Fixed-width encodings compare like their arguments: unsigned ascending, unsigned
  descending, and signed ascending, as byte strings.
\<close>

theorem number_encodings_order:
  "(encode_u64 a < encode_u64 b \<longleftrightarrow> a < b) \<and>
   (encode_u64_desc a < encode_u64_desc b \<longleftrightarrow> b < a) \<and>
   (encode_i64 a < encode_i64 b \<longleftrightarrow> sint a < sint b)"
  using u64_order.enc_less u64_desc_order.enc_less i64_order.enc_less by blast

text \<open>
  A variable-length integer takes at most ten bytes, and both decoders of the repository read
  back the number and leave exactly what follows it, signed numbers included.
\<close>

theorem var_int_roundtrip:
  "length (encode_var_u64 v) \<le> 10 \<and>
   decode_var_u64 (encode_var_u64 v @ rest) = Ok (v, rest) \<and>
   read_var_u64 (encode_var_u64 v @ rest) = Ok (v, rest) \<and>
   decode_var_i64 (encode_var_i64 v @ rest) = Ok (v, rest)"
  using length_encode_var_u64 [of 10 v] unsigned_less [of v, where 'a = nat]
  by (simp add: codec_simps)

text \<open>
  C30: On every input the unchecked reads of the variable-length decoder stay inside the slice: it
  returns a value or an error, never an access out of bounds.
\<close>

theorem decode_var_u64_in_bounds:
  "decode_var_u64 data \<noteq> Panic \<and> decode_var_i64 data \<noteq> Panic"
proof -
  have "decode_var_u64 data \<noteq> Panic"
    using decode_var_nine_in_bounds [of 9 data 0 0] decode_var_short_no_panic
    by (auto simp: decode_var_u64_def)
  then show ?thesis
    by (cases "decode_var_u64 data") (auto simp: decode_var_i64_def Let_def)
qed

end
