(* ===== verification/BytesCodec.thy ===== *)
theory BytesCodec
  imports NumberCodec
begin

text \<open>
  The byte-string codec of \<open>components/tikv_util/src/codec/bytes.rs\<close> and the slice helpers of
  \<open>codec/mod.rs\<close>: the memcomparable format (groups of eight bytes, each followed by a marker
  that counts the padding), its two decoders, the check that a byte string is the encoding of
  another, and the length-prefixed compact format.
\<close>

section \<open>Slices\<close>

definition read_slice :: "bytes \<Rightarrow> nat \<Rightarrow> bytes decoded" where
  "read_slice data sz =
     (if sz \<le> length data then Ok (take sz data, drop sz data) else Err unexpected_eof)"

text \<open>The loop of \<open>next_prefix_of\<close> runs from the last byte to the first.\<close>

fun next_prefix_loop :: "bytes \<Rightarrow> bytes" where
  "next_prefix_loop [] = []"
| "next_prefix_loop (b # bs) = (if b = 0xff then next_prefix_loop bs else (b + 1) # bs)"

definition next_prefix_of :: "bytes \<Rightarrow> bytes" where
  "next_prefix_of key = rev (next_prefix_loop (rev key))"

text \<open>The standard library's exact chunks of a slice, from the front and from the back.\<close>

definition chunks_exact :: "nat \<Rightarrow> 'a list \<Rightarrow> 'a list list" where
  "chunks_exact n xs = map (\<lambda>i. take n (drop (i * n) xs)) [0..<length xs div n]"

definition chunks_remainder :: "nat \<Rightarrow> 'a list \<Rightarrow> 'a list" where
  "chunks_remainder n xs = drop (length xs div n * n) xs"

definition rchunks_exact :: "nat \<Rightarrow> 'a list \<Rightarrow> 'a list list" where
  "rchunks_exact n xs =
     map (\<lambda>i. take n (drop (length xs - Suc i * n) xs)) [0..<length xs div n]"

definition rchunks_remainder :: "nat \<Rightarrow> 'a list \<Rightarrow> 'a list" where
  "rchunks_remainder n xs = take (length xs mod n) xs"

section \<open>Memcomparable format\<close>

definition ENC_GROUP_SIZE :: nat where "ENC_GROUP_SIZE = 8"
definition ENC_MARKER :: u8 where "ENC_MARKER = 0xff"
definition ENC_ASC_PADDING :: bytes where "ENC_ASC_PADDING = replicate ENC_GROUP_SIZE 0"
definition ENC_DESC_PADDING :: bytes where "ENC_DESC_PADDING = replicate ENC_GROUP_SIZE (NOT 0)"

definition max_encoded_bytes_size :: "nat \<Rightarrow> nat" where
  "max_encoded_bytes_size n = (n div ENC_GROUP_SIZE + 1) * (ENC_GROUP_SIZE + 1)"

definition adjust_bytes_order :: "bytes \<Rightarrow> bool \<Rightarrow> bytes" where
  "adjust_bytes_order bs desc = (if desc then map (\<lambda>b. NOT b) bs else bs)"

text \<open>The loop of \<open>BytesEncoder::encode_bytes\<close> from position \<open>index\<close>.\<close>

function encode_bytes_loop :: "bytes \<Rightarrow> bool \<Rightarrow> nat \<Rightarrow> bytes" where
  "encode_bytes_loop key desc index =
     (if index \<le> length key then
        let remain = length key - index;
            pad = (if remain > ENC_GROUP_SIZE then 0 else ENC_GROUP_SIZE - remain);
            body =
              (if remain > ENC_GROUP_SIZE
               then adjust_bytes_order (take ENC_GROUP_SIZE (drop index key)) desc
               else adjust_bytes_order (drop index key) desc @
                 take pad (if desc then ENC_DESC_PADDING else ENC_ASC_PADDING))
        in body @ adjust_bytes_order [ENC_MARKER - of_nat pad] desc @
           encode_bytes_loop key desc (index + ENC_GROUP_SIZE)
      else [])"
  by auto
termination
  by (relation "measure (\<lambda>(key, desc, index). Suc (length key) - index)")
    (auto simp: ENC_GROUP_SIZE_def)

declare encode_bytes_loop.simps [simp del]

definition encode_order_bytes :: "bytes \<Rightarrow> bool \<Rightarrow> bytes" where
  "encode_order_bytes bs desc = encode_bytes_loop bs desc 0"

definition encode_bytes :: "bytes \<Rightarrow> bytes" where
  "encode_bytes bs = encode_order_bytes bs False"

definition encode_bytes_desc :: "bytes \<Rightarrow> bytes" where
  "encode_bytes_desc bs = encode_order_bytes bs True"

definition pad_size_of :: "bool \<Rightarrow> u8 \<Rightarrow> nat" where
  "pad_size_of desc marker = unat (if desc then marker else ENC_MARKER - marker)"

function encoded_bytes_len_loop :: "bytes \<Rightarrow> bool \<Rightarrow> nat \<Rightarrow> nat" where
  "encoded_bytes_len_loop encoded desc idx =
     (if length encoded < idx + 1 then length encoded
      else let marker = encoded ! idx in
        if desc \<and> marker \<noteq> 0 \<or> \<not> desc \<and> marker \<noteq> ENC_MARKER then idx + 1
        else encoded_bytes_len_loop encoded desc (idx + ENC_GROUP_SIZE + 1))"
  by auto
termination
  by (relation "measure (\<lambda>(encoded, desc, idx). length encoded - idx)") auto

declare encoded_bytes_len_loop.simps [simp del]

definition encoded_bytes_len :: "bytes \<Rightarrow> bool \<Rightarrow> nat" where
  "encoded_bytes_len encoded desc = encoded_bytes_len_loop encoded desc ENC_GROUP_SIZE"

text \<open>The loop of \<open>decode_bytes\<close>: \<open>key\<close> is the output so far, \<open>offset\<close> the read position.\<close>

function decode_bytes_loop :: "bytes \<Rightarrow> bool \<Rightarrow> bytes \<Rightarrow> nat \<Rightarrow> bytes decoded" where
  "decode_bytes_loop data desc key offset =
     (let next_offset = offset + (ENC_GROUP_SIZE + 1) in
      if next_offset \<le> length data then
        let chunk = take (ENC_GROUP_SIZE + 1) (drop offset data);
            marker = last chunk;
            bs = butlast chunk;
            pad_size = pad_size_of desc marker
        in if pad_size = 0 then decode_bytes_loop data desc (key @ bs) next_offset
           else if pad_size > ENC_GROUP_SIZE then Err KeyPadding
           else let key' = key @ take (ENC_GROUP_SIZE - pad_size) bs;
                    padding = drop (ENC_GROUP_SIZE - pad_size) bs
                in if list_ex (\<lambda>x. x \<noteq> (if desc then NOT 0 else 0)) padding then Err KeyPadding
                   else Ok (if desc then map (\<lambda>k. NOT k) key' else key', drop next_offset data)
      else Err unexpected_eof)"
  by auto
termination
  by (relation "measure (\<lambda>(data, desc, key, offset). length data - offset)") auto

declare decode_bytes_loop.simps [simp del]

definition decode_bytes :: "bytes \<Rightarrow> bool \<Rightarrow> bytes decoded" where
  "decode_bytes data desc = decode_bytes_loop data desc [] 0"

text \<open>
  \<open>memmove\<close> of \<open>n\<close> bytes inside a vector, and the in-place decoder. Its result is the outcome
  together with the vector it leaves behind; the unchecked copy is \<open>Panic\<close> when it would write
  outside the vector.
\<close>

definition copy_within :: "bytes \<Rightarrow> nat \<Rightarrow> nat \<Rightarrow> nat \<Rightarrow> bytes" where
  "copy_within data src dst n = take dst data @ take n (drop src data) @ drop (dst + n) data"

lemma length_copy_within:
  "src + n \<le> length data \<Longrightarrow> dst + n \<le> length data \<Longrightarrow>
   length (copy_within data src dst n) = length data"
  by (simp add: copy_within_def)

function decode_in_place_loop ::
    "bytes \<Rightarrow> bool \<Rightarrow> nat \<Rightarrow> nat \<Rightarrow> (codec_error, unit) result \<times> bytes" where
  "decode_in_place_loop data desc write_offset read_offset =
     (let marker_offset = read_offset + ENC_GROUP_SIZE in
      if marker_offset \<ge> length data then (Err unexpected_eof, data)
      else if write_offset + ENC_GROUP_SIZE > length data then (Panic, data)
      else
        let data' = copy_within data read_offset write_offset ENC_GROUP_SIZE;
            write' = write_offset + ENC_GROUP_SIZE;
            read' = read_offset + (ENC_GROUP_SIZE + 1);
            pad_size = pad_size_of desc (data' ! marker_offset)
        in if pad_size > 0 then
             if pad_size > ENC_GROUP_SIZE then (Err KeyPadding, data')
             else if take pad_size (drop (write' - pad_size) data') \<noteq>
                 take pad_size (if desc then ENC_DESC_PADDING else ENC_ASC_PADDING)
             then (Err KeyPadding, data')
             else (Ok (), let out = take (write' - pad_size) data' in
                     if desc then map (\<lambda>k. NOT k) out else out)
           else decode_in_place_loop data' desc write' read')"
  by auto
termination
  by (relation "measure (\<lambda>(data, desc, w, r). length data - r)") (auto simp: length_copy_within)

declare decode_in_place_loop.simps [simp del]

definition decode_bytes_in_place :: "bytes \<Rightarrow> bool \<Rightarrow> (codec_error, unit) result \<times> bytes" where
  "decode_bytes_in_place data desc = decode_in_place_loop data desc 0 0"

definition check_single_chunk :: "bool \<Rightarrow> bytes \<Rightarrow> bytes \<Rightarrow> bool" where
  "check_single_chunk desc encoded raw =
     (let len = length raw; pad = of_nat (ENC_GROUP_SIZE - len) in
      if desc then
        encoded ! ENC_GROUP_SIZE = NOT (ENC_MARKER - pad) \<and>
        list_all (\<lambda>(enc, r). enc = NOT r) (zip (take len encoded) raw) \<and>
        list_all (\<lambda>v. v = ENC_MARKER) (drop len (butlast encoded))
      else
        encoded ! ENC_GROUP_SIZE = ENC_MARKER - pad \<and>
        take len encoded = raw \<and>
        list_all (\<lambda>v. v = NOT ENC_MARKER) (drop len (butlast encoded)))"

definition is_encoded_from :: "bytes \<Rightarrow> bytes \<Rightarrow> bool \<Rightarrow> bool" where
  "is_encoded_from encoded raw desc =
     (let rev_encoded_chunks = rchunks_exact (ENC_GROUP_SIZE + 1) encoded;
          raw_chunks = chunks_exact ENC_GROUP_SIZE raw
      in if rchunks_remainder (ENC_GROUP_SIZE + 1) encoded \<noteq> [] then False
         else case rev_encoded_chunks of
           [] \<Rightarrow> False
         | encoded_chunk # rest \<Rightarrow>
             if \<not> check_single_chunk desc encoded_chunk (chunks_remainder ENC_GROUP_SIZE raw)
             then False
             else if length rest \<noteq> length raw_chunks then False
             else list_all (\<lambda>(e, r). check_single_chunk desc e r) (zip rest (rev raw_chunks)))"

section \<open>Compact format\<close>

definition encode_compact_bytes :: "bytes \<Rightarrow> bytes" where
  "encode_compact_bytes data = encode_var_i64 (of_nat (length data)) @ data"

definition encoded_compact_len :: "bytes \<Rightarrow> u64" where
  "encoded_compact_len encoded =
     (case decode_var_i64 encoded of
        Ok (vn, rest) \<Rightarrow> vn + of_nat (length encoded - length rest)
      | _ \<Rightarrow> of_nat (length encoded))"

definition decode_compact_bytes :: "bytes \<Rightarrow> bytes decoded" where
  "decode_compact_bytes data =
     rbind (decode_var_i64 data) (\<lambda>(vn, rest).
       if unat vn \<le> length rest then Ok (take (unat vn) rest, drop (unat vn) rest)
       else Err unexpected_eof)"

text \<open>
  The decoder over a buffered reader: the reader is the list of bytes not yet consumed. A vector
  longer than \<open>isize::MAX\<close> cannot be allocated.
\<close>

fun read_var_bytes :: "nat \<Rightarrow> bytes \<Rightarrow> bytes decoded" where
  "read_var_bytes 0 input = Ok ([], input)"
| "read_var_bytes (Suc k) input =
     rbind (read_u8 input) (\<lambda>(b, rest).
       if b < 0x80 then Ok ([b], rest)
       else rbind (read_var_bytes k rest) (\<lambda>(bs, rest'). Ok (b # bs, rest')))"

definition file_decode_compact_bytes :: "bytes \<Rightarrow> bytes decoded" where
  "file_decode_compact_bytes input =
     rbind (read_var_bytes 10 input) (\<lambda>(var_data, rest).
     rbind (decode_var_i64 var_data) (\<lambda>(vn, _).
       if 2 ^ 63 \<le> unat vn then Panic else read_slice rest (unat vn)))"

section \<open>Shape of the memcomparable format\<close>

text \<open>One group: up to eight bytes, the padding, and the marker.\<close>

definition enc_group :: "bool \<Rightarrow> bytes \<Rightarrow> bytes" where
  "enc_group desc bs = adjust_bytes_order
     (bs @ replicate (8 - length bs) 0 @ [ENC_MARKER - of_nat (8 - length bs)]) desc"

lemma adjust_append [simp]:
  "adjust_bytes_order (a @ b) desc = adjust_bytes_order a desc @ adjust_bytes_order b desc"
  by (simp add: adjust_bytes_order_def)

lemma length_adjust [simp]: "length (adjust_bytes_order a desc) = length a"
  by (simp add: adjust_bytes_order_def)

lemma adjust_twice [simp]: "adjust_bytes_order (adjust_bytes_order a desc) desc = a"
  by (simp add: adjust_bytes_order_def comp_def)

lemma padding_adjust:
  "n \<le> 8 \<Longrightarrow> take n (if desc then ENC_DESC_PADDING else ENC_ASC_PADDING) =
   adjust_bytes_order (replicate n 0) desc"
  by (simp add: ENC_DESC_PADDING_def ENC_ASC_PADDING_def ENC_GROUP_SIZE_def adjust_bytes_order_def)

lemma length_enc_group [simp]: "length bs \<le> 8 \<Longrightarrow> length (enc_group desc bs) = 9"
  by (simp add: enc_group_def)

lemma encode_bytes_loop_drop:
  "j \<le> length key \<Longrightarrow> encode_bytes_loop (drop j key) desc i = encode_bytes_loop key desc (j + i)"
proof (induction "Suc (length key) - (j + i)" arbitrary: i rule: less_induct)
  case less
  have unfold: "encode_bytes_loop (drop j key) desc i = encode_bytes_loop key desc (j + i)"
    if "encode_bytes_loop (drop j key) desc (i + ENC_GROUP_SIZE) =
        encode_bytes_loop key desc (j + i + ENC_GROUP_SIZE) \<or> length key < j + i"
    using that less.prems by (subst (1 2) encode_bytes_loop.simps) (auto simp: Let_def add.commute)
  show ?case
    using less.hyps [of "i + ENC_GROUP_SIZE"] less.prems
    by (cases "length key < j + i") (auto intro!: unfold simp: ENC_GROUP_SIZE_def add.assoc)
qed

lemma encode_order_bytes_rec:
  "encode_order_bytes key desc =
     (if 8 \<le> length key then enc_group desc (take 8 key) @ encode_order_bytes (drop 8 key) desc
      else enc_group desc key)"
proof (cases "8 \<le> length key")
  case True
  then have "encode_bytes_loop key desc 8 = encode_order_bytes (drop 8 key) desc"
    using encode_bytes_loop_drop [of 8 key desc 0] by (simp add: encode_order_bytes_def)
  with True show ?thesis
    unfolding encode_order_bytes_def
    by (subst encode_bytes_loop.simps) (auto simp: ENC_GROUP_SIZE_def enc_group_def Let_def)
next
  case False
  then have "encode_bytes_loop key desc 8 = []"
    by (subst encode_bytes_loop.simps) simp
  with False show ?thesis
    unfolding encode_order_bytes_def
    by (subst encode_bytes_loop.simps)
      (simp add: ENC_GROUP_SIZE_def enc_group_def Let_def padding_adjust)
qed

lemma encode_order_bytes_induct [case_names short long]:
  assumes "\<And>key. length key < 8 \<Longrightarrow> P key"
    and "\<And>key. 8 \<le> length key \<Longrightarrow> P (drop 8 key) \<Longrightarrow> P key"
  shows "P (key :: bytes)"
proof (induction "length key" arbitrary: key rule: less_induct)
  case less
  then show ?case using assms(1) [of key] assms(2) [of key] by (cases "8 \<le> length key") auto
qed

lemma encode_order_bytes_short:
  "length key < 8 \<Longrightarrow> encode_order_bytes key desc = enc_group desc key"
  by (subst encode_order_bytes_rec) simp

lemma encode_order_bytes_long:
  "8 \<le> length key \<Longrightarrow> encode_order_bytes key desc =
   enc_group desc (take 8 key) @ encode_order_bytes (drop 8 key) desc"
  by (subst encode_order_bytes_rec) simp

lemma encode_order_bytes_desc:
  "encode_order_bytes key True = map (\<lambda>b. NOT b) (encode_order_bytes key False)"
proof (induction key rule: encode_order_bytes_induct)
  case (short key)
  then show ?case by (simp add: encode_order_bytes_short enc_group_def adjust_bytes_order_def)
next
  case (long key)
  then show ?case by (simp add: encode_order_bytes_long enc_group_def adjust_bytes_order_def)
qed

lemma length_encode_order_bytes:
  "length (encode_order_bytes key desc) = max_encoded_bytes_size (length key)"
proof (induction key rule: encode_order_bytes_induct)
  case (short key)
  then show ?case
    by (simp add: encode_order_bytes_short max_encoded_bytes_size_def ENC_GROUP_SIZE_def)
next
  case (long key)
  then show ?case
    by (simp add: encode_order_bytes_long max_encoded_bytes_size_def ENC_GROUP_SIZE_def
        le_div_geq [of 8 "length key"])
qed

section \<open>The memcomparable format keeps the order\<close>

lemma lex_take_drop:
  "(a :: 'a::linorder list) < b \<longleftrightarrow>
   take n a < take n b \<or> take n a = take n b \<and> drop n a < drop n b"
proof (induction n arbitrary: a b)
  case (Suc n)
  show ?case using Suc.IH [of "tl a" "tl b"] by (cases a; cases b) auto
qed simp

lemma zeros_sep:
  fixes m n :: u8
  assumes "m < n" "length b \<le> k"
  shows "sep_less (replicate k 0 @ m # s) (b @ replicate (k - length b) 0 @ n # t)"
  using assms
proof (induction b arbitrary: k)
  case (Cons x b)
  then obtain j where "k = Suc j" by (cases k) auto
  with Cons show ?case by (cases "x = 0") (auto simp: word_gt_0)
qed simp

lemma padded_sep:
  fixes m n :: u8
  assumes "a < b" "length a \<le> k" "length b \<le> k" "length a < length b \<Longrightarrow> m < n"
  shows "sep_less (a @ replicate (k - length a) 0 @ m # s) (b @ replicate (k - length b) 0 @ n # t)"
  using assms
proof (induction a arbitrary: b k)
  case Nil
  then show ?case using zeros_sep [of m n b k s t] by (cases b) auto
next
  case (Cons x a)
  then obtain y b' where b: "b = y # b'" by (cases b) auto
  with Cons obtain j where k: "k = Suc j" by (cases k) auto
  show ?case using Cons b k by auto
qed

lemma marker_less:
  assumes "i < j" "j \<le> 8"
  shows "ENC_MARKER - of_nat (8 - i) < ENC_MARKER - of_nat (8 - j)"
proof -
  have "unat (ENC_MARKER - of_nat (8 - i)) = 247 + i" if "i \<le> 8" for i
    using that by (simp add: ENC_MARKER_def unat_word_ariths unat_of_nat)
  with assms show ?thesis by (simp add: word_less_nat_alt)
qed

lemma encode_order_bytes_head:
  "\<exists>rest. encode_order_bytes key False = take 8 key @ replicate (8 - length (take 8 key)) 0 @
     (ENC_MARKER - of_nat (8 - length (take 8 key))) # rest"
  by (subst encode_order_bytes_rec) (auto simp: enc_group_def adjust_bytes_order_def)

lemma encode_order_bytes_head_sep:
  assumes "take 8 a < take 8 b"
  shows "sep_less (encode_order_bytes a False) (encode_order_bytes b False)"
proof -
  obtain s where s: "encode_order_bytes a False = take 8 a @ replicate (8 - length (take 8 a)) 0 @
     (ENC_MARKER - of_nat (8 - length (take 8 a))) # s"
    using encode_order_bytes_head by blast
  obtain t where t: "encode_order_bytes b False = take 8 b @ replicate (8 - length (take 8 b)) 0 @
     (ENC_MARKER - of_nat (8 - length (take 8 b))) # t"
    using encode_order_bytes_head by blast
  show ?thesis
    unfolding s t using assms by (intro padded_sep marker_less) simp_all
qed

lemma encode_bytes_sep: "a < b \<Longrightarrow> sep_less (encode_bytes a) (encode_bytes b)"
  unfolding encode_bytes_def
proof (induction a arbitrary: b rule: encode_order_bytes_induct)
  case (short a)
  then have "take 8 a < take 8 b"
    using lex_take_drop [of a b 8] by auto
  then show ?case by (rule encode_order_bytes_head_sep)
next
  case (long a)
  show ?case
  proof (cases "take 8 a < take 8 b")
    case True
    then show ?thesis by (rule encode_order_bytes_head_sep)
  next
    case False
    with long have "take 8 a = take 8 b" "drop 8 a < drop 8 b"
      using lex_take_drop [of a b 8] by auto
    moreover from this have "8 \<le> length b" by (cases "8 \<le> length b") auto
    ultimately show ?thesis using long by (simp add: encode_order_bytes_long)
  qed
qed

interpretation bytes_order: memcomparable "(<)" encode_bytes
  by unfold_locales (simp_all add: encode_bytes_sep neq_iff)

interpretation bytes_desc_order: memcomparable "(\<lambda>a b. b < a)" encode_bytes_desc
proof unfold_locales
  show "x \<noteq> y \<Longrightarrow> y < x \<or> x < y" for x y :: bytes by auto
  show "y < x \<Longrightarrow> sep_less (encode_bytes_desc x) (encode_bytes_desc y)" for x y :: bytes
    using encode_bytes_sep [of y x]
    by (simp add: encode_bytes_desc_def encode_bytes_def encode_order_bytes_desc map_sep_less
        word_not_less_not_iff)
qed

section \<open>Decoding\<close>

lemma adjust_Nil [simp]: "adjust_bytes_order [] desc = []"
  by (simp add: adjust_bytes_order_def)

lemma adjust_Cons [simp]:
  "adjust_bytes_order (b # bs) desc = (if desc then NOT b else b) # adjust_bytes_order bs desc"
  by (simp add: adjust_bytes_order_def)

lemma marker_complement [simp]:
  "NOT (ENC_MARKER - x) = x" "ENC_MARKER - (ENC_MARKER - x) = x" "ENC_MARKER - NOT x = x"
proof -
  have m: "ENC_MARKER = - 1" by (simp add: ENC_MARKER_def)
  show "NOT (ENC_MARKER - x) = x" "ENC_MARKER - (ENC_MARKER - x) = x" "ENC_MARKER - NOT x = x"
    by (simp_all add: m not_eq_complement)
qed

lemma enc_group_marker: "length bs \<le> 8 \<Longrightarrow>
  last (enc_group desc bs) =
    (if desc then of_nat (8 - length bs) else ENC_MARKER - of_nat (8 - length bs))"
  by (simp add: enc_group_def)

lemma enc_group_body: "length bs \<le> 8 \<Longrightarrow>
  butlast (enc_group desc bs) = adjust_bytes_order (bs @ replicate (8 - length bs) 0) desc"
  by (simp add: enc_group_def butlast_append)

lemma pad_size_of_marker: "n \<le> 8 \<Longrightarrow>
  pad_size_of desc (if desc then of_nat n else ENC_MARKER - of_nat n) = n"
  by (simp add: pad_size_of_def unat_of_nat)

lemma replicate_padding:
  "list_ex (\<lambda>x. x \<noteq> (if desc then NOT 0 else 0)) xs \<longleftrightarrow>
   xs \<noteq> adjust_bytes_order (replicate (length xs) 0) desc"
  by (induction xs) (auto simp: adjust_bytes_order_def)

lemma decode_bytes_loop_group:
  assumes "length bs \<le> 8"
  shows "decode_bytes_loop (pre @ enc_group desc bs @ rest) desc acc (length pre) =
    (if length bs = 8
     then decode_bytes_loop (pre @ enc_group desc bs @ rest) desc
       (acc @ adjust_bytes_order bs desc) (length pre + 9)
     else Ok (adjust_bytes_order (acc @ adjust_bytes_order bs desc) desc, rest))"
  using assms
  by (subst decode_bytes_loop.simps)
    (auto simp: ENC_GROUP_SIZE_def enc_group_marker enc_group_body pad_size_of_marker
      replicate_padding Let_def, auto simp: adjust_bytes_order_def comp_def)

lemma decode_bytes_loop_encode:
  "decode_bytes_loop (pre @ encode_order_bytes key desc @ rest) desc acc (length pre) =
   Ok (adjust_bytes_order acc desc @ key, rest)"
proof (induction key arbitrary: pre acc rule: encode_order_bytes_induct)
  case (short key)
  then show ?case by (simp add: encode_order_bytes_short decode_bytes_loop_group)
next
  case (long key)
  from long.IH [of "pre @ enc_group desc (take 8 key)" "acc @ adjust_bytes_order (take 8 key) desc"]
  have "decode_bytes_loop (pre @ enc_group desc (take 8 key) @
      encode_order_bytes (drop 8 key) desc @ rest) desc
      (acc @ adjust_bytes_order (take 8 key) desc) (length pre + 9) =
    Ok (adjust_bytes_order acc desc @ key, rest)"
    using long.hyps by simp
  with long.hyps show ?case
    by (simp add: encode_order_bytes_long decode_bytes_loop_group)
qed

lemma decode_encode_order_bytes [codec_simps]:
  "decode_bytes (encode_order_bytes key desc @ rest) desc = Ok (key, rest)"
  using decode_bytes_loop_encode [of "[]" key desc rest "[]"]
  by (simp add: decode_bytes_def adjust_bytes_order_def)

interpretation bytes_codec: codec encode_bytes "\<lambda>data. decode_bytes data False" "\<lambda>_. True"
  by unfold_locales (simp add: encode_bytes_def decode_encode_order_bytes)

interpretation bytes_desc_codec: codec encode_bytes_desc "\<lambda>data. decode_bytes data True" "\<lambda>_. True"
  by unfold_locales (simp add: encode_bytes_desc_def decode_encode_order_bytes)

text \<open>The decoder accepts nothing but encodings.\<close>

lemma marker_of_pad_size:
  "(if desc then of_nat (pad_size_of desc m) else ENC_MARKER - of_nat (pad_size_of desc m)) = m"
  by (simp add: pad_size_of_def)

lemma chunk_is_group:
  assumes "length chunk = 9" "pad_size_of desc (last chunk) \<le> 8"
    and "drop (8 - pad_size_of desc (last chunk)) (butlast chunk) =
      adjust_bytes_order (replicate (pad_size_of desc (last chunk)) 0) desc"
  shows "chunk = enc_group desc (adjust_bytes_order
    (take (8 - pad_size_of desc (last chunk)) (butlast chunk)) desc)"
proof -
  let ?n = "pad_size_of desc (last chunk)"
  have "chunk = butlast chunk @ [last chunk]"
    using assms(1) by (metis append_butlast_last_id list.size(3) zero_neq_numeral)
  also have "butlast chunk =
      take (8 - ?n) (butlast chunk) @ adjust_bytes_order (replicate ?n 0) desc"
    using assms(3) by (metis append_take_drop_id)
  also have "[last chunk] = adjust_bytes_order [ENC_MARKER - of_nat ?n] desc"
    using marker_of_pad_size [of desc "last chunk"] by (cases desc) simp_all
  finally show ?thesis
    using assms(1,2) by (simp add: enc_group_def)
qed

lemma decode_bytes_loop_Ok:
  assumes "decode_bytes_loop data desc acc off = Ok (k, rest)"
  shows "\<exists>key. k = adjust_bytes_order acc desc @ key \<and>
    drop off data = encode_order_bytes key desc @ rest"
  using assms
proof (induction "length data - off" arbitrary: acc off rule: less_induct)
  case less
  define chunk where "chunk = take 9 (drop off data)"
  define n where "n = pad_size_of desc (last chunk)"
  have fits: "off + 9 \<le> length data"
    using less(2) by (subst (asm) decode_bytes_loop.simps)
      (simp add: Let_def ENC_GROUP_SIZE_def split: if_splits)
  then have len: "length chunk = 9" "length (butlast chunk) = 8"
    by (simp_all add: chunk_def)
  have split: "drop off data = chunk @ drop (off + 9) data"
    using append_take_drop_id [of 9 "drop off data"] by (simp add: chunk_def add.commute)
  have step: "decode_bytes_loop data desc acc off =
    (if n = 0 then decode_bytes_loop data desc (acc @ butlast chunk) (off + 9)
     else if n > 8 then Err KeyPadding
     else if drop (8 - n) (butlast chunk) \<noteq> adjust_bytes_order (replicate n 0) desc
     then Err KeyPadding
     else Ok (adjust_bytes_order (acc @ take (8 - n) (butlast chunk)) desc, drop (off + 9) data))"
    using fits len
    by (subst decode_bytes_loop.simps)
      (simp add: Let_def ENC_GROUP_SIZE_def replicate_padding chunk_def [symmetric]
        n_def [symmetric] adjust_bytes_order_def)
  show ?case
  proof (cases "n = 0")
    case True
    then have rec: "decode_bytes_loop data desc (acc @ butlast chunk) (off + 9) = Ok (k, rest)"
      using less(2) step by simp
    have "length data - (off + 9) < length data - off" using fits by simp
    from less(1) [OF this rec]
    obtain key where key: "k = adjust_bytes_order (acc @ butlast chunk) desc @ key"
      "drop (off + 9) data = encode_order_bytes key desc @ rest"
      by blast
    have "chunk = enc_group desc (adjust_bytes_order (butlast chunk) desc)"
      using chunk_is_group [OF len(1), of desc] True [unfolded n_def] len by simp
    then have "drop off data = encode_order_bytes (adjust_bytes_order (butlast chunk) desc @ key) desc @ rest"
      using split key(2) len by (simp add: encode_order_bytes_long)
    with key(1) show ?thesis by (intro exI [of _ "adjust_bytes_order (butlast chunk) desc @ key"]) simp
  next
    case False
    let ?key = "adjust_bytes_order (take (8 - n) (butlast chunk)) desc"
    from False less(2) step have n: "n \<le> 8"
      "drop (8 - n) (butlast chunk) = adjust_bytes_order (replicate n 0) desc"
      "k = adjust_bytes_order acc desc @ ?key" "rest = drop (off + 9) data"
      by (auto split: if_splits)
    have "chunk = enc_group desc ?key"
      using chunk_is_group [OF len(1), of desc] n by (simp add: n_def)
    moreover have "length ?key < 8" using False len n(1) by simp
    ultimately show ?thesis
      using n split by (intro exI [of _ ?key]) (simp add: encode_order_bytes_short)
  qed
qed

section \<open>The in-place decoder\<close>

lemma decode_bytes_loop_append:
  "decode_bytes_loop (pre @ data) desc acc (length pre + i) = decode_bytes_loop data desc acc i"
proof (induction data desc acc i rule: decode_bytes_loop.induct)
  case (1 data desc acc i)
  then show ?case
    by (subst (1 2) decode_bytes_loop.simps) (simp add: Let_def add.assoc)
qed

lemma decode_bytes_loop_drop:
  "j \<le> length data \<Longrightarrow> decode_bytes_loop data desc acc j = decode_bytes_loop (drop j data) desc acc 0"
  using decode_bytes_loop_append [of "take j data" "drop j data" desc acc 0] by simp

lemma drop_eq_mono: "drop m a = drop m b \<Longrightarrow> m \<le> n \<Longrightarrow> drop n a = drop n b"
  by (metis drop_drop le_add_diff_inverse2)

lemma decode_bytes_loop_cong:
  assumes "drop i data = drop i data'" "i \<le> length data" "i \<le> length data'"
  shows "decode_bytes_loop data desc acc i = decode_bytes_loop data' desc acc i"
  by (metis assms decode_bytes_loop_drop)

lemma decode_in_place_simulates:
  assumes "w \<le> r"
  shows "case decode_bytes_loop data desc (take w data) r of
      Ok (key, _) \<Rightarrow> decode_in_place_loop data desc w r = (Ok (), key)
    | Err e \<Rightarrow> fst (decode_in_place_loop data desc w r) = Err e
    | Panic \<Rightarrow> False"
  using assms
proof (induction "length data - r" arbitrary: data w r rule: less_induct)
  case less
  show ?case
  proof (cases "r + 9 \<le> length data")
    case False
    then show ?thesis
      by (subst decode_bytes_loop.simps, subst (1 2) decode_in_place_loop.simps)
        (simp add: ENC_GROUP_SIZE_def Let_def)
  next
    case True
    define data' where "data' = copy_within data r w 8"
    define chunk where "chunk = take 9 (drop r data)"
    define n where "n = pad_size_of desc (last chunk)"
    have w: "w + 8 \<le> length data" using True less.prems by simp
    have len: "length chunk = 9" "length data' = length data"
      using True w by (simp_all add: chunk_def data'_def length_copy_within)
    have chunk_nth: "last chunk = data ! (r + 8)" "butlast chunk = take 8 (drop r data)"
      using True by (simp_all add: chunk_def last_conv_nth butlast_take)
    have take': "take (w + 8) data' = take w data @ butlast chunk"
      using w True by (simp add: data'_def copy_within_def chunk_nth min_def)
    have drop': "drop (w + 8) data' = drop (w + 8) data"
      using w True by (simp add: data'_def copy_within_def)
    have same: "drop (r + 8) data' = drop (r + 8) data"
      using less.prems by (intro drop_eq_mono [OF drop']) simp
    have marker: "data' ! (r + 8) = last chunk"
      using arg_cong [OF same, of hd] len True by (simp add: hd_drop_conv_nth chunk_nth)
    have padding: "take n (drop (w + 8 - n) data') = drop (8 - n) (butlast chunk)" if "n \<le> 8"
    proof -
      have "take n (drop (w + 8 - n) data') = drop (w + 8 - n) (take (w + 8) data')"
        using that by (simp add: take_drop)
      then show ?thesis using that w by (simp add: take')
    qed
    have out: "take (w + 8 - n) data' = take w data @ take (8 - n) (butlast chunk)" if "n \<le> 8"
    proof -
      have "take (w + 8 - n) data' = take (w + 8 - n) (take (w + 8) data')" by simp
      then show ?thesis using that w by (simp add: take')
    qed
    have dec: "decode_bytes_loop data desc (take w data) r =
      (if n = 0 then decode_bytes_loop data desc (take (w + 8) data') (r + 9)
       else if n > 8 then Err KeyPadding
       else if drop (8 - n) (butlast chunk) \<noteq> adjust_bytes_order (replicate n 0) desc
       then Err KeyPadding
       else Ok (adjust_bytes_order (take w data @ take (8 - n) (butlast chunk)) desc,
         drop (r + 9) data))"
      using True len take'
      by (subst decode_bytes_loop.simps)
        (simp add: Let_def ENC_GROUP_SIZE_def replicate_padding chunk_def [symmetric]
          n_def [symmetric] adjust_bytes_order_def)
    have inp: "decode_in_place_loop data desc w r =
      (if n = 0 then decode_in_place_loop data' desc (w + 8) (r + 9)
       else if n > 8 then (Err KeyPadding, data')
       else if drop (8 - n) (butlast chunk) \<noteq> adjust_bytes_order (replicate n 0) desc
       then (Err KeyPadding, data')
       else (Ok (), adjust_bytes_order (take w data @ take (8 - n) (butlast chunk)) desc))"
      using True w padding out
      by (subst decode_in_place_loop.simps)
        (simp add: Let_def ENC_GROUP_SIZE_def data'_def [symmetric] marker n_def [symmetric]
          padding_adjust adjust_bytes_order_def)
    have "decode_bytes_loop data desc acc (r + 9) = decode_bytes_loop data' desc acc (r + 9)" for acc
      using len True drop_eq_mono [OF same, of "r + 9"]
      by (intro decode_bytes_loop_cong) simp_all
    moreover have "length data' - (r + 9) < length data - r" "w + 8 \<le> r + 9"
      using True len less.prems by simp_all
    ultimately show ?thesis
      unfolding dec inp using less.hyps [of data' "r + 9" "w + 8"] by (cases "n = 0") simp_all
  qed
qed

lemma decode_bytes_in_place_simulates:
  "case decode_bytes data desc of
      Ok (key, _) \<Rightarrow> decode_bytes_in_place data desc = (Ok (), key)
    | Err e \<Rightarrow> fst (decode_bytes_in_place data desc) = Err e
    | Panic \<Rightarrow> False"
  using decode_in_place_simulates [of 0 0 data desc]
  unfolding decode_bytes_def decode_bytes_in_place_def by simp

section \<open>Length of an encoding\<close>

lemma small_of_nat_nonzero: "0 < m \<Longrightarrow> m \<le> 8 \<Longrightarrow> (of_nat m :: u8) \<noteq> 0"
  by (simp add: word_unat_eq_iff unat_of_nat)

lemma encoded_bytes_len_loop_encode:
  "encoded_bytes_len_loop (pre @ encode_order_bytes key desc @ rest) desc (length pre + 8) =
   length pre + length (encode_order_bytes key desc)"
proof (induction key arbitrary: pre rule: encode_order_bytes_induct)
  case (short key)
  then have "enc_group desc key ! 8 = (if desc then of_nat (8 - length key)
      else ENC_MARKER - of_nat (8 - length key))"
    using enc_group_marker [of key desc] last_conv_nth [of "enc_group desc key"]
    by (simp add: enc_group_def)
  moreover have "(of_nat (8 - length key) :: u8) \<noteq> 0"
    using short small_of_nat_nonzero [of "8 - length key"] by linarith
  ultimately show ?case
    using short by (subst encoded_bytes_len_loop.simps)
      (auto simp: Let_def nth_append encode_order_bytes_short)
next
  case (long key)
  let ?g = "enc_group desc (take 8 key)"
  have "?g ! 8 = (if desc then 0 else ENC_MARKER)"
    using long enc_group_marker [of "take 8 key" desc] last_conv_nth [of ?g]
    by (simp add: enc_group_def)
  then show ?case
    using long.IH [of "pre @ ?g"] long.hyps
    by (subst encoded_bytes_len_loop.simps)
      (auto simp: Let_def nth_append encode_order_bytes_long ENC_GROUP_SIZE_def ac_simps)
qed

lemma encoded_bytes_len_encode:
  "encoded_bytes_len (encode_order_bytes key desc @ rest) desc = length (encode_order_bytes key desc)"
  using encoded_bytes_len_loop_encode [of "[]" key desc rest]
  by (simp add: encoded_bytes_len_def ENC_GROUP_SIZE_def)

section \<open>Recognising an encoding\<close>

lemma chunks_exact_rec:
  assumes "0 < n"
  shows "chunks_exact n xs =
    (if n \<le> length xs then take n xs # chunks_exact n (drop n xs) else [])"
proof (cases "n \<le> length xs")
  case True
  then have "length xs div n = Suc ((length xs - n) div n)"
    using assms by (simp add: le_div_geq)
  then show ?thesis
    using True
    by (simp add: chunks_exact_def upt_conv_Cons map_Suc_upt [symmetric] comp_def add.commute
        del: upt_Suc)
qed (simp add: chunks_exact_def)

lemma chunks_exact_concat:
  assumes "0 < n" "\<forall>c\<in>set cs. length c = n"
  shows "chunks_exact n (concat cs) = cs"
  using assms
proof (induction cs)
  case Nil
  then show ?case by (simp add: chunks_exact_def)
next
  case (Cons c cs)
  then show ?case by (subst chunks_exact_rec) simp_all
qed

lemma chunks_exact_length: "c \<in> set (chunks_exact n xs) \<Longrightarrow> length c = n"
proof -
  assume "c \<in> set (chunks_exact n xs)"
  then obtain i where i: "i < length xs div n" "c = take n (drop (i * n) xs)"
    by (auto simp: chunks_exact_def)
  then have "Suc i * n \<le> length xs div n * n" by (intro mult_le_mono1) simp
  also have "\<dots> \<le> length xs" by simp
  finally show ?thesis using i(2) by simp
qed

lemma concat_chunks_exact:
  assumes "0 < n" "length xs mod n = 0"
  shows "concat (chunks_exact n xs) = xs"
  using assms(2)
proof (induction "length xs" arbitrary: xs rule: less_induct)
  case less
  show ?case
  proof (cases "n \<le> length xs")
    case True
    then have "concat (chunks_exact n (drop n xs)) = drop n xs"
      using less assms(1) by (intro less.hyps) (simp_all add: le_mod_geq)
    with True show ?thesis using assms(1) by (subst chunks_exact_rec) simp_all
  next
    case False
    with less.prems show ?thesis using assms(1) by (simp add: chunks_exact_def)
  qed
qed

lemma rchunks_exact_rev:
  assumes "0 < n" "length xs mod n = 0"
  shows "rchunks_exact n xs = rev (chunks_exact n xs)"
proof (rule nth_equalityI)
  have len: "length xs = length xs div n * n"
    using assms div_mult_mod_eq [of "length xs" n] by simp
  fix i assume "i < length (rchunks_exact n xs)"
  then have i: "i < length xs div n" by (simp add: rchunks_exact_def)
  have "length xs - Suc i * n = (length xs div n - Suc i) * n"
    by (subst len) (simp add: diff_mult_distrib)
  with i show "rchunks_exact n xs ! i = rev (chunks_exact n xs) ! i"
    by (simp add: rchunks_exact_def chunks_exact_def rev_nth)
qed (simp add: rchunks_exact_def chunks_exact_def)

lemma encode_order_bytes_chunks:
  "encode_order_bytes raw desc =
   concat (map (enc_group desc) (chunks_exact 8 raw)) @ enc_group desc (chunks_remainder 8 raw)"
proof (induction raw rule: encode_order_bytes_induct)
  case (short raw)
  then show ?case by (simp add: encode_order_bytes_short chunks_exact_def chunks_remainder_def)
next
  case (long raw)
  then have "chunks_remainder 8 (drop 8 raw) = chunks_remainder 8 raw"
    by (simp add: chunks_remainder_def le_div_geq add.commute)
  with long show ?case
    by (subst chunks_exact_rec) (simp_all add: encode_order_bytes_long)
qed

lemma check_single_chunk_iff:
  assumes "length e = 9" "length r \<le> 8"
  shows "check_single_chunk desc e r \<longleftrightarrow> e = enc_group desc r"
proof -
  let ?n = "length r"
  have e: "e = take ?n e @ drop ?n (butlast e) @ [e ! 8]"
  proof -
    have "e = butlast e @ [last e]"
      using assms(1) by (metis append_butlast_last_id list.size(3) zero_neq_numeral)
    also have "last e = e ! 8" using assms(1) by (subst last_conv_nth) auto
    also have "butlast e = take ?n (butlast e) @ drop ?n (butlast e)" by simp
    also have "take ?n (butlast e) = take ?n e"
      using assms by (simp add: butlast_conv_take min_def)
    finally show ?thesis by simp
  qed
  have len: "length (take ?n e) = ?n" "length (drop ?n (butlast e)) = 8 - ?n"
    using assms by simp_all
  have all: "list_all (\<lambda>v. v = c) xs \<longleftrightarrow> xs = replicate (length xs) c" for c :: u8 and xs
    by (induction xs) auto
  have neg: "list_all (\<lambda>(x, y). x = NOT y) (zip xs ys) \<longleftrightarrow> xs = map (\<lambda>b. NOT b) ys"
    if "length xs = length ys" for xs ys :: bytes
    using that by (induction xs ys rule: list_induct2) auto
  have z: "NOT ENC_MARKER = 0" "(- 1 :: u8) = ENC_MARKER" by (simp_all add: ENC_MARKER_def)
  have "e = enc_group desc r \<longleftrightarrow>
      take ?n e @ drop ?n (butlast e) @ [e ! 8] = enc_group desc r"
    using e by metis
  also have "\<dots> \<longleftrightarrow> take ?n e = adjust_bytes_order r desc \<and>
      drop ?n (butlast e) = adjust_bytes_order (replicate (8 - ?n) 0) desc \<and>
      e ! 8 = (if desc then of_nat (8 - ?n) else ENC_MARKER - of_nat (8 - ?n))"
    using len by (simp add: enc_group_def)
  finally show ?thesis
    using len by (auto simp: check_single_chunk_def Let_def ENC_GROUP_SIZE_def all neg z
        adjust_bytes_order_def)
qed

lemma is_encoded_from_iff:
  "is_encoded_from encoded raw desc \<longleftrightarrow> encoded = encode_order_bytes raw desc"
proof (cases "length encoded mod 9 = 0")
  case False
  moreover have "length (encode_order_bytes raw desc) mod 9 = 0"
    by (simp add: length_encode_order_bytes max_encoded_bytes_size_def ENC_GROUP_SIZE_def)
  ultimately have "encoded \<noteq> encode_order_bytes raw desc" by metis
  moreover have "\<not> is_encoded_from encoded raw desc"
  proof -
    have "encoded \<noteq> []" using False by auto
    with False show ?thesis
      by (simp add: is_encoded_from_def rchunks_remainder_def ENC_GROUP_SIZE_def Let_def)
  qed
  ultimately show ?thesis by blast
next
  case True
  define E where "E = chunks_exact 9 encoded"
  let ?G = "map (enc_group desc) (chunks_exact 8 raw) @ [enc_group desc (chunks_remainder 8 raw)]"
  have rem8: "length (chunks_remainder 8 raw) \<le> 8"
    by (simp add: chunks_remainder_def minus_div_mult_eq_mod)
  have len9: "\<forall>c\<in>set E. length c = 9" by (auto simp: E_def chunks_exact_length)
  have len8: "\<forall>c\<in>set (chunks_exact 8 raw). length c \<le> 8" by (auto dest: chunks_exact_length)
  have pairs: "list_all (\<lambda>(e, r). check_single_chunk desc e r) (zip es rs) \<longleftrightarrow>
      es = map (enc_group desc) rs"
    if "length es = length rs" "\<forall>c\<in>set es. length c = 9" "\<forall>c\<in>set rs. length c \<le> 8" for es rs
    using that by (induction es rs rule: list_induct2) (auto simp: check_single_chunk_iff)
  have "is_encoded_from encoded raw desc \<longleftrightarrow>
      (case rev E of [] \<Rightarrow> False
       | c # rest \<Rightarrow> check_single_chunk desc c (chunks_remainder 8 raw) \<and>
           length rest = length (chunks_exact 8 raw) \<and>
           list_all (\<lambda>(e, r). check_single_chunk desc e r) (zip rest (rev (chunks_exact 8 raw))))"
    using True
    by (auto simp: is_encoded_from_def rchunks_remainder_def ENC_GROUP_SIZE_def Let_def
        rchunks_exact_rev E_def split: list.split)
  also have "\<dots> \<longleftrightarrow> rev E = rev ?G"
  proof (cases "rev E")
    case (Cons c rest)
    then have "\<forall>x\<in>set (c # rest). length x = 9" using len9 by (metis set_rev)
    then show ?thesis
      using Cons rem8 len8 pairs [of rest "rev (chunks_exact 8 raw)"]
      by (auto simp: check_single_chunk_iff rev_map)
  qed simp
  also have "\<dots> \<longleftrightarrow> E = ?G" by (rule rev_is_rev_conv)
  also have "\<dots> \<longleftrightarrow> encoded = concat ?G"
  proof
    show "E = ?G \<Longrightarrow> encoded = concat ?G"
      using concat_chunks_exact [of 9 encoded] True by (simp add: E_def)
    show "encoded = concat ?G \<Longrightarrow> E = ?G"
      unfolding E_def using len8 rem8 by (simp only:) (rule chunks_exact_concat, auto)
  qed
  also have "concat ?G = encode_order_bytes raw desc"
    by (simp add: encode_order_bytes_chunks)
  finally show ?thesis .
qed

section \<open>Prefix ranges\<close>

lemma next_prefix_of_snoc:
  "next_prefix_of (p @ [b]) = (if b = 0xff then next_prefix_of p else p @ [b + 1])"
  by (simp add: next_prefix_of_def)

lemma byte_max: "0xff \<le> (b :: u8) \<longleftrightarrow> b = 0xff"
proof -
  have "(0xff :: u8) = - 1" by simp
  then show ?thesis by (simp only: word_order.extremum_unique)
qed

lemma snoc_range:
  fixes b :: u8
  assumes "b \<noteq> 0xff"
  shows "p @ [b] \<le> k \<and> k < p @ [b + 1] \<longleftrightarrow> (\<exists>s. k = (p @ [b]) @ s)"
proof (induction p arbitrary: k)
  case Nil
  have "unat b < 256" "unat b \<noteq> 255"
    using assms unsigned_less [of b, where 'a = nat] by (simp_all add: word_unat_eq_iff)
  then have "unat (b + 1) = Suc (unat b)" by (simp add: unat_word_ariths)
  then have "b < c \<and> c < b + 1 \<longleftrightarrow> False" "b < b + 1" for c
    by (auto simp: word_less_nat_alt)
  then show ?case by (cases k) (auto simp: order_le_less)
next
  case (Cons a p)
  then show ?case by (cases k) auto
qed

lemma next_prefix_range:
  "(\<exists>s. k = p @ s) \<longleftrightarrow> p \<le> k \<and> (next_prefix_of p = [] \<or> k < next_prefix_of p)"
proof (induction p arbitrary: k rule: rev_induct)
  case Nil
  then show ?case by (simp add: next_prefix_of_def)
next
  case (snoc b p)
  show ?case
  proof (cases "b = 0xff")
    case False
    then show ?thesis using snoc_range [OF False, of p k] by (auto simp: next_prefix_of_snoc)
  next
    case True
    have "(\<exists>s. k = (p @ [0xff]) @ s) \<longleftrightarrow> (\<exists>t. k = p @ t) \<and> p @ [0xff] \<le> k"
    proof -
      have "[0xff] \<le> t \<longleftrightarrow> (\<exists>s. t = 0xff # s)" for t :: bytes
        using byte_max [of "hd t"] by (cases t) (auto simp: order_le_less)
      then show ?thesis by auto
    qed
    moreover have "p @ [0xff] \<le> k \<Longrightarrow> p \<le> k"
      using le_append_right order_trans by blast
    ultimately show ?thesis using snoc [of k] True by (auto simp: next_prefix_of_snoc)
  qed
qed

section \<open>Compact format\<close>

lemma decode_encode_compact_bytes:
  "length data < 2 ^ 64 \<Longrightarrow>
   decode_compact_bytes (encode_compact_bytes data @ rest) = Ok (data, rest)"
  by (simp add: decode_compact_bytes_def encode_compact_bytes_def decode_encode_var_i64 unat_of_nat)

interpretation compact_bytes_codec: codec encode_compact_bytes decode_compact_bytes
  "\<lambda>data. length data < 2 ^ 64"
  by unfold_locales (simp add: decode_encode_compact_bytes)

lemma encoded_compact_len_encode:
  "encoded_compact_len (encode_compact_bytes data @ rest) =
   of_nat (length (encode_compact_bytes data))"
  by (simp add: encoded_compact_len_def encode_compact_bytes_def decode_encode_var_i64)

lemma read_var_bytes_encode:
  "length (encode_var_u64 v) \<le> k \<Longrightarrow>
   read_var_bytes k (encode_var_u64 v @ rest) = Ok (encode_var_u64 v, rest)"
proof (induction v arbitrary: k rule: encode_var_u64.induct)
  case (1 v)
  show ?case
  proof (cases "0x80 \<le> v")
    case True
    with 1(2) obtain j where "k = Suc j" by (cases k) (auto simp: encode_var_u64_big)
    with 1 True show ?thesis by (simp add: encode_var_u64_big var_continued)
  next
    case False
    with 1(2) obtain j where "k = Suc j" by (cases k) (auto simp: encode_var_u64_small)
    with False show ?thesis by (simp add: encode_var_u64_small var_last_byte not_le)
  qed
qed

lemma file_decode_encode_compact_bytes:
  assumes "length data < 2 ^ 63"
  shows "file_decode_compact_bytes (encode_compact_bytes data @ rest) = Ok (data, rest)"
proof -
  define n where "n = (of_nat (length data) :: u64)"
  have n: "unat n = length data" using assms by (simp add: n_def unat_of_nat)
  obtain vx where vx: "encode_var_i64 n = encode_var_u64 vx"
    by (simp add: encode_var_i64_def Let_def)
  have "length (encode_var_u64 vx) \<le> 10"
    using length_encode_var_u64 [of 10 vx] unsigned_less [of vx, where 'a = nat] by simp
  then have "read_var_bytes 10 (encode_var_i64 n @ data @ rest) = Ok (encode_var_i64 n, data @ rest)"
    by (simp add: vx read_var_bytes_encode)
  then show ?thesis
    using assms n decode_encode_var_i64 [of n "[]"]
    by (simp add: file_decode_compact_bytes_def encode_compact_bytes_def n_def [symmetric]
        read_slice_def)
qed

section \<open>Properties of the byte-string codec\<close>

text \<open>
  C24: The memcomparable encoding keeps the order of byte strings whatever follows the encodings:
  ascending for \<open>encode_bytes\<close>, descending for \<open>encode_bytes_desc\<close>.
\<close>

theorem encode_bytes_keeps_order:
  "(encode_bytes a @ s < encode_bytes b @ t \<longleftrightarrow> a < b \<or> a = b \<and> s < t) \<and>
   (encode_bytes_desc a @ s < encode_bytes_desc b @ t \<longleftrightarrow> b < a \<or> a = b \<and> s < t)"
  using bytes_order.enc_append_less bytes_desc_order.enc_append_less by blast

text \<open>
  C25: The decoder inverts the encoder and accepts nothing else: it returns a key and a rest exactly
  when the input is the encoding of that key followed by that rest.
\<close>

theorem decode_bytes_exact:
  "decode_bytes data desc = Ok (key, rest) \<longleftrightarrow> data = encode_order_bytes key desc @ rest"
  using decode_bytes_loop_Ok [of data desc "[]" 0 key rest] decode_encode_order_bytes
  by (auto simp: decode_bytes_def)

text \<open>
  C26: The in-place decoder agrees with the allocating one on every input: the same key, or the
  same error, and its unchecked copies never leave the vector.
\<close>

theorem decode_in_place_equiv:
  "case decode_bytes data desc of
      Ok (key, _) \<Rightarrow> decode_bytes_in_place data desc = (Ok (), key)
    | Err e \<Rightarrow> fst (decode_bytes_in_place data desc) = Err e
    | Panic \<Rightarrow> False"
  by (rule decode_bytes_in_place_simulates)

text \<open>
  The chunk-by-chunk test from the end recognises exactly the encoding of the raw key, and the
  length scan finds exactly where an encoding ends.
\<close>

theorem encoding_recognised:
  "(is_encoded_from encoded raw desc \<longleftrightarrow> encoded = encode_order_bytes raw desc) \<and>
   encoded_bytes_len (encode_order_bytes raw desc @ rest) desc = max_encoded_bytes_size (length raw)"
  by (simp add: is_encoded_from_iff encoded_bytes_len_encode length_encode_order_bytes)

text \<open>
  The range from a prefix to \<open>next_prefix_of\<close> of it holds exactly the keys with the prefix,
  where an empty upper end stands for infinity.
\<close>

theorem next_prefix_of_range:
  "(\<exists>s. k = p @ s) \<longleftrightarrow> p \<le> k \<and> (next_prefix_of p = [] \<or> k < next_prefix_of p)"
  by (rule next_prefix_range)

text \<open>
  Length-prefixed byte strings round trip through the slice decoder and through the buffered
  reader, and \<open>encoded_compact_len\<close> gives the length of the first of them.
\<close>

theorem compact_bytes_roundtrip:
  assumes "length data < 2 ^ 63"
  shows "decode_compact_bytes (encode_compact_bytes data @ rest) = Ok (data, rest) \<and>
    file_decode_compact_bytes (encode_compact_bytes data @ rest) = Ok (data, rest) \<and>
    encoded_compact_len (encode_compact_bytes data @ rest) =
      of_nat (length (encode_compact_bytes data))"
  using assms
  by (simp add: decode_encode_compact_bytes file_decode_encode_compact_bytes
      encoded_compact_len_encode)

theorem compact_bytes_roundtrip_witness:
  "decode_compact_bytes (encode_compact_bytes [7, 9] @ [1]) = Ok ([7, 9], [1]) \<and>
   file_decode_compact_bytes (encode_compact_bytes [7, 9] @ [1]) = Ok ([7, 9], [1]) \<and>
   encoded_compact_len (encode_compact_bytes [7, 9] @ [1]) =
     of_nat (length (encode_compact_bytes [7, 9]))"
  by (rule compact_bytes_roundtrip) simp

end
