(* ===== verification/TxnTypes.thy ===== *)
theory TxnTypes
  imports BytesCodec
begin

text \<open>
  The vocabulary of transactions: \<open>components/txn_types/src/timestamp.rs\<close> and
  \<open>components/txn_types/src/types.rs\<close>. A \<open>Key\<close> is the byte string it wraps, a
  \<open>TimeStamp\<close> its 64-bit number. The lemmas show that the engine's byte order on keys with a
  timestamp is: user key ascending, then timestamp descending.
\<close>

section \<open>Timestamps\<close>

type_synonym TimeStamp = u64

definition TSO_PHYSICAL_SHIFT_BITS :: nat where "TSO_PHYSICAL_SHIFT_BITS = 18"

definition compose :: "u64 \<Rightarrow> u64 \<Rightarrow> TimeStamp" where
  "compose physical logical = push_bit TSO_PHYSICAL_SHIFT_BITS physical + logical"

definition ts_zero :: TimeStamp where "ts_zero = 0"
definition ts_max :: TimeStamp where "ts_max = - 1"

definition physical :: "TimeStamp \<Rightarrow> u64" where
  "physical ts = drop_bit TSO_PHYSICAL_SHIFT_BITS ts"

definition logical :: "TimeStamp \<Rightarrow> u64" where
  "logical ts = ts AND (push_bit TSO_PHYSICAL_SHIFT_BITS 1 - 1)"

definition ts_next :: "TimeStamp \<Rightarrow> ('e, TimeStamp) result" where
  "ts_next ts = (if ts < ts_max then Ok (ts + 1) else Panic)"

definition ts_prev :: "TimeStamp \<Rightarrow> ('e, TimeStamp) result" where
  "ts_prev ts = (if ts > 0 then Ok (ts - 1) else Panic)"

definition is_zero :: "TimeStamp \<Rightarrow> bool" where "is_zero ts \<longleftrightarrow> ts = 0"
definition is_max :: "TimeStamp \<Rightarrow> bool" where "is_max ts \<longleftrightarrow> ts = ts_max"

datatype ts_set = TsEmpty | TsVec "TimeStamp list" | TsSet "TimeStamp set"

definition TS_SET_USE_VEC_LIMIT :: nat where "TS_SET_USE_VEC_LIMIT = 8"

definition ts_set_new :: "TimeStamp list \<Rightarrow> ts_set" where
  "ts_set_new ts =
     (if ts = [] then TsEmpty
      else if length ts \<le> TS_SET_USE_VEC_LIMIT then TsVec ts
      else TsSet (set ts))"

definition ts_set_vec :: "TimeStamp list \<Rightarrow> ts_set" where
  "ts_set_vec ts = (if ts = [] then TsEmpty else TsVec ts)"

fun ts_set_contains :: "ts_set \<Rightarrow> TimeStamp \<Rightarrow> bool" where
  "ts_set_contains TsEmpty ts = False"
| "ts_set_contains (TsVec v) ts = (ts \<in> set v)"
| "ts_set_contains (TsSet s) ts = (ts \<in> s)"

section \<open>Keys\<close>

type_synonym Key = bytes
type_synonym Value = bytes

definition SHORT_VALUE_MAX_LEN :: nat where "SHORT_VALUE_MAX_LEN = 255"
definition SHORT_VALUE_PREFIX :: u8 where "SHORT_VALUE_PREFIX = 0x76"
definition U64_SIZE :: nat where "U64_SIZE = 8"

definition is_short_value :: "Value \<Rightarrow> bool" where
  "is_short_value value \<longleftrightarrow> length value \<le> SHORT_VALUE_MAX_LEN"

definition from_raw :: "bytes \<Rightarrow> Key" where
  "from_raw key = encode_order_bytes key False"

definition from_raw_maybe_unbounded :: "bytes \<Rightarrow> Key option" where
  "from_raw_maybe_unbounded key = (if key = [] then None else Some (from_raw key))"

definition into_raw :: "Key \<Rightarrow> (codec_error, bytes) result" where
  "into_raw key =
     (case decode_bytes_in_place key False of (r, k) \<Rightarrow> rbind r (\<lambda>_. Ok k))"

definition to_raw :: "Key \<Rightarrow> (codec_error, bytes) result" where
  "to_raw key = rbind (decode_bytes key False) (\<lambda>(k, rest). Ok k)"

definition append_ts :: "Key \<Rightarrow> TimeStamp \<Rightarrow> Key" where
  "append_ts key ts = key @ encode_u64_desc ts"

definition truncate_ts :: "Key \<Rightarrow> (codec_error, Key) result" where
  "truncate_ts key =
     (if length key < U64_SIZE then Err KeyLength else Ok (take (length key - U64_SIZE) key))"

definition split_on_ts_for :: "bytes \<Rightarrow> (codec_error, bytes \<times> TimeStamp) result" where
  "split_on_ts_for key =
     (if length key < U64_SIZE then Err KeyLength
      else let pos = length key - U64_SIZE in
        rbind (decode_u64_desc (drop pos key)) (\<lambda>(ts, rest). Ok (take pos key, ts)))"

definition truncate_ts_for :: "bytes \<Rightarrow> (codec_error, bytes) result" where
  "truncate_ts_for key =
     (if length key < U64_SIZE then Err KeyLength else Ok (take (length key - U64_SIZE) key))"

definition decode_ts_from :: "bytes \<Rightarrow> (codec_error, TimeStamp) result" where
  "decode_ts_from key =
     (if length key < U64_SIZE then Err KeyLength
      else rbind (decode_u64_desc (drop (length key - U64_SIZE) key)) (\<lambda>(ts, rest). Ok ts))"

definition decode_ts :: "Key \<Rightarrow> (codec_error, TimeStamp) result" where
  "decode_ts key = decode_ts_from key"

definition decode_ts_bytes_from :: "bytes \<Rightarrow> (codec_error, bytes) result" where
  "decode_ts_bytes_from key =
     (if length key < U64_SIZE then Err KeyLength else Ok (drop (length key - U64_SIZE) key))"

text \<open>\<open>NativeEndian::read_u64\<close> on a little-endian machine; it reads the first eight bytes.\<close>

definition native_read_u64 :: "bytes \<Rightarrow> u64" where
  "native_read_u64 b = from_be_bytes (rev (take 8 b))"

definition is_user_key_eq :: "bytes \<Rightarrow> bytes \<Rightarrow> bool" where
  "is_user_key_eq ts_encoded_key user_key =
     (let user_key_len = length user_key in
      if length ts_encoded_key \<noteq> user_key_len + U64_SIZE then False
      else if user_key_len \<ge> U64_SIZE then
        let left = native_read_u64 (drop (user_key_len - 8) ts_encoded_key);
            right = native_read_u64 (drop (user_key_len - 8) user_key)
        in if left \<noteq> right then False
           else take (user_key_len - 8) ts_encoded_key = take (user_key_len - 8) user_key
      else take user_key_len ts_encoded_key = user_key)"

definition key_is_encoded_from :: "Key \<Rightarrow> bytes \<Rightarrow> bool" where
  "key_is_encoded_from key raw_key = is_encoded_from key raw_key False"

text \<open>The hash function \<open>farmhash::fingerprint64\<close> is a parameter.\<close>

definition gen_hash :: "(bytes \<Rightarrow> u64) \<Rightarrow> Key \<Rightarrow> ('e, u64) result" where
  "gen_hash fingerprint64 key =
     (case to_raw key of Ok raw \<Rightarrow> Ok (fingerprint64 raw) | _ \<Rightarrow> Panic)"

section \<open>Mutations\<close>

datatype assertion = AssertNone | AssertExist | AssertNotExist

datatype mutation_type = MT_Put | MT_Delete | MT_Lock | MT_Insert | MT_Other

datatype mutation =
    MPut Key Value assertion
  | MDelete Key assertion
  | MLock Key assertion
  | MInsert Key Value assertion
  | MCheckNotExists Key assertion

fun mutation_key :: "mutation \<Rightarrow> Key" where
  "mutation_key (MPut k v a) = k"
| "mutation_key (MDelete k a) = k"
| "mutation_key (MLock k a) = k"
| "mutation_key (MInsert k v a) = k"
| "mutation_key (MCheckNotExists k a) = k"

fun mutation_type_of :: "mutation \<Rightarrow> mutation_type" where
  "mutation_type_of (MPut k v a) = MT_Put"
| "mutation_type_of (MDelete k a) = MT_Delete"
| "mutation_type_of (MLock k a) = MT_Lock"
| "mutation_type_of (MInsert k v a) = MT_Insert"
| "mutation_type_of (MCheckNotExists k a) = MT_Other"

fun into_key_value :: "mutation \<Rightarrow> Key \<times> Value option" where
  "into_key_value (MPut k v a) = (k, Some v)"
| "into_key_value (MDelete k a) = (k, None)"
| "into_key_value (MLock k a) = (k, None)"
| "into_key_value (MInsert k v a) = (k, Some v)"
| "into_key_value (MCheckNotExists k a) = (k, None)"

fun should_not_exists :: "mutation \<Rightarrow> bool" where
  "should_not_exists (MInsert k v a) = True"
| "should_not_exists (MCheckNotExists k a) = True"
| "should_not_exists _ = False"

fun should_not_write :: "mutation \<Rightarrow> bool" where
  "should_not_write (MCheckNotExists k a) = True"
| "should_not_write _ = False"

fun get_assertion :: "mutation \<Rightarrow> assertion" where
  "get_assertion (MPut k v a) = a"
| "get_assertion (MDelete k a) = a"
| "get_assertion (MLock k a) = a"
| "get_assertion (MInsert k v a) = a"
| "get_assertion (MCheckNotExists k a) = a"

fun set_assertion :: "mutation \<Rightarrow> assertion \<Rightarrow> mutation" where
  "set_assertion (MPut k v _) a = MPut k v a"
| "set_assertion (MDelete k _) a = MDelete k a"
| "set_assertion (MLock k _) a = MLock k a"
| "set_assertion (MInsert k v _) a = MInsert k v a"
| "set_assertion (MCheckNotExists k _) a = MCheckNotExists k a"

text \<open>The operation codes of a request; the last stands for any other code.\<close>

datatype proto_op = OpPut | OpDel | OpLock | OpInsert | OpCheckNotExists | OpOther

fun mutation_from :: "proto_op \<Rightarrow> bytes \<Rightarrow> Value \<Rightarrow> assertion \<Rightarrow> ('e, mutation) result" where
  "mutation_from OpPut key value a = Ok (MPut (from_raw key) value a)"
| "mutation_from OpDel key value a = Ok (MDelete (from_raw key) a)"
| "mutation_from OpLock key value a = Ok (MLock (from_raw key) a)"
| "mutation_from OpInsert key value a = Ok (MInsert (from_raw key) value a)"
| "mutation_from OpCheckNotExists key value a = Ok (MCheckNotExists (from_raw key) a)"
| "mutation_from OpOther key value a = Panic"

section \<open>Old values\<close>

datatype old_value =
    OV_Value Value
  | OV_ValueTimeStamp TimeStamp
  | OV_None
  | OV_Unspecified
  | OV_SeekWrite Key

definition old_value_seek_write :: "bytes \<Rightarrow> u64 \<Rightarrow> old_value" where
  "old_value_seek_write raw_user_key ts = OV_SeekWrite (append_ts (from_raw raw_user_key) ts)"

fun old_value_resolved :: "old_value \<Rightarrow> bool" where
  "old_value_resolved (OV_Value v) = True"
| "old_value_resolved (OV_ValueTimeStamp ts) = True"
| "old_value_resolved OV_None = True"
| "old_value_resolved OV_Unspecified = False"
| "old_value_resolved (OV_SeekWrite k) = False"

fun old_value_finalized :: "old_value \<Rightarrow> ('e, Value option) result" where
  "old_value_finalized (OV_Value v) = Ok (Some v)"
| "old_value_finalized OV_None = Ok None"
| "old_value_finalized OV_Unspecified = Ok None"
| "old_value_finalized _ = Panic"

type_synonym old_values = "Key \<rightharpoonup> old_value \<times> mutation_type option"

definition insert_old_value_if_resolved ::
    "old_values \<Rightarrow> Key \<Rightarrow> TimeStamp \<Rightarrow> old_value \<Rightarrow> mutation_type option \<Rightarrow> old_values" where
  "insert_old_value_if_resolved old_values key start_ts old_value mt =
     (if old_value_resolved old_value
      then old_values(append_ts key start_ts \<mapsto> (old_value, mt)) else old_values)"

section \<open>Last change and flags\<close>

datatype last_change =
    LC_Unknown
  | LC_Exist TimeStamp u64
  | LC_NotExist

definition make_exist :: "TimeStamp \<Rightarrow> u64 \<Rightarrow> ('e, last_change) result" where
  "make_exist ts versions =
     (if is_zero ts then Panic else if \<not> versions > 0 then Panic else Ok (LC_Exist ts versions))"

fun to_parts :: "last_change \<Rightarrow> TimeStamp \<times> u64" where
  "to_parts LC_Unknown = (0, 0)"
| "to_parts (LC_Exist ts versions) = (ts, versions)"
| "to_parts LC_NotExist = (0, 1)"

definition from_parts :: "TimeStamp \<Rightarrow> u64 \<Rightarrow> ('e, last_change) result" where
  "from_parts ts versions =
     (if is_zero ts then Ok (if versions > 0 then LC_NotExist else LC_Unknown)
      else make_exist ts versions)"

datatype commit_role = CR_Primary | CR_Secondary

definition WRITE_BATCH_FLAGS_ALL :: u64 where "WRITE_BATCH_FLAGS_ALL = 0b00011111"

definition from_bits_check :: "u64 \<Rightarrow> ('e, u64) result" where
  "from_bits_check bits = (if bits AND NOT WRITE_BATCH_FLAGS_ALL = 0 then Ok bits else Panic)"

section \<open>Facts about timestamps\<close>

lemma compose_physical_logical: "compose (physical ts) (logical ts) = ts"
proof -
  have mask: "push_bit TSO_PHYSICAL_SHIFT_BITS 1 - 1 = (mask 18 :: u64)"
    by (simp add: TSO_PHYSICAL_SHIFT_BITS_def mask_eq_exp_minus_1)
  have "compose (physical ts) (logical ts) = push_bit 18 (drop_bit 18 ts) OR take_bit 18 ts"
    unfolding compose_def physical_def logical_def mask
    by (subst disjunctive_add) (auto simp: bit_simps TSO_PHYSICAL_SHIFT_BITS_def take_bit_eq_mask)
  also have "\<dots> = ts"
    by (rule bit_word_eqI) (auto simp: bit_simps)
  finally show ?thesis .
qed

lemma physical_compose:
  assumes "p < 2 ^ 46" "l < 2 ^ 18"
  shows "physical (compose p l) = p" "logical (compose p l) = l"
proof -
  have p: "take_bit 46 p = p" and l: "take_bit 18 l = l"
    using assms by (simp_all add: word_unat_eq_iff unsigned_take_bit_eq take_bit_nat_eq_self
        word_less_nat_alt)
  have c: "compose p l = push_bit 18 p OR l"
    unfolding compose_def TSO_PHYSICAL_SHIFT_BITS_def
    by (rule disjunctive_add) (metis bit_push_bit_iff bit_take_bit_iff l not_le)
  have pb: "bit p n \<Longrightarrow> n < 46" for n by (metis bit_take_bit_iff p)
  have lb: "bit l n \<Longrightarrow> n < 18" for n by (metis bit_take_bit_iff l)
  show "physical (compose p l) = p"
    unfolding physical_def c TSO_PHYSICAL_SHIFT_BITS_def
    by (rule bit_word_eqI) (auto simp: bit_simps dest: pb lb)
  have mask: "push_bit TSO_PHYSICAL_SHIFT_BITS 1 - 1 = (mask 18 :: u64)"
    by (simp add: TSO_PHYSICAL_SHIFT_BITS_def mask_eq_exp_minus_1)
  show "logical (compose p l) = l"
    unfolding logical_def c mask
    by (rule bit_word_eqI) (auto simp: bit_simps dest: lb)
qed

lemma ts_set_new_contains: "ts_set_contains (ts_set_new ts) t \<longleftrightarrow> t \<in> set ts"
  by (simp add: ts_set_new_def)

lemma ts_set_vec_contains: "ts_set_contains (ts_set_vec ts) t \<longleftrightarrow> t \<in> set ts"
  by (simp add: ts_set_vec_def)

lemma unat_prev: "0 < (t :: u64) \<Longrightarrow> unat (t - 1) = unat t - 1 \<and> 0 < unat t"
  by (simp add: unat_minus_one word_gt_0 unat_gt_0)

lemma ts_prev_less: "ts_prev ts = Ok p \<Longrightarrow> p < ts"
  using unat_prev [of ts] by (simp add: ts_prev_def word_less_nat_alt split: if_splits)

lemma le_minus_one_iff: "0 < (t :: u64) \<Longrightarrow> c \<le> t - 1 \<longleftrightarrow> c < t"
  using unat_prev [of t] by (auto simp: word_less_nat_alt word_le_nat_alt)

section \<open>Facts about keys\<close>

lemma length_append_ts [simp]: "length (append_ts k ts) = length k + 8"
  by (simp add: append_ts_def)

lemma split_append_ts [key_simps, simp]: "split_on_ts_for (append_ts k ts) = Ok (k, ts)"
  using decode_encode_u64_desc [of ts "[]"]
  by (simp add: split_on_ts_for_def U64_SIZE_def Let_def) (simp add: append_ts_def)

lemma truncate_append_ts [key_simps, simp]:
  "truncate_ts (append_ts k ts) = Ok k" "truncate_ts_for (append_ts k ts) = Ok k"
  by (simp_all add: truncate_ts_def truncate_ts_for_def U64_SIZE_def) (simp_all add: append_ts_def)

lemma decode_append_ts [key_simps, simp]:
  "decode_ts_from (append_ts k ts) = Ok ts" "decode_ts (append_ts k ts) = Ok ts"
  using decode_encode_u64_desc [of ts "[]"]
  by (simp_all add: decode_ts_def decode_ts_from_def U64_SIZE_def) (simp_all add: append_ts_def)

lemma append_ts_inject [simp]: "append_ts k s = append_ts k' t \<longleftrightarrow> k = k' \<and> s = t"
  by (auto simp: append_ts_def u64_desc_order.enc_eq)

lemma append_ts_surj: "8 \<le> length key \<Longrightarrow> \<exists>k ts. key = append_ts k ts"
proof -
  assume len: "8 \<le> length key"
  define b where "b = drop (length key - 8) key"
  have "to_be_bytes (length b) (from_be_bytes b :: u64) = b"
    using len by (intro to_from_be_bytes) (simp add: b_def)
  then have "encode_u64_desc (NOT (from_be_bytes b)) = b"
    using len by (simp add: encode_u64_desc_def b_def)
  then have "key = append_ts (take (length key - 8) key) (NOT (from_be_bytes b))"
    by (simp add: append_ts_def b_def)
  then show ?thesis by blast
qed

lemma native_read_u64_eq:
  assumes "8 \<le> length a" "8 \<le> length b"
  shows "native_read_u64 a = native_read_u64 b \<longleftrightarrow> take 8 a = take 8 b"
proof
  assume eq: "native_read_u64 a = native_read_u64 b"
  have "to_be_bytes 8 (native_read_u64 c) = rev (take 8 c)" if "8 \<le> length c" for c
    using that to_from_be_bytes [of "rev (take 8 c)", where 'a = 64]
    by (simp add: native_read_u64_def)
  then have "rev (take 8 a) = rev (take 8 b)" using assms eq by metis
  then show "take 8 a = take 8 b" by simp
qed (simp add: native_read_u64_def)

lemma is_user_key_eq_iff:
  "is_user_key_eq key user_key \<longleftrightarrow> (\<exists>ts. key = append_ts user_key ts)"
proof (cases "length key = length user_key + 8")
  case False
  then show ?thesis by (auto simp: is_user_key_eq_def U64_SIZE_def)
next
  case True
  then obtain k ts where key: "key = append_ts k ts"
    using append_ts_surj [of key] by auto
  with True have len: "length k = length user_key" by simp
  let ?n = "length user_key"
  have "is_user_key_eq key user_key \<longleftrightarrow> take ?n key = user_key"
  proof (cases "8 \<le> ?n")
    case big: True
    have u: "user_key = take (?n - 8) user_key @ take 8 (drop (?n - 8) user_key)"
      using big by simp
    have k: "take ?n key = take (?n - 8) key @ take 8 (drop (?n - 8) key)"
      using big by (metis le_add_diff_inverse2 take_add)
    have "take ?n key = user_key \<longleftrightarrow> take (?n - 8) key = take (?n - 8) user_key \<and>
        take 8 (drop (?n - 8) key) = take 8 (drop (?n - 8) user_key)"
      unfolding k by (subst (3) u, rule append_eq_append_conv) (simp add: True)
    then show ?thesis
      using big True by (auto simp: is_user_key_eq_def U64_SIZE_def Let_def native_read_u64_eq)
  next
    case False
    then show ?thesis using True by (simp add: is_user_key_eq_def U64_SIZE_def)
  qed
  also have "take ?n key = k" using key len by (simp add: append_ts_def)
  finally show ?thesis using key by auto
qed

lemma is_user_key_eq_append [simp]: "is_user_key_eq (append_ts k ts) user_key \<longleftrightarrow> k = user_key"
  by (auto simp: is_user_key_eq_iff)

interpretation from_raw_order: memcomparable "(<)" from_raw
proof -
  have "from_raw = encode_bytes" by (simp add: fun_eq_iff from_raw_def encode_bytes_def)
  then show "memcomparable (<) from_raw" using bytes_order.memcomparable_axioms by simp
qed

interpretation ts_key_order: memcomparable_pair "(<)" from_raw "(\<lambda>s t. t < s)" encode_u64_desc
  by unfold_locales

lemma from_raw_inject [simp]: "from_raw a = from_raw b \<longleftrightarrow> a = b"
  by (rule from_raw_order.enc_eq)

lemma append_ts_less:
  "append_ts (from_raw a) s < append_ts (from_raw b) t \<longleftrightarrow> a < b \<or> a = b \<and> t < s"
  using ts_key_order.pair.enc_less [of "(a, s)" "(b, t)"] by (simp add: append_ts_def)

lemma append_ts_less_same [simp]: "append_ts k s < append_ts k t \<longleftrightarrow> t < s"
  by (simp add: append_ts_def u64_desc_order.enc_less)

lemma append_ts_le_same [simp]: "append_ts k s \<le> append_ts k t \<longleftrightarrow> t \<le> s"
  by (auto simp: append_ts_def order_le_less u64_desc_order.enc_less u64_desc_order.enc_eq)

lemma to_raw_from_raw [key_simps, simp]: "to_raw (from_raw raw) = Ok raw"
  using decode_encode_order_bytes [of raw False "[]"] by (simp add: to_raw_def from_raw_def)

lemma into_raw_from_raw [key_simps, simp]: "into_raw (from_raw raw) = Ok raw"
  using decode_bytes_in_place_simulates [of "from_raw raw" False]
    decode_encode_order_bytes [of raw False "[]"]
  by (simp add: into_raw_def from_raw_def)

lemma key_is_encoded_from_iff: "key_is_encoded_from key raw \<longleftrightarrow> key = from_raw raw"
  by (simp add: key_is_encoded_from_def is_encoded_from_iff from_raw_def)

section \<open>Facts about the last change\<close>

definition wf_last_change :: "last_change \<Rightarrow> bool" where
  "wf_last_change lc \<longleftrightarrow> (case lc of LC_Exist ts versions \<Rightarrow> ts \<noteq> 0 \<and> versions \<noteq> 0 | _ \<Rightarrow> True)"

lemma from_to_parts:
  "wf_last_change lc \<Longrightarrow> from_parts (fst (to_parts lc)) (snd (to_parts lc)) = Ok lc"
  by (cases lc)
    (auto simp: wf_last_change_def from_parts_def make_exist_def is_zero_def word_gt_0)

lemma from_parts_wf: "from_parts ts versions = Ok lc \<Longrightarrow> wf_last_change lc"
  by (auto simp: from_parts_def make_exist_def is_zero_def wf_last_change_def split: if_splits)

section \<open>Properties of keys and timestamps\<close>

text \<open>
  C27: Versioned keys sort by user key ascending and then by timestamp descending, and the key and
  the timestamp can be taken apart again.
\<close>

theorem versioned_key_order:
  "(append_ts (from_raw a) s < append_ts (from_raw b) t \<longleftrightarrow> a < b \<or> a = b \<and> t < s) \<and>
   split_on_ts_for (append_ts k s) = Ok (k, s) \<and> truncate_ts (append_ts k s) = Ok k \<and>
   decode_ts (append_ts k s) = Ok s"
  by (simp add: append_ts_less)

text \<open>
  The raw key is recovered from the encoded one by both decoders, and the comparison that looks
  at the last eight bytes first decides exactly whether a versioned key belongs to a user key.
\<close>

theorem user_key_recovered:
  "to_raw (from_raw raw) = Ok raw \<and> into_raw (from_raw raw) = Ok raw \<and>
   (key_is_encoded_from key raw \<longleftrightarrow> key = from_raw raw) \<and>
   (is_user_key_eq ts_key user_key \<longleftrightarrow> (\<exists>ts. ts_key = append_ts user_key ts))"
  by (simp add: key_is_encoded_from_iff is_user_key_eq_iff)

text \<open>
  Every timestamp is composed of its physical and its logical part, and parts that fit their
  widths are read back from the composition.
\<close>

theorem timestamp_parts:
  "compose (physical ts) (logical ts) = ts \<and>
   (p < 2 ^ 46 \<and> l < 2 ^ 18 \<longrightarrow> physical (compose p l) = p \<and> logical (compose p l) = l)"
  using compose_physical_logical physical_compose by blast

theorem timestamp_parts_witness:
  "physical (compose 5 3) = 5 \<and> logical (compose 5 3) = 3"
  using timestamp_parts [of 0 5 3] by simp

end
