(* ===== verification/TxnLock.thy ===== *)
theory TxnLock
  imports TxnTypes
begin

text \<open>
  The lock record of \<open>components/txn_types/src/lock.rs\<close>: its fields, its tagged binary format
  (written by \<open>to_bytes\<close>, read by \<open>parse\<close>), the in-memory pessimistic lock, and the test whether
  a lock blocks a read. The errors are those of \<open>components/txn_types/src/lib.rs\<close>.
\<close>

section \<open>Lock types\<close>

datatype lock_type = LT_Put | LT_Delete | LT_Lock | LT_Pessimistic

definition LOCK_FLAG_PUT :: u8 where "LOCK_FLAG_PUT = 0x50"
definition LOCK_FLAG_DELETE :: u8 where "LOCK_FLAG_DELETE = 0x44"
definition LOCK_FLAG_LOCK :: u8 where "LOCK_FLAG_LOCK = 0x4c"
definition LOCK_FLAG_PESSIMISTIC :: u8 where "LOCK_FLAG_PESSIMISTIC = 0x53"

definition FOR_UPDATE_TS_PREFIX :: u8 where "FOR_UPDATE_TS_PREFIX = 0x66"
definition TXN_SIZE_PREFIX :: u8 where "TXN_SIZE_PREFIX = 0x74"
definition MIN_COMMIT_TS_PREFIX :: u8 where "MIN_COMMIT_TS_PREFIX = 0x63"
definition ASYNC_COMMIT_PREFIX :: u8 where "ASYNC_COMMIT_PREFIX = 0x61"
definition ROLLBACK_TS_PREFIX :: u8 where "ROLLBACK_TS_PREFIX = 0x72"
definition LAST_CHANGE_PREFIX :: u8 where "LAST_CHANGE_PREFIX = 0x6c"
definition TXN_SOURCE_PREFIX :: u8 where "TXN_SOURCE_PREFIX = 0x73"
definition PESSIMISTIC_LOCK_WITH_CONFLICT_PREFIX :: u8 where
  "PESSIMISTIC_LOCK_WITH_CONFLICT_PREFIX = 0x46"
definition GENERATION_PREFIX :: u8 where "GENERATION_PREFIX = 0x67"

lemmas lock_prefix_defs =
  LOCK_FLAG_PUT_def LOCK_FLAG_DELETE_def LOCK_FLAG_LOCK_def LOCK_FLAG_PESSIMISTIC_def
  SHORT_VALUE_PREFIX_def FOR_UPDATE_TS_PREFIX_def TXN_SIZE_PREFIX_def MIN_COMMIT_TS_PREFIX_def
  ASYNC_COMMIT_PREFIX_def ROLLBACK_TS_PREFIX_def LAST_CHANGE_PREFIX_def TXN_SOURCE_PREFIX_def
  PESSIMISTIC_LOCK_WITH_CONFLICT_PREFIX_def GENERATION_PREFIX_def

fun lock_type_from_mutation :: "mutation \<Rightarrow> lock_type option" where
  "lock_type_from_mutation (MPut k v a) = Some LT_Put"
| "lock_type_from_mutation (MInsert k v a) = Some LT_Put"
| "lock_type_from_mutation (MDelete k a) = Some LT_Delete"
| "lock_type_from_mutation (MLock k a) = Some LT_Lock"
| "lock_type_from_mutation (MCheckNotExists k a) = None"

definition lock_type_from_u8 :: "u8 \<Rightarrow> lock_type option" where
  "lock_type_from_u8 b =
     (if b = LOCK_FLAG_PUT then Some LT_Put
      else if b = LOCK_FLAG_DELETE then Some LT_Delete
      else if b = LOCK_FLAG_LOCK then Some LT_Lock
      else if b = LOCK_FLAG_PESSIMISTIC then Some LT_Pessimistic
      else None)"

fun lock_type_to_u8 :: "lock_type \<Rightarrow> u8" where
  "lock_type_to_u8 LT_Put = LOCK_FLAG_PUT"
| "lock_type_to_u8 LT_Delete = LOCK_FLAG_DELETE"
| "lock_type_to_u8 LT_Lock = LOCK_FLAG_LOCK"
| "lock_type_to_u8 LT_Pessimistic = LOCK_FLAG_PESSIMISTIC"

section \<open>Lock records\<close>

record lock =
  l_type :: lock_type
  l_primary :: bytes
  l_ts :: TimeStamp
  l_ttl :: u64
  l_short_value :: "Value option"
  l_for_update_ts :: TimeStamp
  l_txn_size :: u64
  l_min_commit_ts :: TimeStamp
  l_use_async_commit :: bool
  l_use_one_pc :: bool
  l_secondaries :: "bytes list"
  l_rollback_ts :: "TimeStamp list"
  l_last_change :: last_change
  l_txn_source :: u64
  l_is_locked_with_conflict :: bool
  l_generation :: u64

definition lock_new ::
    "lock_type \<Rightarrow> bytes \<Rightarrow> TimeStamp \<Rightarrow> u64 \<Rightarrow> Value option \<Rightarrow> TimeStamp \<Rightarrow> u64 \<Rightarrow> TimeStamp \<Rightarrow> bool
     \<Rightarrow> lock" where
  "lock_new tp primary ts ttl short_value for_update_ts txn_size min_commit_ts conflict =
     \<lparr> l_type = tp, l_primary = primary, l_ts = ts, l_ttl = ttl, l_short_value = short_value,
       l_for_update_ts = for_update_ts, l_txn_size = txn_size, l_min_commit_ts = min_commit_ts,
       l_use_async_commit = False, l_use_one_pc = False, l_secondaries = [], l_rollback_ts = [],
       l_last_change = LC_Unknown, l_txn_source = 0, l_is_locked_with_conflict = conflict,
       l_generation = 0 \<rparr>"

definition lock_use_async_commit :: "lock \<Rightarrow> bytes list \<Rightarrow> lock" where
  "lock_use_async_commit l secondaries =
     l\<lparr>l_use_async_commit := True, l_secondaries := secondaries\<rparr>"

definition lock_with_rollback_ts :: "lock \<Rightarrow> TimeStamp list \<Rightarrow> lock" where
  "lock_with_rollback_ts l rollback_ts = l\<lparr>l_rollback_ts := rollback_ts\<rparr>"

definition lock_set_last_change :: "lock \<Rightarrow> last_change \<Rightarrow> lock" where
  "lock_set_last_change l lc = l\<lparr>l_last_change := lc\<rparr>"

definition lock_set_txn_source :: "lock \<Rightarrow> u64 \<Rightarrow> lock" where
  "lock_set_txn_source l source = l\<lparr>l_txn_source := source\<rparr>"

definition lock_with_generation :: "lock \<Rightarrow> u64 \<Rightarrow> lock" where
  "lock_with_generation l g = l\<lparr>l_generation := g\<rparr>"

definition is_pessimistic_txn :: "lock \<Rightarrow> bool" where
  "is_pessimistic_txn l \<longleftrightarrow> \<not> is_zero (l_for_update_ts l)"

definition is_pessimistic_lock :: "lock \<Rightarrow> bool" where
  "is_pessimistic_lock l \<longleftrightarrow> l_type l = LT_Pessimistic"

definition is_pessimistic_lock_with_conflict :: "lock \<Rightarrow> bool" where
  "is_pessimistic_lock_with_conflict l \<longleftrightarrow> is_pessimistic_lock l \<and> l_is_locked_with_conflict l"

section \<open>Binary format\<close>

definition lock_to_bytes :: "lock \<Rightarrow> bytes" where
  "lock_to_bytes l =
     [lock_type_to_u8 (l_type l)] @
     encode_compact_bytes (l_primary l) @
     encode_var_u64 (l_ts l) @
     encode_var_u64 (l_ttl l) @
     (case l_short_value l of None \<Rightarrow> []
      | Some v \<Rightarrow> [SHORT_VALUE_PREFIX] @ [of_nat (length v)] @ v) @
     (if \<not> is_zero (l_for_update_ts l)
      then [FOR_UPDATE_TS_PREFIX] @ encode_u64 (l_for_update_ts l) else []) @
     (if l_txn_size l > 0 then [TXN_SIZE_PREFIX] @ encode_u64 (l_txn_size l) else []) @
     (if \<not> is_zero (l_min_commit_ts l)
      then [MIN_COMMIT_TS_PREFIX] @ encode_u64 (l_min_commit_ts l) else []) @
     (if l_use_async_commit l
      then [ASYNC_COMMIT_PREFIX] @ encode_var_u64 (of_nat (length (l_secondaries l))) @
        concat (map encode_compact_bytes (l_secondaries l)) else []) @
     (if l_rollback_ts l \<noteq> []
      then [ROLLBACK_TS_PREFIX] @ encode_var_u64 (of_nat (length (l_rollback_ts l))) @
        concat (map encode_u64 (l_rollback_ts l)) else []) @
     (if l_last_change l \<noteq> LC_Unknown
      then case to_parts (l_last_change l) of (last_change_ts, versions) \<Rightarrow>
        [LAST_CHANGE_PREFIX] @ encode_u64 last_change_ts @ encode_var_u64 versions else []) @
     (if l_txn_source l \<noteq> 0 then [TXN_SOURCE_PREFIX] @ encode_var_u64 (l_txn_source l) else []) @
     (if l_is_locked_with_conflict l then [PESSIMISTIC_LOCK_WITH_CONFLICT_PREFIX] else []) @
     (if l_generation l > 0 then [GENERATION_PREFIX] @ encode_u64 (l_generation l) else [])"

definition MAX_VAR_LEN :: nat where "MAX_VAR_LEN = 10"

definition lock_pre_allocate_size :: "lock \<Rightarrow> nat" where
  "lock_pre_allocate_size l =
     1 + MAX_VAR_LEN + length (l_primary l) + MAX_VAR_LEN * 2 +
     (case l_short_value l of None \<Rightarrow> 0 | Some v \<Rightarrow> 2 + length v) +
     (if \<not> is_zero (l_for_update_ts l) then 1 + 8 else 0) +
     (if l_txn_size l > 0 then 1 + 8 else 0) +
     (if \<not> is_zero (l_min_commit_ts l) then 1 + 8 else 0) +
     (if l_use_async_commit l
      then 1 + MAX_VAR_LEN + sum_list (map (\<lambda>k. MAX_VAR_LEN + length k) (l_secondaries l)) else 0) +
     (if l_rollback_ts l \<noteq> [] then 1 + MAX_VAR_LEN + 8 * length (l_rollback_ts l) else 0) +
     (if l_last_change l \<noteq> LC_Unknown then 1 + 8 + MAX_VAR_LEN else 0) +
     (if l_txn_source l \<noteq> 0 then 1 + MAX_VAR_LEN else 0) +
     (if l_is_locked_with_conflict l then 1 else 0) +
     (if l_generation l > 0 then 1 + 8 else 0)"

text \<open>What a client is told of a lock, and the errors of this layer.\<close>

datatype lock_op = LockOpPut | LockOpDel | LockOpLock | LockOpPessimisticLock

record lock_info =
  i_primary_lock :: bytes
  i_lock_version :: u64
  i_key :: bytes
  i_lock_ttl :: u64
  i_txn_size :: u64
  i_lock_type :: lock_op
  i_lock_for_update_ts :: u64
  i_use_async_commit :: bool
  i_min_commit_ts :: u64
  i_secondaries :: "bytes list"

datatype write_conflict_reason =
  Optimistic | PessimisticRetry | SelfRolledBack | RcCheckTsConflict | LazyUniquenessCheck

datatype txn_error =
    TE_Io io_kind
  | TE_Codec codec_error
  | BadFormatLock
  | BadFormatWrite
  | TE_KeyIsLocked lock_info
  | TE_WriteConflict (tec_start_ts: TimeStamp) (tec_conflict_start_ts: TimeStamp)
      (tec_conflict_commit_ts: TimeStamp) (tec_key: bytes) (tec_primary: bytes)
      (tec_reason: write_conflict_reason)

text \<open>
  The variables of the parser's loop, and one turn of the loop: the field that follows a tag.
  \<open>None\<close> is the exit on an unknown tag.
\<close>

record lock_fields =
  f_short_value :: "Value option"
  f_for_update_ts :: TimeStamp
  f_txn_size :: u64
  f_min_commit_ts :: TimeStamp
  f_use_async_commit :: bool
  f_secondaries :: "bytes list"
  f_rollback_ts :: "TimeStamp list"
  f_last_change_ts :: TimeStamp
  f_versions :: u64
  f_txn_source :: u64
  f_is_locked_with_conflict :: bool
  f_generation :: u64

definition lock_fields_init :: lock_fields where
  "lock_fields_init =
     \<lparr> f_short_value = None, f_for_update_ts = 0, f_txn_size = 0, f_min_commit_ts = 0,
       f_use_async_commit = False, f_secondaries = [], f_rollback_ts = [], f_last_change_ts = 0,
       f_versions = 0, f_txn_source = 0, f_is_locked_with_conflict = False, f_generation = 0 \<rparr>"

abbreviation from_codec :: "(codec_error, 'a) result \<Rightarrow> (txn_error, 'a) result" where
  "from_codec r \<equiv> map_error TE_Codec r"

definition ISIZE_MAX :: nat where "ISIZE_MAX = 2 ^ 63 - 1"

definition lock_parse_field ::
    "lock_fields \<Rightarrow> u8 \<Rightarrow> bytes \<Rightarrow> (txn_error, (lock_fields \<times> bytes) option) result" where
  "lock_parse_field f tag b =
     (if tag = SHORT_VALUE_PREFIX then
        rbind (map_error (\<lambda>_. TE_Io UnexpectedEof) (read_u8 b)) (\<lambda>(len, b).
          if length b < unat len then Panic
          else Ok (Some (f\<lparr>f_short_value := Some (take (unat len) b)\<rparr>, drop (unat len) b)))
      else if tag = FOR_UPDATE_TS_PREFIX then
        rbind (from_codec (decode_u64 b)) (\<lambda>(v, b). Ok (Some (f\<lparr>f_for_update_ts := v\<rparr>, b)))
      else if tag = TXN_SIZE_PREFIX then
        rbind (from_codec (decode_u64 b)) (\<lambda>(v, b). Ok (Some (f\<lparr>f_txn_size := v\<rparr>, b)))
      else if tag = MIN_COMMIT_TS_PREFIX then
        rbind (from_codec (decode_u64 b)) (\<lambda>(v, b). Ok (Some (f\<lparr>f_min_commit_ts := v\<rparr>, b)))
      else if tag = ASYNC_COMMIT_PREFIX then
        rbind (from_codec (decode_var_u64 b)) (\<lambda>(len, b).
        rbind (from_codec (read_n decode_compact_bytes (unat len) b)) (\<lambda>(ks, b).
          Ok (Some (f\<lparr>f_use_async_commit := True, f_secondaries := ks\<rparr>, b))))
      else if tag = ROLLBACK_TS_PREFIX then
        rbind (from_codec (decode_var_u64 b)) (\<lambda>(len, b).
          if unat (len + 1) * 8 > ISIZE_MAX then Panic
          else rbind (from_codec (read_n decode_u64 (unat len) b)) (\<lambda>(ts, b).
            Ok (Some (f\<lparr>f_rollback_ts := ts\<rparr>, b))))
      else if tag = LAST_CHANGE_PREFIX then
        rbind (from_codec (decode_u64 b)) (\<lambda>(ts, b).
        rbind (from_codec (decode_var_u64 b)) (\<lambda>(versions, b).
          Ok (Some (f\<lparr>f_last_change_ts := ts, f_versions := versions\<rparr>, b))))
      else if tag = TXN_SOURCE_PREFIX then
        rbind (from_codec (decode_var_u64 b)) (\<lambda>(v, b). Ok (Some (f\<lparr>f_txn_source := v\<rparr>, b)))
      else if tag = PESSIMISTIC_LOCK_WITH_CONFLICT_PREFIX then
        Ok (Some (f\<lparr>f_is_locked_with_conflict := True\<rparr>, b))
      else if tag = GENERATION_PREFIX then
        rbind (from_codec (decode_u64 b)) (\<lambda>(v, b). Ok (Some (f\<lparr>f_generation := v\<rparr>, b)))
      else Ok None)"

text \<open>Every decoder leaves a suffix that is no longer than its input.\<close>

lemma decode_u64_rest: "decode_u64 b = Ok (v, r) \<Longrightarrow> length r \<le> length b"
  by (auto simp: decode_u64_def read_num_bytes_def split: if_splits)

lemma decode_var_nine_rest: "decode_var_nine k i res b = Ok (v, r) \<Longrightarrow> length r \<le> length b"
  by (induction k i res b rule: decode_var_nine.induct) (auto simp: Let_def split: if_splits)

lemma decode_var_short_rest: "decode_var_short i res b = Ok (v, r) \<Longrightarrow> length r \<le> length b"
  by (induction i res b rule: decode_var_short.induct) (auto simp: Let_def split: if_splits)

lemma decode_var_u64_rest: "decode_var_u64 b = Ok (v, r) \<Longrightarrow> length r \<le> length b"
  by (auto simp: decode_var_u64_def decode_var_nine_rest decode_var_short_rest split: if_splits)

lemma decode_compact_bytes_rest: "decode_compact_bytes b = Ok (v, r) \<Longrightarrow> length r \<le> length b"
  by (auto simp: decode_compact_bytes_def decode_var_i64_def Let_def
      dest!: decode_var_u64_rest split: if_splits)

lemma read_n_rest:
  assumes "\<And>b v r. dec b = Ok (v, r) \<Longrightarrow> length r \<le> length b"
  shows "read_n dec n b = Ok (vs, r) \<Longrightarrow> length r \<le> length b"
proof (induction n arbitrary: b vs r)
  case (Suc n)
  then obtain v s ws where "dec b = Ok (v, s)" "read_n dec n s = Ok (ws, r)" by auto
  with Suc.IH [of s ws r] assms show ?case by fastforce
qed simp

lemma read_n_compact_rest: "read_n decode_compact_bytes n b = Ok (vs, r) \<Longrightarrow> length r \<le> length b"
  by (rule read_n_rest [OF decode_compact_bytes_rest])

lemma read_n_u64_rest: "read_n decode_u64 n b = Ok (vs, r) \<Longrightarrow> length r \<le> length b"
  by (rule read_n_rest [OF decode_u64_rest])

lemmas decoder_rests = decode_u64_rest decode_var_u64_rest read_n_compact_rest read_n_u64_rest

lemma lock_parse_field_rest:
  "lock_parse_field f tag b = Ok (Some (f', r)) \<Longrightarrow> length r \<le> length b"
  by (cases b; auto simp: lock_parse_field_def split: if_splits
      dest!: decoder_rests elim: order_trans)

lemma rbind_cong [fundef_cong]:
  "r = r' \<Longrightarrow> (\<And>a. r' = Ok a \<Longrightarrow> f a = g a) \<Longrightarrow> rbind r f = rbind r' g"
  by (cases r') auto

function lock_parse_loop :: "lock_fields \<Rightarrow> bytes \<Rightarrow> (txn_error, lock_fields) result" where
  "lock_parse_loop f [] = Ok f"
| "lock_parse_loop f (tag # b) =
     rbind (lock_parse_field f tag b) (\<lambda>r.
       case r of None \<Rightarrow> Ok f | Some (f', b') \<Rightarrow> lock_parse_loop f' b')"
  by pat_completeness auto
termination
  by (relation "measure (\<lambda>(f, b). length b)") (auto dest: lock_parse_field_rest)

definition lock_parse :: "bytes \<Rightarrow> (txn_error, lock) result" where
  "lock_parse b =
     (if b = [] then Err BadFormatLock
      else
        rbind (map_error (\<lambda>_. TE_Io UnexpectedEof) (read_u8 b)) (\<lambda>(tag, b).
        rbind (case lock_type_from_u8 tag of None \<Rightarrow> Err BadFormatLock | Some tp \<Rightarrow> Ok tp) (\<lambda>tp.
        rbind (from_codec (decode_compact_bytes b)) (\<lambda>(primary, b).
        rbind (from_codec (decode_var_u64 b)) (\<lambda>(ts, b).
        rbind (if b = [] then Ok (0, b) else from_codec (decode_var_u64 b)) (\<lambda>(ttl, b).
          if b = [] then Ok (lock_new tp primary ts ttl None 0 0 0 False)
          else
            rbind (lock_parse_loop lock_fields_init b) (\<lambda>f.
            rbind (from_parts (f_last_change_ts f) (f_versions f)) (\<lambda>lc.
              let l = lock_new tp primary ts ttl (f_short_value f) (f_for_update_ts f)
                        (f_txn_size f) (f_min_commit_ts f) (f_is_locked_with_conflict f);
                  l = lock_set_last_change l lc;
                  l = lock_set_txn_source l (f_txn_source f);
                  l = lock_with_rollback_ts l (f_rollback_ts f);
                  l = lock_with_generation l (f_generation f)
              in Ok (if f_use_async_commit f then lock_use_async_commit l (f_secondaries f) else l)))))))))"

section \<open>Reads against a lock\<close>

fun lock_op_of :: "lock_type \<Rightarrow> lock_op" where
  "lock_op_of LT_Put = LockOpPut"
| "lock_op_of LT_Delete = LockOpDel"
| "lock_op_of LT_Lock = LockOpLock"
| "lock_op_of LT_Pessimistic = LockOpPessimisticLock"

definition into_lock_info :: "lock \<Rightarrow> bytes \<Rightarrow> lock_info" where
  "into_lock_info l raw_key =
     \<lparr> i_primary_lock = l_primary l, i_lock_version = l_ts l, i_key = raw_key,
       i_lock_ttl = l_ttl l, i_txn_size = l_txn_size l, i_lock_type = lock_op_of (l_type l),
       i_lock_for_update_ts = l_for_update_ts l, i_use_async_commit = l_use_async_commit l,
       i_min_commit_ts = l_min_commit_ts l, i_secondaries = l_secondaries l \<rparr>"

datatype isolation_level = Si | Rc | RcCheckTs

definition check_ts_conflict_si ::
    "lock \<Rightarrow> Key \<Rightarrow> TimeStamp \<Rightarrow> ts_set \<Rightarrow> bool \<Rightarrow> (txn_error, unit) result" where
  "check_ts_conflict_si l key ts bypass_locks is_replica_read =
     (if l_ts l > ts \<or> l_type l = LT_Lock \<or> is_pessimistic_lock l then Ok ()
      else if l_min_commit_ts l > ts then Ok ()
      else if ts_set_contains bypass_locks (l_ts l) then Ok ()
      else
        rbind (from_codec (to_raw key)) (\<lambda>raw_key.
          if ts = ts_max \<and> is_replica_read then Err (TE_KeyIsLocked (into_lock_info l raw_key))
          else if ts = ts_max \<and> raw_key = l_primary l \<and> \<not> l_use_async_commit l \<and> \<not> l_use_one_pc l
          then Ok ()
          else Err (TE_KeyIsLocked (into_lock_info l raw_key))))"

definition check_ts_conflict_rc_check_ts ::
    "lock \<Rightarrow> Key \<Rightarrow> TimeStamp \<Rightarrow> ts_set \<Rightarrow> (txn_error, unit) result" where
  "check_ts_conflict_rc_check_ts l key ts bypass_locks =
     (if l_type l = LT_Lock \<or> is_pessimistic_lock l then Ok ()
      else if ts_set_contains bypass_locks (l_ts l) then Ok ()
      else
        rbind (from_codec (to_raw key)) (\<lambda>raw_key.
          Err (TE_WriteConflict ts (l_ts l) 0 raw_key (l_primary l) RcCheckTsConflict)))"

fun check_ts_conflict ::
    "lock \<Rightarrow> Key \<Rightarrow> TimeStamp \<Rightarrow> ts_set \<Rightarrow> isolation_level \<Rightarrow> (txn_error, unit) result" where
  "check_ts_conflict l key ts bypass Si = check_ts_conflict_si l key ts bypass False"
| "check_ts_conflict l key ts bypass RcCheckTs = check_ts_conflict_rc_check_ts l key ts bypass"
| "check_ts_conflict l key ts bypass Rc = Ok ()"

fun check_ts_conflict_for_replica_read ::
    "lock \<Rightarrow> Key \<Rightarrow> TimeStamp \<Rightarrow> ts_set \<Rightarrow> isolation_level \<Rightarrow> (txn_error, unit) result" where
  "check_ts_conflict_for_replica_read l key ts bypass Si =
     check_ts_conflict_si l key ts bypass True"
| "check_ts_conflict_for_replica_read l key ts bypass RcCheckTs = Panic"
| "check_ts_conflict_for_replica_read l key ts bypass Rc = Ok ()"

section \<open>In-memory pessimistic locks\<close>

record pessimistic_lock =
  p_primary :: bytes
  p_start_ts :: TimeStamp
  p_ttl :: u64
  p_for_update_ts :: TimeStamp
  p_min_commit_ts :: TimeStamp
  p_last_change :: last_change
  p_is_locked_with_conflict :: bool

definition pessimistic_to_lock :: "pessimistic_lock \<Rightarrow> lock" where
  "pessimistic_to_lock p =
     lock_set_last_change
       (lock_new LT_Pessimistic (p_primary p) (p_start_ts p) (p_ttl p) None (p_for_update_ts p) 0
         (p_min_commit_ts p) (p_is_locked_with_conflict p))
       (p_last_change p)"

datatype txn_lock_ref = InMemory pessimistic_lock | Persisted lock

fun get_start_ts :: "txn_lock_ref \<Rightarrow> TimeStamp" where
  "get_start_ts (InMemory p) = p_start_ts p"
| "get_start_ts (Persisted l) = l_ts l"

fun get_for_update_ts :: "txn_lock_ref \<Rightarrow> TimeStamp" where
  "get_for_update_ts (InMemory p) = p_for_update_ts p"
| "get_for_update_ts (Persisted l) = l_for_update_ts l"

fun ref_is_pessimistic_lock :: "txn_lock_ref \<Rightarrow> bool" where
  "ref_is_pessimistic_lock (InMemory p) = True"
| "ref_is_pessimistic_lock (Persisted l) = is_pessimistic_lock l"

fun get_lock_type :: "txn_lock_ref \<Rightarrow> lock_type" where
  "get_lock_type (InMemory p) = LT_Pessimistic"
| "get_lock_type (Persisted l) = l_type l"

section \<open>What can be stored\<close>

text \<open>
  The locks the format can hold: a short value fits its length byte, the secondaries are only
  there with the async-commit flag, and the one-phase flag, which is never written, is off.
\<close>

definition wf_lock :: "lock \<Rightarrow> bool" where
  "wf_lock l \<longleftrightarrow>
     length (l_primary l) < 2 ^ 64 \<and>
     (case l_short_value l of None \<Rightarrow> True | Some v \<Rightarrow> is_short_value v) \<and>
     (if l_use_async_commit l
      then length (l_secondaries l) < 2 ^ 64 \<and> list_all (\<lambda>k. length k < 2 ^ 64) (l_secondaries l)
      else l_secondaries l = []) \<and>
     (length (l_rollback_ts l) + 1) * 8 \<le> ISIZE_MAX \<and>
     wf_last_change (l_last_change l) \<and>
     \<not> l_use_one_pc l"

definition lock_tags :: "u8 list" where
  "lock_tags =
     [SHORT_VALUE_PREFIX, FOR_UPDATE_TS_PREFIX, TXN_SIZE_PREFIX, MIN_COMMIT_TS_PREFIX,
      ASYNC_COMMIT_PREFIX, ROLLBACK_TS_PREFIX, LAST_CHANGE_PREFIX, TXN_SOURCE_PREFIX,
      PESSIMISTIC_LOCK_WITH_CONFLICT_PREFIX, GENERATION_PREFIX]"

lemma lock_type_from_to_u8 [simp]: "lock_type_from_u8 (lock_type_to_u8 tp) = Some tp"
  by (cases tp) (simp_all add: lock_type_from_u8_def lock_prefix_defs)

lemma short_value_length:
  "is_short_value v \<Longrightarrow> unat (of_nat (length v) :: u8) = length v"
  by (simp add: is_short_value_def SHORT_VALUE_MAX_LEN_def unat_of_nat)

lemma lock_loop_short_value:
  "is_short_value v \<Longrightarrow>
   lock_parse_loop f (SHORT_VALUE_PREFIX # of_nat (length v) # v @ rest) =
   lock_parse_loop (f\<lparr>f_short_value := Some v\<rparr>) rest"
  by (simp add: lock_parse_field_def short_value_length)

lemma lock_loop_u64:
  "lock_parse_loop f (FOR_UPDATE_TS_PREFIX # encode_u64 v @ rest) =
   lock_parse_loop (f\<lparr>f_for_update_ts := v\<rparr>) rest"
  "lock_parse_loop f (TXN_SIZE_PREFIX # encode_u64 v @ rest) =
   lock_parse_loop (f\<lparr>f_txn_size := v\<rparr>) rest"
  "lock_parse_loop f (MIN_COMMIT_TS_PREFIX # encode_u64 v @ rest) =
   lock_parse_loop (f\<lparr>f_min_commit_ts := v\<rparr>) rest"
  "lock_parse_loop f (GENERATION_PREFIX # encode_u64 v @ rest) =
   lock_parse_loop (f\<lparr>f_generation := v\<rparr>) rest"
  by (simp_all add: lock_parse_field_def codec_simps) (simp_all add: lock_prefix_defs)

lemma lock_loop_async_commit:
  assumes "length ks < 2 ^ 64" "list_all (\<lambda>k. length k < 2 ^ 64) ks"
  shows "lock_parse_loop f (ASYNC_COMMIT_PREFIX # encode_var_u64 (of_nat (length ks)) @
      concat (map encode_compact_bytes ks) @ rest) =
    lock_parse_loop (f\<lparr>f_use_async_commit := True, f_secondaries := ks\<rparr>) rest"
proof -
  have "read_n decode_compact_bytes (length ks) (concat (map encode_compact_bytes ks) @ rest) =
      Ok (ks, rest)"
    using assms(2) by (intro compact_bytes_codec.read_n_enc) (simp add: list_all_iff)
  moreover have "unat (of_nat (length ks) :: u64) = length ks"
    using assms(1) by (simp add: unat_of_nat)
  ultimately show ?thesis
    by (simp add: lock_parse_field_def codec_simps) (simp add: lock_prefix_defs)
qed

lemma lock_loop_rollback_ts:
  assumes "(length ts + 1) * 8 \<le> ISIZE_MAX"
  shows "lock_parse_loop f (ROLLBACK_TS_PREFIX # encode_var_u64 (of_nat (length ts)) @
      concat (map encode_u64 ts) @ rest) =
    lock_parse_loop (f\<lparr>f_rollback_ts := ts\<rparr>) rest"
proof -
  have "read_n decode_u64 (length ts) (concat (map encode_u64 ts) @ rest) = Ok (ts, rest)"
    by (intro u64_codec.read_n_enc) simp
  moreover have n: "unat (of_nat (length ts) :: u64) = length ts"
    using assms by (simp add: unat_of_nat ISIZE_MAX_def)
  moreover have "unat (of_nat (length ts) + 1 :: u64) = length ts + 1"
    using assms n by (simp add: unat_word_ariths ISIZE_MAX_def)
  ultimately show ?thesis
    using assms by (simp add: lock_parse_field_def codec_simps) (simp add: lock_prefix_defs)
qed

lemma lock_loop_rest:
  "lock_parse_loop f (LAST_CHANGE_PREFIX # encode_u64 ts @ encode_var_u64 n @ rest) =
   lock_parse_loop (f\<lparr>f_last_change_ts := ts, f_versions := n\<rparr>) rest"
  "lock_parse_loop f (TXN_SOURCE_PREFIX # encode_var_u64 n @ rest) =
   lock_parse_loop (f\<lparr>f_txn_source := n\<rparr>) rest"
  "lock_parse_loop f (PESSIMISTIC_LOCK_WITH_CONFLICT_PREFIX # rest) =
   lock_parse_loop (f\<lparr>f_is_locked_with_conflict := True\<rparr>) rest"
  by (simp_all add: lock_parse_field_def codec_simps) (simp_all add: lock_prefix_defs)

lemma lock_loop_stop:
  "rest = [] \<or> hd rest \<notin> set lock_tags \<Longrightarrow> lock_parse_loop f rest = Ok f"
  by (cases rest) (auto simp: lock_tags_def lock_parse_field_def)

text \<open>The optional part of the format, read back field by field.\<close>

definition lock_option_bytes :: "lock \<Rightarrow> bytes" where
  "lock_option_bytes l = drop (length ([lock_type_to_u8 (l_type l)] @
     encode_compact_bytes (l_primary l) @ encode_var_u64 (l_ts l) @ encode_var_u64 (l_ttl l)))
     (lock_to_bytes l)"

lemma lock_to_bytes_split:
  "lock_to_bytes l = lock_type_to_u8 (l_type l) # encode_compact_bytes (l_primary l) @
     encode_var_u64 (l_ts l) @ encode_var_u64 (l_ttl l) @ lock_option_bytes l"
  by (simp add: lock_option_bytes_def lock_to_bytes_def)

definition lock_fields_of :: "lock \<Rightarrow> lock_fields" where
  "lock_fields_of l =
     \<lparr> f_short_value = l_short_value l, f_for_update_ts = l_for_update_ts l,
       f_txn_size = l_txn_size l, f_min_commit_ts = l_min_commit_ts l,
       f_use_async_commit = l_use_async_commit l, f_secondaries = l_secondaries l,
       f_rollback_ts = l_rollback_ts l, f_last_change_ts = fst (to_parts (l_last_change l)),
       f_versions = snd (to_parts (l_last_change l)), f_txn_source = l_txn_source l,
       f_is_locked_with_conflict = l_is_locked_with_conflict l, f_generation = l_generation l \<rparr>"

text \<open>Each optional field, written or left out, sets the parser's variable to the lock's field.\<close>

lemma lock_segments:
  "f_short_value f = None \<Longrightarrow> (\<And>v. sv = Some v \<Longrightarrow> is_short_value v) \<Longrightarrow>
   lock_parse_loop f ((case sv of None \<Rightarrow> []
      | Some v \<Rightarrow> SHORT_VALUE_PREFIX # of_nat (length v) # v) @ r) =
   lock_parse_loop (f\<lparr>f_short_value := sv\<rparr>) r"
  "f_for_update_ts f = 0 \<Longrightarrow>
   lock_parse_loop f ((if \<not> is_zero n then FOR_UPDATE_TS_PREFIX # encode_u64 n else []) @ r) =
   lock_parse_loop (f\<lparr>f_for_update_ts := n\<rparr>) r"
  "f_txn_size f = 0 \<Longrightarrow>
   lock_parse_loop f ((if n > 0 then TXN_SIZE_PREFIX # encode_u64 n else []) @ r) =
   lock_parse_loop (f\<lparr>f_txn_size := n\<rparr>) r"
  "f_min_commit_ts f = 0 \<Longrightarrow>
   lock_parse_loop f ((if \<not> is_zero n then MIN_COMMIT_TS_PREFIX # encode_u64 n else []) @ r) =
   lock_parse_loop (f\<lparr>f_min_commit_ts := n\<rparr>) r"
  "f_txn_source f = 0 \<Longrightarrow>
   lock_parse_loop f ((if n \<noteq> 0 then TXN_SOURCE_PREFIX # encode_var_u64 n else []) @ r) =
   lock_parse_loop (f\<lparr>f_txn_source := n\<rparr>) r"
  "\<not> f_is_locked_with_conflict f \<Longrightarrow>
   lock_parse_loop f ((if c then [PESSIMISTIC_LOCK_WITH_CONFLICT_PREFIX] else []) @ r) =
   lock_parse_loop (f\<lparr>f_is_locked_with_conflict := c\<rparr>) r"
  "f_generation f = 0 \<Longrightarrow>
   lock_parse_loop f ((if n > 0 then GENERATION_PREFIX # encode_u64 n else []) @ r) =
   lock_parse_loop (f\<lparr>f_generation := n\<rparr>) r"
  by (cases f; auto simp: is_zero_def word_gt_0 lock_loop_short_value lock_loop_u64 lock_loop_rest
      split: option.split simp del: lock_parse_loop.simps)+

lemma lock_list_segments:
  "f_secondaries f = [] \<Longrightarrow> \<not> f_use_async_commit f \<Longrightarrow>
   (if c then length ks < 2 ^ 64 \<and> list_all (\<lambda>k. length k < 2 ^ 64) ks else ks = []) \<Longrightarrow>
   lock_parse_loop f ((if c then ASYNC_COMMIT_PREFIX # encode_var_u64 (of_nat (length ks)) @
      concat (map encode_compact_bytes ks) else []) @ r) =
   lock_parse_loop (f\<lparr>f_use_async_commit := c, f_secondaries := ks\<rparr>) r"
  "f_rollback_ts f = [] \<Longrightarrow> (length ts + 1) * 8 \<le> ISIZE_MAX \<Longrightarrow>
   lock_parse_loop f ((if ts \<noteq> [] then ROLLBACK_TS_PREFIX # encode_var_u64 (of_nat (length ts)) @
      concat (map encode_u64 ts) else []) @ r) =
   lock_parse_loop (f\<lparr>f_rollback_ts := ts\<rparr>) r"
  "f_last_change_ts f = 0 \<Longrightarrow> f_versions f = 0 \<Longrightarrow>
   lock_parse_loop f ((if lc \<noteq> LC_Unknown then LAST_CHANGE_PREFIX #
      encode_u64 (fst (to_parts lc)) @ encode_var_u64 (snd (to_parts lc)) else []) @ r) =
   lock_parse_loop (f\<lparr>f_last_change_ts := fst (to_parts lc), f_versions := snd (to_parts lc)\<rparr>) r"
  subgoal by (cases f; cases c) (simp_all add: lock_loop_async_commit del: lock_parse_loop.simps)
  subgoal by (cases f; cases "ts = []")
      (simp_all add: lock_loop_rollback_ts del: lock_parse_loop.simps)
  subgoal by (cases f; cases lc) (simp_all add: lock_loop_rest del: lock_parse_loop.simps)
  done

lemma lock_option_bytes_eq:
  "lock_option_bytes l =
     (case l_short_value l of None \<Rightarrow> [] | Some v \<Rightarrow> SHORT_VALUE_PREFIX # of_nat (length v) # v) @
     (if \<not> is_zero (l_for_update_ts l)
      then FOR_UPDATE_TS_PREFIX # encode_u64 (l_for_update_ts l) else []) @
     (if l_txn_size l > 0 then TXN_SIZE_PREFIX # encode_u64 (l_txn_size l) else []) @
     (if \<not> is_zero (l_min_commit_ts l)
      then MIN_COMMIT_TS_PREFIX # encode_u64 (l_min_commit_ts l) else []) @
     (if l_use_async_commit l
      then ASYNC_COMMIT_PREFIX # encode_var_u64 (of_nat (length (l_secondaries l))) @
        concat (map encode_compact_bytes (l_secondaries l)) else []) @
     (if l_rollback_ts l \<noteq> []
      then ROLLBACK_TS_PREFIX # encode_var_u64 (of_nat (length (l_rollback_ts l))) @
        concat (map encode_u64 (l_rollback_ts l)) else []) @
     (if l_last_change l \<noteq> LC_Unknown
      then LAST_CHANGE_PREFIX # encode_u64 (fst (to_parts (l_last_change l))) @
        encode_var_u64 (snd (to_parts (l_last_change l))) else []) @
     (if l_txn_source l \<noteq> 0 then TXN_SOURCE_PREFIX # encode_var_u64 (l_txn_source l) else []) @
     (if l_is_locked_with_conflict l then [PESSIMISTIC_LOCK_WITH_CONFLICT_PREFIX] else []) @
     (if l_generation l > 0 then GENERATION_PREFIX # encode_u64 (l_generation l) else [])"
  by (simp only: lock_option_bytes_def lock_to_bytes_def append_assoc append_Cons append_Nil
      length_append list.size drop_Suc_Cons add_Suc plus_nat.add_0 drop_append case_prod_beta) simp

lemma lock_loop_options:
  assumes "wf_lock l" "rest = [] \<or> hd rest \<notin> set lock_tags"
  shows "lock_parse_loop lock_fields_init (lock_option_bytes l @ rest) = Ok (lock_fields_of l)"
proof -
  have wf: "\<And>v. l_short_value l = Some v \<Longrightarrow> is_short_value v"
    "(length (l_rollback_ts l) + 1) * 8 \<le> ISIZE_MAX"
    "if l_use_async_commit l
     then length (l_secondaries l) < 2 ^ 64 \<and> list_all (\<lambda>k. length k < 2 ^ 64) (l_secondaries l)
     else l_secondaries l = []"
    using assms(1) by (auto simp: wf_lock_def)
  show ?thesis
    unfolding lock_option_bytes_eq append_assoc
    by (simp only: lock_segments(1) [OF _ wf(1)] lock_segments(2-7)
        lock_list_segments(1) [OF _ _ wf(3)] lock_list_segments(2) [OF _ wf(2)]
        lock_list_segments(3) lock_fields_init_def lock_fields.simps
        lock_loop_stop [OF assms(2)] lock_fields_of_def simp_thms)
qed

lemma lock_parse_to_bytes_append:
  assumes "wf_lock l" "rest = [] \<or> hd rest \<notin> set lock_tags"
  shows "lock_parse (lock_to_bytes l @ rest) = Ok l"
proof (cases "lock_option_bytes l @ rest = []")
  case False
  have "wf_last_change (l_last_change l)" using assms(1) by (simp add: wf_lock_def)
  moreover have "length (l_primary l) < 2 ^ 64" using assms(1) by (simp add: wf_lock_def)
  ultimately show ?thesis
    using False assms(1) lock_loop_options [OF assms]
    by (cases l) (auto simp: lock_parse_def lock_to_bytes_split codec_simps
        decode_encode_compact_bytes lock_fields_of_def from_to_parts Let_def wf_lock_def
        lock_new_def lock_set_last_change_def lock_set_txn_source_def lock_with_rollback_ts_def
        lock_with_generation_def lock_use_async_commit_def)
next
  case True
  then have o: "lock_option_bytes l = []" "rest = []" by auto
  have "lock_fields_of l = lock_fields_init"
    using lock_loop_options [OF assms] True by simp
  moreover have "wf_last_change (l_last_change l)" "length (l_primary l) < 2 ^ 64"
    using assms(1) by (simp_all add: wf_lock_def)
  ultimately show ?thesis
    using o assms(1) decode_encode_var_u64 [of "l_ttl l" "[]"]
    by (cases l; cases "l_last_change l")
      (auto simp: lock_parse_def lock_to_bytes_split codec_simps decode_encode_compact_bytes
        lock_fields_of_def lock_fields_init_def wf_lock_def lock_new_def wf_last_change_def)
qed

section \<open>Size of the format\<close>

lemma length_encode_var_u64_10: "length (encode_var_u64 v) \<le> 10"
  using length_encode_var_u64 [of 10 v] unsigned_less [of v, where 'a = nat] by simp

lemma length_encode_compact_bytes: "length (encode_compact_bytes k) \<le> 10 + length k"
  using length_encode_var_u64_10
  by (simp add: encode_compact_bytes_def encode_var_i64_def Let_def)

lemma length_concat_encode_compact:
  "length (concat (map encode_compact_bytes ks)) \<le> sum_list (map (\<lambda>k. 10 + length k) ks)"
proof (induction ks)
  case (Cons k ks)
  then show ?case using length_encode_compact_bytes [of k] by simp
qed simp

lemma length_concat_encode_u64: "length (concat (map encode_u64 ts)) = 8 * length ts"
  by (induction ts) auto

lemma lock_to_bytes_fits: "length (lock_to_bytes l) \<le> lock_pre_allocate_size l"
proof -
  have seg: "length (if c then a # b else []) \<le> (if c then n else 0)"
    if "c \<Longrightarrow> Suc (length b) \<le> n" for c and a :: u8 and b n using that by simp
  have opt: "length (lock_option_bytes l) \<le>
     (case l_short_value l of None \<Rightarrow> 0 | Some v \<Rightarrow> 2 + length v) +
     (if \<not> is_zero (l_for_update_ts l) then 1 + 8 else 0) +
     (if l_txn_size l > 0 then 1 + 8 else 0) +
     (if \<not> is_zero (l_min_commit_ts l) then 1 + 8 else 0) +
     (if l_use_async_commit l
      then 1 + 10 + sum_list (map (\<lambda>k. 10 + length k) (l_secondaries l)) else 0) +
     (if l_rollback_ts l \<noteq> [] then 1 + 10 + 8 * length (l_rollback_ts l) else 0) +
     (if l_last_change l \<noteq> LC_Unknown then 1 + 8 + 10 else 0) +
     (if l_txn_source l \<noteq> 0 then 1 + 10 else 0) +
     (if l_is_locked_with_conflict l then 1 else 0) +
     (if l_generation l > 0 then 1 + 8 else 0)"
    unfolding lock_option_bytes_eq length_append add.assoc
    using length_encode_var_u64_10 length_concat_encode_compact [of "l_secondaries l"]
    by (intro add_mono seg order_refl; simp add: add_mono length_concat_encode_u64 add.assoc
        del: length_concat split: option.split)
  show ?thesis
    unfolding lock_to_bytes_split lock_pre_allocate_size_def MAX_VAR_LEN_def
    using opt length_encode_compact_bytes [of "l_primary l"]
      length_encode_var_u64_10 [of "l_ts l"] length_encode_var_u64_10 [of "l_ttl l"]
    by simp
qed

section \<open>Which locks block a read\<close>

lemma check_ts_conflict_si_Ok:
  assumes "key = from_raw raw"
  shows "check_ts_conflict_si l key ts bypass replica = Ok () \<longleftrightarrow>
    l_ts l > ts \<or> l_type l = LT_Lock \<or> l_type l = LT_Pessimistic \<or> l_min_commit_ts l > ts \<or>
    ts_set_contains bypass (l_ts l) \<or>
    ts = ts_max \<and> \<not> replica \<and> raw = l_primary l \<and> \<not> l_use_async_commit l \<and> \<not> l_use_one_pc l"
  using assms by (auto simp: check_ts_conflict_si_def is_pessimistic_lock_def)

lemma check_ts_conflict_si_blocked:
  assumes "key = from_raw raw" "check_ts_conflict_si l key ts bypass replica \<noteq> Ok ()"
  shows "check_ts_conflict_si l key ts bypass replica =
    Err (TE_KeyIsLocked (into_lock_info l raw))"
  using assms by (auto simp: check_ts_conflict_si_def split: if_splits)

section \<open>Properties of lock records\<close>



text \<open>
  Under snapshot isolation a read at \<open>ts\<close> passes a lock exactly when the lock is newer, only
  protects a key, must commit later, is bypassed, or is the primary of a plain two-phase
  transaction met by a read of the latest version on the leader; every other lock is reported to
  the client.
\<close>

theorem snapshot_read_blocked_iff:
  "check_ts_conflict_si l (from_raw raw) ts bypass replica =
     (if l_ts l > ts \<or> l_type l = LT_Lock \<or> l_type l = LT_Pessimistic \<or> l_min_commit_ts l > ts \<or>
         ts_set_contains bypass (l_ts l) \<or>
         ts = ts_max \<and> \<not> replica \<and> raw = l_primary l \<and> \<not> l_use_async_commit l \<and> \<not> l_use_one_pc l
      then Ok () else Err (TE_KeyIsLocked (into_lock_info l raw)))"
  using check_ts_conflict_si_Ok [OF refl] check_ts_conflict_si_blocked [OF refl] by simp

end
