(* ===== verification/TxnWrite.thy ===== *)
theory TxnWrite
  imports TxnLock
begin

text \<open>
  The commit and rollback record of \<open>components/txn_types/src/write.rs\<close> and its tagged binary
  format. \<open>Write\<close> and its borrowed form \<open>WriteRef\<close> have the same fields and are one record here.
\<close>

section \<open>Records\<close>

datatype write_type = WT_Put | WT_Delete | WT_Lock | WT_Rollback

definition WRITE_FLAG_PUT :: u8 where "WRITE_FLAG_PUT = 0x50"
definition WRITE_FLAG_DELETE :: u8 where "WRITE_FLAG_DELETE = 0x44"
definition WRITE_FLAG_LOCK :: u8 where "WRITE_FLAG_LOCK = 0x4c"
definition WRITE_FLAG_ROLLBACK :: u8 where "WRITE_FLAG_ROLLBACK = 0x52"
definition FLAG_OVERLAPPED_ROLLBACK :: u8 where "FLAG_OVERLAPPED_ROLLBACK = 0x52"
definition GC_FENCE_PREFIX :: u8 where "GC_FENCE_PREFIX = 0x46"
definition WRITE_LAST_CHANGE_PREFIX :: u8 where "WRITE_LAST_CHANGE_PREFIX = 0x6c"
definition WRITE_TXN_SOURCE_PREFIX :: u8 where "WRITE_TXN_SOURCE_PREFIX = 0x53"
definition PROTECTED_ROLLBACK_SHORT_VALUE :: bytes where "PROTECTED_ROLLBACK_SHORT_VALUE = [0x70]"

lemmas write_prefix_defs =
  WRITE_FLAG_PUT_def WRITE_FLAG_DELETE_def WRITE_FLAG_LOCK_def WRITE_FLAG_ROLLBACK_def
  FLAG_OVERLAPPED_ROLLBACK_def GC_FENCE_PREFIX_def WRITE_LAST_CHANGE_PREFIX_def
  WRITE_TXN_SOURCE_PREFIX_def SHORT_VALUE_PREFIX_def

fun write_type_from_lock_type :: "lock_type \<Rightarrow> write_type option" where
  "write_type_from_lock_type LT_Put = Some WT_Put"
| "write_type_from_lock_type LT_Delete = Some WT_Delete"
| "write_type_from_lock_type LT_Lock = Some WT_Lock"
| "write_type_from_lock_type LT_Pessimistic = None"

definition write_type_from_u8 :: "u8 \<Rightarrow> write_type option" where
  "write_type_from_u8 b =
     (if b = WRITE_FLAG_PUT then Some WT_Put
      else if b = WRITE_FLAG_DELETE then Some WT_Delete
      else if b = WRITE_FLAG_LOCK then Some WT_Lock
      else if b = WRITE_FLAG_ROLLBACK then Some WT_Rollback
      else None)"

fun write_type_to_u8 :: "write_type \<Rightarrow> u8" where
  "write_type_to_u8 WT_Put = WRITE_FLAG_PUT"
| "write_type_to_u8 WT_Delete = WRITE_FLAG_DELETE"
| "write_type_to_u8 WT_Lock = WRITE_FLAG_LOCK"
| "write_type_to_u8 WT_Rollback = WRITE_FLAG_ROLLBACK"

record "write" =
  w_type :: write_type
  w_start_ts :: TimeStamp
  w_short_value :: "Value option"
  w_has_overlapped_rollback :: bool
  w_gc_fence :: "TimeStamp option"
  w_last_change :: last_change
  w_txn_source :: u64

definition write_new :: "write_type \<Rightarrow> TimeStamp \<Rightarrow> Value option \<Rightarrow> write" where
  "write_new tp start_ts short_value =
     \<lparr> w_type = tp, w_start_ts = start_ts, w_short_value = short_value,
       w_has_overlapped_rollback = False, w_gc_fence = None, w_last_change = LC_Unknown,
       w_txn_source = 0 \<rparr>"

definition new_rollback :: "TimeStamp \<Rightarrow> bool \<Rightarrow> write" where
  "new_rollback start_ts protected =
     \<lparr> w_type = WT_Rollback, w_start_ts = start_ts,
       w_short_value = (if protected then Some PROTECTED_ROLLBACK_SHORT_VALUE else None),
       w_has_overlapped_rollback = False, w_gc_fence = None, w_last_change = LC_Unknown,
       w_txn_source = 0 \<rparr>"

definition set_overlapped_rollback :: "write \<Rightarrow> bool \<Rightarrow> TimeStamp option \<Rightarrow> write" where
  "set_overlapped_rollback w flag gc_fence =
     w\<lparr>w_has_overlapped_rollback := flag, w_gc_fence := gc_fence\<rparr>"

definition write_set_last_change :: "write \<Rightarrow> last_change \<Rightarrow> write" where
  "write_set_last_change w lc = w\<lparr>w_last_change := lc\<rparr>"

definition write_set_txn_source :: "write \<Rightarrow> u64 \<Rightarrow> write" where
  "write_set_txn_source w source = w\<lparr>w_txn_source := source\<rparr>"

section \<open>Binary format\<close>

definition write_parse_type :: "bytes \<Rightarrow> (txn_error, write_type) result" where
  "write_parse_type b =
     rbind (map_error (\<lambda>_. BadFormatWrite) (read_u8 b)) (\<lambda>(tag, _).
       case write_type_from_u8 tag of None \<Rightarrow> Err BadFormatWrite | Some tp \<Rightarrow> Ok tp)"

definition write_to_bytes :: "write \<Rightarrow> bytes" where
  "write_to_bytes w =
     [write_type_to_u8 (w_type w)] @
     encode_var_u64 (w_start_ts w) @
     (case w_short_value w of None \<Rightarrow> []
      | Some v \<Rightarrow> [SHORT_VALUE_PREFIX] @ [of_nat (length v)] @ v) @
     (if w_has_overlapped_rollback w then [FLAG_OVERLAPPED_ROLLBACK] else []) @
     (case w_gc_fence w of None \<Rightarrow> [] | Some ts \<Rightarrow> [GC_FENCE_PREFIX] @ encode_u64 ts) @
     (if w_last_change w \<noteq> LC_Unknown
      then case to_parts (w_last_change w) of (last_change_ts, versions) \<Rightarrow>
        [WRITE_LAST_CHANGE_PREFIX] @ encode_u64 last_change_ts @ encode_var_u64 versions else []) @
     (if w_txn_source w \<noteq> 0
      then [WRITE_TXN_SOURCE_PREFIX] @ encode_var_u64 (w_txn_source w) else [])"

definition write_pre_allocate_size :: "write \<Rightarrow> nat" where
  "write_pre_allocate_size w =
     1 + MAX_VAR_LEN + (if w_has_overlapped_rollback w then 1 else 0) +
     (case w_short_value w of None \<Rightarrow> 0 | Some v \<Rightarrow> 2 + length v) +
     (if w_gc_fence w \<noteq> None then 1 + 8 else 0) +
     (if w_last_change w \<noteq> LC_Unknown then 1 + 8 + MAX_VAR_LEN else 0) +
     (if w_txn_source w \<noteq> 0 then 1 + MAX_VAR_LEN else 0)"

record write_fields =
  g_short_value :: "Value option"
  g_has_overlapped_rollback :: bool
  g_gc_fence :: "TimeStamp option"
  g_last_change_ts :: TimeStamp
  g_versions :: u64
  g_txn_source :: u64

definition write_fields_init :: write_fields where
  "write_fields_init =
     \<lparr> g_short_value = None, g_has_overlapped_rollback = False, g_gc_fence = None,
       g_last_change_ts = 0, g_versions = 0, g_txn_source = 0 \<rparr>"

definition write_parse_field ::
    "write_fields \<Rightarrow> u8 \<Rightarrow> bytes \<Rightarrow> (txn_error, (write_fields \<times> bytes) option) result" where
  "write_parse_field f tag b =
     (if tag = SHORT_VALUE_PREFIX then
        rbind (map_error (\<lambda>_. BadFormatWrite) (read_u8 b)) (\<lambda>(len, b).
          if length b < unat len then Panic
          else Ok (Some (f\<lparr>g_short_value := Some (take (unat len) b)\<rparr>, drop (unat len) b)))
      else if tag = FLAG_OVERLAPPED_ROLLBACK then
        Ok (Some (f\<lparr>g_has_overlapped_rollback := True\<rparr>, b))
      else if tag = GC_FENCE_PREFIX then
        rbind (from_codec (decode_u64 b)) (\<lambda>(v, b). Ok (Some (f\<lparr>g_gc_fence := Some v\<rparr>, b)))
      else if tag = WRITE_LAST_CHANGE_PREFIX then
        rbind (from_codec (decode_u64 b)) (\<lambda>(ts, b).
        rbind (from_codec (decode_var_u64 b)) (\<lambda>(versions, b).
          Ok (Some (f\<lparr>g_last_change_ts := ts, g_versions := versions\<rparr>, b))))
      else if tag = WRITE_TXN_SOURCE_PREFIX then
        rbind (from_codec (decode_var_u64 b)) (\<lambda>(v, b). Ok (Some (f\<lparr>g_txn_source := v\<rparr>, b)))
      else Ok None)"

lemma write_parse_field_rest:
  "write_parse_field f tag b = Ok (Some (f', r)) \<Longrightarrow> length r \<le> length b"
  by (cases b; auto simp: write_parse_field_def split: if_splits
      dest!: decoder_rests elim: order_trans)

function write_parse_loop :: "write_fields \<Rightarrow> bytes \<Rightarrow> (txn_error, write_fields) result" where
  "write_parse_loop f [] = Ok f"
| "write_parse_loop f (tag # b) =
     rbind (write_parse_field f tag b) (\<lambda>r.
       case r of None \<Rightarrow> Ok f | Some (f', b') \<Rightarrow> write_parse_loop f' b')"
  by pat_completeness auto
termination
  by (relation "measure (\<lambda>(f, b). length b)") (auto dest: write_parse_field_rest)

definition write_parse :: "bytes \<Rightarrow> (txn_error, write) result" where
  "write_parse b =
     rbind (map_error (\<lambda>_. BadFormatWrite) (read_u8 b)) (\<lambda>(tag, b).
     rbind (case write_type_from_u8 tag of None \<Rightarrow> Err BadFormatWrite | Some tp \<Rightarrow> Ok tp) (\<lambda>tp.
     rbind (map_error (\<lambda>_. BadFormatWrite) (read_var_u64 b)) (\<lambda>(start_ts, b).
     rbind (write_parse_loop write_fields_init b) (\<lambda>f.
     rbind (from_parts (g_last_change_ts f) (g_versions f)) (\<lambda>lc.
       Ok \<lparr> w_type = tp, w_start_ts = start_ts, w_short_value = g_short_value f,
            w_has_overlapped_rollback = g_has_overlapped_rollback f,
            w_gc_fence = g_gc_fence f, w_last_change = lc, w_txn_source = g_txn_source f \<rparr>)))))"

section \<open>Queries\<close>

definition check_gc_fence_as_latest_version :: "write \<Rightarrow> TimeStamp \<Rightarrow> bool" where
  "check_gc_fence_as_latest_version w read_ts =
     (case w_gc_fence w of
        Some gc_fence_ts \<Rightarrow> if \<not> is_zero gc_fence_ts \<and> gc_fence_ts \<le> read_ts then False else True
      | None \<Rightarrow> True)"

definition is_protected :: "write \<Rightarrow> bool" where
  "is_protected w \<longleftrightarrow>
     w_type w = WT_Rollback \<and>
     (case w_short_value w of Some v \<Rightarrow> v = PROTECTED_ROLLBACK_SHORT_VALUE | None \<Rightarrow> False)"

section \<open>What can be stored\<close>

definition wf_write :: "write \<Rightarrow> bool" where
  "wf_write w \<longleftrightarrow>
     (case w_short_value w of None \<Rightarrow> True | Some v \<Rightarrow> is_short_value v) \<and>
     wf_last_change (w_last_change w)"

definition write_tags :: "u8 list" where
  "write_tags =
     [SHORT_VALUE_PREFIX, FLAG_OVERLAPPED_ROLLBACK, GC_FENCE_PREFIX, WRITE_LAST_CHANGE_PREFIX,
      WRITE_TXN_SOURCE_PREFIX]"

lemma write_type_from_to_u8 [simp]: "write_type_from_u8 (write_type_to_u8 tp) = Some tp"
  by (cases tp) (simp_all add: write_type_from_u8_def write_prefix_defs)

lemma write_loop_stop:
  "rest = [] \<or> hd rest \<notin> set write_tags \<Longrightarrow> write_parse_loop f rest = Ok f"
  by (cases rest) (auto simp: write_tags_def write_parse_field_def)

lemma write_loop_steps:
  "is_short_value v \<Longrightarrow>
   write_parse_loop f (SHORT_VALUE_PREFIX # of_nat (length v) # v @ r) =
   write_parse_loop (f\<lparr>g_short_value := Some v\<rparr>) r"
  "write_parse_loop f (FLAG_OVERLAPPED_ROLLBACK # r) =
   write_parse_loop (f\<lparr>g_has_overlapped_rollback := True\<rparr>) r"
  "write_parse_loop f (GC_FENCE_PREFIX # encode_u64 n @ r) =
   write_parse_loop (f\<lparr>g_gc_fence := Some n\<rparr>) r"
  "write_parse_loop f (WRITE_LAST_CHANGE_PREFIX # encode_u64 n @ encode_var_u64 m @ r) =
   write_parse_loop (f\<lparr>g_last_change_ts := n, g_versions := m\<rparr>) r"
  "write_parse_loop f (WRITE_TXN_SOURCE_PREFIX # encode_var_u64 n @ r) =
   write_parse_loop (f\<lparr>g_txn_source := n\<rparr>) r"
  by (simp_all add: write_parse_field_def codec_simps short_value_length)
    (simp_all add: write_prefix_defs)

lemma write_segments:
  "g_short_value f = None \<Longrightarrow> (\<And>v. sv = Some v \<Longrightarrow> is_short_value v) \<Longrightarrow>
   write_parse_loop f ((case sv of None \<Rightarrow> []
      | Some v \<Rightarrow> SHORT_VALUE_PREFIX # of_nat (length v) # v) @ r) =
   write_parse_loop (f\<lparr>g_short_value := sv\<rparr>) r"
  "\<not> g_has_overlapped_rollback f \<Longrightarrow>
   write_parse_loop f ((if c then [FLAG_OVERLAPPED_ROLLBACK] else []) @ r) =
   write_parse_loop (f\<lparr>g_has_overlapped_rollback := c\<rparr>) r"
  "g_gc_fence f = None \<Longrightarrow>
   write_parse_loop f ((case gf of None \<Rightarrow> [] | Some n \<Rightarrow> GC_FENCE_PREFIX # encode_u64 n) @ r) =
   write_parse_loop (f\<lparr>g_gc_fence := gf\<rparr>) r"
  "g_last_change_ts f = 0 \<Longrightarrow> g_versions f = 0 \<Longrightarrow>
   write_parse_loop f ((if lc \<noteq> LC_Unknown then WRITE_LAST_CHANGE_PREFIX #
      encode_u64 (fst (to_parts lc)) @ encode_var_u64 (snd (to_parts lc)) else []) @ r) =
   write_parse_loop (f\<lparr>g_last_change_ts := fst (to_parts lc), g_versions := snd (to_parts lc)\<rparr>) r"
  "g_txn_source f = 0 \<Longrightarrow>
   write_parse_loop f ((if n \<noteq> 0 then WRITE_TXN_SOURCE_PREFIX # encode_var_u64 n else []) @ r) =
   write_parse_loop (f\<lparr>g_txn_source := n\<rparr>) r"
  subgoal by (cases f; cases sv) (simp_all add: write_loop_steps del: write_parse_loop.simps)
  subgoal by (cases f; cases c) (simp_all add: write_loop_steps del: write_parse_loop.simps)
  subgoal by (cases f; cases gf) (simp_all add: write_loop_steps del: write_parse_loop.simps)
  subgoal by (cases f; cases lc) (simp_all add: write_loop_steps del: write_parse_loop.simps)
  subgoal by (cases f; cases "n = 0") (simp_all add: write_loop_steps del: write_parse_loop.simps)
  done

lemma write_parse_to_bytes_append:
  assumes "wf_write w" "rest = [] \<or> hd rest \<notin> set write_tags"
  shows "write_parse (write_to_bytes w @ rest) = Ok w"
proof -
  have sv: "\<And>v. w_short_value w = Some v \<Longrightarrow> is_short_value v"
    and lc: "wf_last_change (w_last_change w)"
    using assms(1) by (auto simp: wf_write_def)
  show ?thesis
    using lc
    by (simp only: write_parse_def write_to_bytes_def append_Cons append_Nil append_assoc
        read_u8.simps map_error.simps rbind.simps prod.case write_type_from_to_u8 option.case
        read_encode_var_u64 case_prod_beta prod.sel write_segments(1) [OF _ sv] write_segments(2-5)
        write_fields_init_def write_fields.simps write_loop_stop [OF assms(2)] simp_thms)
      (simp add: from_to_parts)
qed

lemma write_to_bytes_fits: "length (write_to_bytes w) \<le> write_pre_allocate_size w"
  using length_encode_var_u64_10 [of "w_start_ts w"] length_encode_var_u64_10 [of "w_txn_source w"]
    length_encode_var_u64_10 [of "snd (to_parts (w_last_change w))"]
  by (auto simp: write_to_bytes_def write_pre_allocate_size_def MAX_VAR_LEN_def case_prod_beta
      split: option.split)

lemma write_parse_to_bytes [simp]: "wf_write w \<Longrightarrow> write_parse (write_to_bytes w) = Ok w"
  using write_parse_to_bytes_append [of w "[]"] by simp

lemma lock_parse_to_bytes [simp]: "wf_lock l \<Longrightarrow> lock_parse (lock_to_bytes l) = Ok l"
  using lock_parse_to_bytes_append [of l "[]"] by simp

lemma wf_write_new [simp]:
  "wf_write (write_new tp s sv) \<longleftrightarrow> (case sv of None \<Rightarrow> True | Some v \<Rightarrow> is_short_value v)"
  by (simp add: wf_write_def write_new_def wf_last_change_def)

lemma wf_new_rollback [simp]: "wf_write (new_rollback s p)"
  by (simp add: wf_write_def new_rollback_def wf_last_change_def is_short_value_def
      PROTECTED_ROLLBACK_SHORT_VALUE_def SHORT_VALUE_MAX_LEN_def)

section \<open>Properties of write records\<close>

text \<open>
  C29: A stored write record is parsed back field for field, also when bytes of a newer version
  follow it, and the vector allocated in advance is always long enough.
\<close>

theorem write_roundtrip:
  assumes "wf_write w" "rest = [] \<or> hd rest \<notin> set write_tags"
  shows "write_parse (write_to_bytes w @ rest) = Ok w \<and>
    length (write_to_bytes w) \<le> write_pre_allocate_size w"
  using write_parse_to_bytes_append [OF assms] write_to_bytes_fits by blast

theorem write_roundtrip_witness:
  "let w = set_overlapped_rollback (write_new WT_Put 5 (Some [118])) True (Some 8)
   in write_parse (write_to_bytes w @ [0]) = Ok w \<and>
      length (write_to_bytes w) \<le> write_pre_allocate_size w"
  unfolding Let_def
  by (rule write_roundtrip)
    (simp_all add: wf_write_def write_new_def set_overlapped_rollback_def is_short_value_def
      SHORT_VALUE_MAX_LEN_def wf_last_change_def write_tags_def write_prefix_defs)

end
