(* ===== verification/KvEngine.thy ===== *)
theory KvEngine
  imports TxnWrite
begin

text \<open>
  The storage engine of \<open>components/tikv_kv/src\<close>: the modifications a command hands to the
  engine (\<open>lib.rs\<close>), the in-memory engine over one ordered map per column family with its
  snapshot and its iterator (\<open>btree_engine.rs\<close>), and the cursor that moves an iterator to a
  nearby key (\<open>cursor.rs\<close>). A \<open>BTreeMap\<close> is the list of its entries in ascending key order.
  The statistics a cursor collects are reduced to the number of \<open>next\<close> steps.
\<close>

section \<open>Ordered maps\<close>

type_synonym 'v tree = "(Key \<times> 'v) list"

fun tree_insert :: "Key \<Rightarrow> 'v \<Rightarrow> 'v tree \<Rightarrow> 'v tree" where
  "tree_insert k v [] = [(k, v)]"
| "tree_insert k v ((k', v') # t) =
     (if k < k' then (k, v) # (k', v') # t
      else if k = k' then (k, v) # t
      else (k', v') # tree_insert k v t)"

fun tree_remove :: "Key \<Rightarrow> 'v tree \<Rightarrow> 'v tree" where
  "tree_remove k [] = []"
| "tree_remove k ((k', v') # t) = (if k = k' then t else (k', v') # tree_remove k t)"

definition tree_get :: "'v tree \<Rightarrow> Key \<Rightarrow> 'v option" where
  "tree_get t k = map_of t k"

datatype bound = Included Key | Excluded Key | Unbounded

fun above_lower :: "bound \<Rightarrow> Key \<Rightarrow> bool" where
  "above_lower (Included b) k = (b \<le> k)"
| "above_lower (Excluded b) k = (b < k)"
| "above_lower Unbounded k = True"

fun below_upper :: "bound \<Rightarrow> Key \<Rightarrow> bool" where
  "below_upper (Included b) k = (k \<le> b)"
| "below_upper (Excluded b) k = (k < b)"
| "below_upper Unbounded k = True"

text \<open>A range whose start lies behind its end is a panic of the standard library.\<close>

fun range_inverted :: "bound \<times> bound \<Rightarrow> bool" where
  "range_inverted (Excluded s, Excluded e) = (s \<ge> e)"
| "range_inverted (Included s, Included e) = (s > e)"
| "range_inverted (Included s, Excluded e) = (s > e)"
| "range_inverted (Excluded s, Included e) = (s > e)"
| "range_inverted _ = False"

definition tree_range :: "'v tree \<Rightarrow> bound \<times> bound \<Rightarrow> ('e, (Key \<times> 'v) list) result" where
  "tree_range t rng =
     (if range_inverted rng then Panic
      else Ok (filter (\<lambda>(k, v). above_lower (fst rng) k \<and> below_upper (snd rng) k) t))"

section \<open>Modifications\<close>

datatype cf = CF_DEFAULT | CF_LOCK | CF_WRITE

fun cf_len :: "cf \<Rightarrow> nat" where
  "cf_len CF_DEFAULT = 7"
| "cf_len CF_LOCK = 4"
| "cf_len CF_WRITE = 5"

datatype modify =
    Delete cf Key
  | Put cf Key Value
  | PessimisticLockPut Key pessimistic_lock
  | DeleteRange cf Key Key bool
  | Ingest

fun modify_size :: "modify \<Rightarrow> ('e, nat) result" where
  "modify_size (Delete cf k) = Ok ((if cf = CF_DEFAULT then 0 else cf_len cf) + length k)"
| "modify_size (Put cf k v) =
     Ok ((if cf = CF_DEFAULT then 0 else cf_len cf) + length k + length v)"
| "modify_size (PessimisticLockPut k l) = Ok (cf_len CF_LOCK + length k)"
| "modify_size (DeleteRange _ _ _ _) = Panic"
| "modify_size Ingest = Panic"

fun modify_key :: "modify \<Rightarrow> ('e, Key) result" where
  "modify_key (Delete cf k) = Ok k"
| "modify_key (Put cf k v) = Ok k"
| "modify_key (PessimisticLockPut k l) = Ok k"
| "modify_key (DeleteRange _ _ _ _) = Panic"
| "modify_key Ingest = Panic"

section \<open>The in-memory engine\<close>

record engine =
  e_default :: "Value tree"
  e_lock :: "Value tree"
  e_write :: "Value tree"

definition engine_new :: engine where
  "engine_new = \<lparr> e_default = [], e_lock = [], e_write = [] \<rparr>"

fun get_cf_tree :: "engine \<Rightarrow> cf \<Rightarrow> Value tree" where
  "get_cf_tree e CF_DEFAULT = e_default e"
| "get_cf_tree e CF_LOCK = e_lock e"
| "get_cf_tree e CF_WRITE = e_write e"

fun set_cf_tree :: "engine \<Rightarrow> cf \<Rightarrow> Value tree \<Rightarrow> engine" where
  "set_cf_tree e CF_DEFAULT t = e\<lparr>e_default := t\<rparr>"
| "set_cf_tree e CF_LOCK t = e\<lparr>e_lock := t\<rparr>"
| "set_cf_tree e CF_WRITE t = e\<lparr>e_write := t\<rparr>"

fun write_modify :: "engine \<Rightarrow> modify \<Rightarrow> ('e, engine) result" where
  "write_modify e (Delete cf k) = Ok (set_cf_tree e cf (tree_remove k (get_cf_tree e cf)))"
| "write_modify e (Put cf k v) = Ok (set_cf_tree e cf (tree_insert k v (get_cf_tree e cf)))"
| "write_modify e (PessimisticLockPut k lock) =
     Ok (set_cf_tree e CF_LOCK
       (tree_insert k (lock_to_bytes (pessimistic_to_lock lock)) (get_cf_tree e CF_LOCK)))"
| "write_modify e (DeleteRange _ _ _ _) = Panic"
| "write_modify e Ingest = Panic"

fun write_modifies :: "engine \<Rightarrow> modify list \<Rightarrow> ('e, engine) result" where
  "write_modifies e [] = Ok e"
| "write_modifies e (m # ms) = rbind (write_modify e m) (\<lambda>e'. write_modifies e' ms)"

definition get_cf :: "engine \<Rightarrow> cf \<Rightarrow> Key \<Rightarrow> Value option" where
  "get_cf e cf k = tree_get (get_cf_tree e cf) k"

section \<open>The iterator\<close>

record engine_iter =
  it_cur_key :: "Key option"
  it_cur_value :: "Value option"
  it_valid :: bool
  it_bounds :: "bound \<times> bound"

definition iter_new :: "bytes option \<Rightarrow> bytes option \<Rightarrow> engine_iter" where
  "iter_new lower upper =
     \<lparr> it_cur_key = None, it_cur_value = None, it_valid = False,
       it_bounds = ((case lower of None \<Rightarrow> Unbounded | Some k \<Rightarrow> Included (from_raw k)),
                    (case upper of None \<Rightarrow> Unbounded | Some k \<Rightarrow> Excluded (from_raw k))) \<rparr>"

definition in_bounds :: "bound \<times> bound \<Rightarrow> Key \<Rightarrow> bool" where
  "in_bounds b k \<longleftrightarrow> above_lower (fst b) k \<and> below_upper (snd b) k"

definition seek_to_range_endpoint ::
    "Value tree \<Rightarrow> engine_iter \<Rightarrow> bound \<times> bound \<Rightarrow> bool \<Rightarrow> ('e, bool \<times> engine_iter) result" where
  "seek_to_range_endpoint t it rng left =
     rbind (tree_range t rng) (\<lambda>entries.
       let item = (if entries = [] then None
                   else Some (if left then hd entries else last entries));
           it' = (case item of
               Some (k, v) \<Rightarrow>
                 if in_bounds (it_bounds it) k
                 then it\<lparr>it_cur_key := Some k, it_cur_value := Some v, it_valid := True\<rparr>
                 else it\<lparr>it_valid := False\<rparr>
             | None \<Rightarrow> it\<lparr>it_valid := False\<rparr>)
       in Ok (it_valid it', it'))"

definition iter_next :: "Value tree \<Rightarrow> engine_iter \<Rightarrow> ('e, bool \<times> engine_iter) result" where
  "iter_next t it =
     (case it_cur_key it of None \<Rightarrow> Panic
      | Some k \<Rightarrow> seek_to_range_endpoint t it (Excluded k, Unbounded) True)"

definition iter_prev :: "Value tree \<Rightarrow> engine_iter \<Rightarrow> ('e, bool \<times> engine_iter) result" where
  "iter_prev t it =
     (case it_cur_key it of None \<Rightarrow> Panic
      | Some k \<Rightarrow> seek_to_range_endpoint t it (Unbounded, Excluded k) False)"

definition iter_seek :: "Value tree \<Rightarrow> engine_iter \<Rightarrow> Key \<Rightarrow> ('e, bool \<times> engine_iter) result" where
  "iter_seek t it key = seek_to_range_endpoint t it (Included key, Unbounded) True"

definition iter_seek_for_prev ::
    "Value tree \<Rightarrow> engine_iter \<Rightarrow> Key \<Rightarrow> ('e, bool \<times> engine_iter) result" where
  "iter_seek_for_prev t it key = seek_to_range_endpoint t it (Unbounded, Included key) False"

definition iter_seek_to_first :: "Value tree \<Rightarrow> engine_iter \<Rightarrow> ('e, bool \<times> engine_iter) result" where
  "iter_seek_to_first t it = seek_to_range_endpoint t it (it_bounds it) True"

definition iter_seek_to_last :: "Value tree \<Rightarrow> engine_iter \<Rightarrow> ('e, bool \<times> engine_iter) result" where
  "iter_seek_to_last t it = seek_to_range_endpoint t it (it_bounds it) False"

definition iter_key :: "engine_iter \<Rightarrow> ('e, Key) result" where
  "iter_key it =
     (if it_valid it then case it_cur_key it of Some k \<Rightarrow> Ok k | None \<Rightarrow> Panic else Panic)"

definition iter_value :: "engine_iter \<Rightarrow> ('e, Value) result" where
  "iter_value it =
     (if it_valid it then case it_cur_value it of Some v \<Rightarrow> Ok v | None \<Rightarrow> Panic else Panic)"

section \<open>The cursor\<close>

datatype scan_mode = Forward | Backward | Mixed

definition SEEK_BOUND :: nat where "SEEK_BOUND = 8"

record cursor =
  c_iter :: engine_iter
  c_scan_mode :: scan_mode
  c_prefix_seek :: bool
  c_min_key :: "Key option"
  c_max_key :: "Key option"
  c_next :: nat

type_synonym 'e moved = "('e, bool \<times> cursor) result"

definition cursor_new :: "engine_iter \<Rightarrow> scan_mode \<Rightarrow> bool \<Rightarrow> cursor" where
  "cursor_new it mode prefix_seek =
     \<lparr> c_iter = it, c_scan_mode = mode, c_prefix_seek = prefix_seek, c_min_key = None,
       c_max_key = None, c_next = 0 \<rparr>"

definition cursor_moved :: "cursor \<Rightarrow> ('e, bool \<times> engine_iter) result \<Rightarrow> 'e moved" where
  "cursor_moved c r = rbind r (\<lambda>(b, it). Ok (b, c\<lparr>c_iter := it\<rparr>))"

definition cursor_key :: "cursor \<Rightarrow> ('e, Key) result" where
  "cursor_key c = iter_key (c_iter c)"

definition cursor_value :: "cursor \<Rightarrow> ('e, Value) result" where
  "cursor_value c = iter_value (c_iter c)"

definition cursor_valid :: "cursor \<Rightarrow> bool" where
  "cursor_valid c = it_valid (c_iter c)"

definition cursor_next :: "Value tree \<Rightarrow> cursor \<Rightarrow> 'e moved" where
  "cursor_next t c = cursor_moved (c\<lparr>c_next := Suc (c_next c)\<rparr>) (iter_next t (c_iter c))"

definition cursor_prev :: "Value tree \<Rightarrow> cursor \<Rightarrow> 'e moved" where
  "cursor_prev t c = cursor_moved c (iter_prev t (c_iter c))"

definition cursor_seek_to_first :: "Value tree \<Rightarrow> cursor \<Rightarrow> 'e moved" where
  "cursor_seek_to_first t c =
     (if c_prefix_seek c then Panic else cursor_moved c (iter_seek_to_first t (c_iter c)))"

definition cursor_seek_to_last :: "Value tree \<Rightarrow> cursor \<Rightarrow> 'e moved" where
  "cursor_seek_to_last t c =
     (if c_prefix_seek c then Panic else cursor_moved c (iter_seek_to_last t (c_iter c)))"

definition internal_seek :: "Value tree \<Rightarrow> cursor \<Rightarrow> Key \<Rightarrow> 'e moved" where
  "internal_seek t c key = cursor_moved c (iter_seek t (c_iter c) key)"

definition internal_seek_for_prev :: "Value tree \<Rightarrow> cursor \<Rightarrow> Key \<Rightarrow> 'e moved" where
  "internal_seek_for_prev t c key = cursor_moved c (iter_seek_for_prev t (c_iter c) key)"

definition cursor_seek :: "Value tree \<Rightarrow> cursor \<Rightarrow> Key \<Rightarrow> 'e moved" where
  "cursor_seek t c key =
     (if c_scan_mode c = Backward then Panic
      else if (case c_max_key c of Some k \<Rightarrow> k \<le> key | None \<Rightarrow> False) then Ok (False, c)
      else
        rbind (if c_scan_mode c = Forward \<and> cursor_valid c
               then rbind (cursor_key c) (\<lambda>cur. Ok (cur \<ge> key)) else Ok False) (\<lambda>reached.
          if reached then Ok (True, c)
          else rbind (internal_seek t c key) (\<lambda>(found, c').
            if \<not> found
            then Ok (False, if \<not> c_prefix_seek c' then c'\<lparr>c_max_key := Some key\<rparr> else c')
            else Ok (True, c'))))"

text \<open>
  The loops of \<open>near_loop!\<close>: \<open>k\<close> counts the turns that are left before the fallback. The result
  says whether the bound was reached.
\<close>

fun near_next_loop :: "nat \<Rightarrow> Value tree \<Rightarrow> cursor \<Rightarrow> Key \<Rightarrow> 'e moved" where
  "near_next_loop 0 t c key = Ok (True, c)"
| "near_next_loop (Suc k) t c key =
     rbind (cursor_next t c) (\<lambda>(ok, c').
       if ok then rbind (cursor_key c') (\<lambda>cur.
         if cur < key then near_next_loop k t c' key else Ok (False, c'))
       else Ok (False, c'))"

fun near_prev_loop :: "nat \<Rightarrow> Value tree \<Rightarrow> cursor \<Rightarrow> Key \<Rightarrow> 'e moved" where
  "near_prev_loop 0 t c key = Ok (True, c)"
| "near_prev_loop (Suc k) t c key =
     rbind (cursor_prev t c) (\<lambda>(ok, c').
       if ok then rbind (cursor_key c') (\<lambda>cur.
         if cur > key then near_prev_loop k t c' key else Ok (False, c'))
       else Ok (False, c'))"

definition near_seek_end :: "cursor \<Rightarrow> Key \<Rightarrow> 'e moved" where
  "near_seek_end c key =
     (if \<not> cursor_valid c
      then Ok (False, if \<not> c_prefix_seek c then c\<lparr>c_max_key := Some key\<rparr> else c)
      else Ok (True, c))"

definition near_seek :: "Value tree \<Rightarrow> cursor \<Rightarrow> Key \<Rightarrow> 'e moved" where
  "near_seek t c key =
     (if c_scan_mode c = Backward then Panic
      else if \<not> cursor_valid c then cursor_seek t c key
      else rbind (cursor_key c) (\<lambda>cur.
        if cur = key \<or> c_scan_mode c = Forward \<and> cur > key then Ok (True, c)
        else if (case c_max_key c of Some k \<Rightarrow> k \<le> key | None \<Rightarrow> False) then Ok (False, c)
        else if cur > key then
          rbind (near_prev_loop SEEK_BOUND t c key) (\<lambda>(over, c).
            if over then cursor_seek t c key
            else if cursor_valid c then
              rbind (cursor_key c) (\<lambda>cur.
                if cur < key then rbind (cursor_next t c) (\<lambda>(_, c). near_seek_end c key)
                else near_seek_end c key)
            else if c_prefix_seek c then cursor_seek t c key
            else rbind (cursor_seek_to_first t c) (\<lambda>(ok, c). if ok then Ok (True, c) else Panic))
        else
          rbind (near_next_loop SEEK_BOUND t c key) (\<lambda>(over, c).
            if over then cursor_seek t c key else near_seek_end c key)))"

definition cursor_seek_for_prev :: "Value tree \<Rightarrow> cursor \<Rightarrow> Key \<Rightarrow> 'e moved" where
  "cursor_seek_for_prev t c key =
     (if c_scan_mode c = Forward then Panic
      else if (case c_min_key c of Some k \<Rightarrow> k \<ge> key | None \<Rightarrow> False) then Ok (False, c)
      else
        rbind (if c_scan_mode c = Backward \<and> cursor_valid c
               then rbind (cursor_key c) (\<lambda>cur. Ok (cur \<le> key)) else Ok False) (\<lambda>reached.
          if reached then Ok (True, c)
          else rbind (internal_seek_for_prev t c key) (\<lambda>(found, c').
            if \<not> found
            then Ok (False, if \<not> c_prefix_seek c' then c'\<lparr>c_min_key := Some key\<rparr> else c')
            else Ok (True, c'))))"

definition near_seek_for_prev_end :: "cursor \<Rightarrow> Key \<Rightarrow> 'e moved" where
  "near_seek_for_prev_end c key =
     (if \<not> cursor_valid c
      then Ok (False, if \<not> c_prefix_seek c then c\<lparr>c_min_key := Some key\<rparr> else c)
      else Ok (True, c))"

definition near_seek_for_prev :: "Value tree \<Rightarrow> cursor \<Rightarrow> Key \<Rightarrow> 'e moved" where
  "near_seek_for_prev t c key =
     (if c_scan_mode c = Forward then Panic
      else if \<not> cursor_valid c then cursor_seek_for_prev t c key
      else rbind (cursor_key c) (\<lambda>cur.
        if cur = key \<or> c_scan_mode c = Backward \<and> cur < key then Ok (True, c)
        else if (case c_min_key c of Some k \<Rightarrow> k \<ge> key | None \<Rightarrow> False) then Ok (False, c)
        else if cur < key then
          rbind (near_next_loop SEEK_BOUND t c key) (\<lambda>(over, c).
            if over then cursor_seek_for_prev t c key
            else if cursor_valid c then
              rbind (cursor_key c) (\<lambda>cur.
                if cur > key then rbind (cursor_prev t c) (\<lambda>(_, c). near_seek_for_prev_end c key)
                else near_seek_for_prev_end c key)
            else if c_prefix_seek c then cursor_seek_for_prev t c key
            else rbind (cursor_seek_to_last t c) (\<lambda>(ok, c). if ok then Ok (True, c) else Panic))
        else
          rbind (near_prev_loop SEEK_BOUND t c key) (\<lambda>(over, c).
            if over then cursor_seek_for_prev t c key else near_seek_for_prev_end c key)))"

definition cursor_get :: "Value tree \<Rightarrow> cursor \<Rightarrow> Key \<Rightarrow> ('e, Value option \<times> cursor) result" where
  "cursor_get t c key =
     rbind (if c_scan_mode c \<noteq> Backward then near_seek t c key else near_seek_for_prev t c key)
       (\<lambda>(found, c).
         if \<not> found then Ok (None, c)
         else rbind (cursor_key c) (\<lambda>cur.
           if cur = key then rbind (cursor_value c) (\<lambda>v. Ok (Some v, c)) else Ok (None, c)))"

definition reverse_seek :: "Value tree \<Rightarrow> cursor \<Rightarrow> Key \<Rightarrow> 'e moved" where
  "reverse_seek t c key =
     rbind (cursor_seek_for_prev t c key) (\<lambda>(found, c).
       if \<not> found then Ok (False, c)
       else rbind (cursor_key c) (\<lambda>cur. if cur = key then cursor_prev t c else Ok (True, c)))"

definition near_reverse_seek :: "Value tree \<Rightarrow> cursor \<Rightarrow> Key \<Rightarrow> 'e moved" where
  "near_reverse_seek t c key =
     rbind (near_seek_for_prev t c key) (\<lambda>(found, c).
       if \<not> found then Ok (False, c)
       else rbind (cursor_key c) (\<lambda>cur. if cur = key then cursor_prev t c else Ok (True, c)))"

section \<open>Interface: an ordered map with seek\<close>

locale ordered_map =
  fixes get :: "'m \<Rightarrow> Key \<Rightarrow> 'v option"
    and insert :: "Key \<Rightarrow> 'v \<Rightarrow> 'm \<Rightarrow> 'm"
    and remove :: "Key \<Rightarrow> 'm \<Rightarrow> 'm"
    and seek :: "'m \<Rightarrow> Key \<Rightarrow> (Key \<times> 'v) option"
    and invar :: "'m \<Rightarrow> bool"
  assumes invar_insert: "invar m \<Longrightarrow> invar (insert k v m)"
    and invar_remove: "invar m \<Longrightarrow> invar (remove k m)"
    and get_insert: "invar m \<Longrightarrow> get (insert k v m) k' = (if k' = k then Some v else get m k')"
    and get_remove: "invar m \<Longrightarrow> get (remove k m) k' = (if k' = k then None else get m k')"
    and seek_Some: "invar m \<Longrightarrow> seek m k = Some (k', v) \<longleftrightarrow>
      get m k' = Some v \<and> k \<le> k' \<and> (\<forall>j. k \<le> j \<longrightarrow> get m j \<noteq> None \<longrightarrow> k' \<le> j)"
    and seek_None: "invar m \<Longrightarrow> seek m k = None \<longleftrightarrow> (\<forall>j. k \<le> j \<longrightarrow> get m j = None)"
begin

lemma seek_cong:
  assumes "invar m" "invar m'" "\<And>j. k \<le> j \<Longrightarrow> get m j = get m' j"
  shows "seek m k = seek m' k"
proof (cases "seek m k")
  case None
  then have "seek m' k = None" using assms by (simp add: seek_None)
  with None show ?thesis by simp
next
  case (Some p)
  obtain k' v where p: "p = (k', v)" by force
  with Some assms have "seek m' k = Some (k', v)" by (auto simp: seek_Some)
  with Some p show ?thesis by simp
qed

lemma seek_hit: "invar m \<Longrightarrow> get m k = Some v \<Longrightarrow> seek m k = Some (k, v)"
  by (simp add: seek_Some)

lemma seek_insert_same: "invar m \<Longrightarrow> seek (insert k v m) k = Some (k, v)"
  by (simp add: seek_Some invar_insert get_insert)

lemma seek_insert_before:
  "invar m \<Longrightarrow> j < k \<Longrightarrow> seek (insert j v m) k = seek m k"
  by (intro seek_cong) (auto simp: invar_insert get_insert)

lemma seek_remove_before:
  "invar m \<Longrightarrow> j < k \<Longrightarrow> seek (remove j m) k = seek m k"
  by (intro seek_cong) (auto simp: invar_remove get_remove)

end

section \<open>The engine's maps\<close>

definition sorted_tree :: "'v tree \<Rightarrow> bool" where
  "sorted_tree t \<longleftrightarrow> sorted_wrt (<) (map fst t)"

text \<open>The reference for every seek: the first entry at or after a key.\<close>

definition tree_seek :: "'v tree \<Rightarrow> Key \<Rightarrow> (Key \<times> 'v) option" where
  "tree_seek t key = (case dropWhile (\<lambda>(k, v). k < key) t of [] \<Rightarrow> None | e # _ \<Rightarrow> Some e)"

lemma sorted_tree_Nil [simp]: "sorted_tree []"
  by (simp add: sorted_tree_def)

lemma sorted_tree_Cons [simp]:
  "sorted_tree ((k, v) # t) \<longleftrightarrow> (\<forall>k'\<in>fst ` set t. k < k') \<and> sorted_tree t"
  by (simp add: sorted_tree_def)

lemma map_of_less:
  "\<forall>k'\<in>fst ` set t. k < k' \<Longrightarrow> j \<le> k \<Longrightarrow> map_of (t :: 'v tree) j = None"
  unfolding map_of_eq_None_iff by (metis leD)

lemma keys_tree_insert: "fst ` set (tree_insert k v t) = insert k (fst ` set t)"
  by (induction k v t rule: tree_insert.induct) auto

lemma set_tree_remove: "set (tree_remove k t) \<subseteq> set t"
  by (induction k t rule: tree_remove.induct) auto

lemma sorted_tree_insert: "sorted_tree t \<Longrightarrow> sorted_tree (tree_insert k v t)"
proof (induction k v t rule: tree_insert.induct)
  case (2 k v k' v' t)
  then show ?case
    using keys_tree_insert [of k v t] by (auto simp: neq_iff dest: less_trans)
qed simp

lemma sorted_tree_remove: "sorted_tree t \<Longrightarrow> sorted_tree (tree_remove k t)"
proof (induction k t rule: tree_remove.induct)
  case (2 k k' v' t)
  then show ?case using set_tree_remove [of k t] by auto
qed simp

lemma map_of_tree_insert: "map_of (tree_insert k v t) k' = (if k' = k then Some v else map_of t k')"
  if "sorted_tree t"
  using that by (induction k v t rule: tree_insert.induct) auto

lemma map_of_tree_remove: "map_of (tree_remove k t) k' = (if k' = k then None else map_of t k')"
  if "sorted_tree t"
  using that by (induction k t rule: tree_remove.induct) (auto simp: map_of_less)

lemma tree_seek_Cons:
  "tree_seek ((k, v) # t) key = (if k < key then tree_seek t key else Some (k, v))"
  by (simp add: tree_seek_def)

lemma tree_seek_Nil [simp]: "tree_seek [] key = None"
  by (simp add: tree_seek_def)

lemma tree_seek_None_iff:
  "sorted_tree t \<Longrightarrow> tree_seek t key = None \<longleftrightarrow> (\<forall>j. key \<le> j \<longrightarrow> map_of t j = None)"
  by (induction t) (force simp: tree_seek_Cons not_less split: if_splits)+

lemma tree_seek_Some_iff:
  "sorted_tree t \<Longrightarrow> tree_seek t key = Some (k', v) \<longleftrightarrow>
   map_of t k' = Some v \<and> key \<le> k' \<and> (\<forall>j. key \<le> j \<longrightarrow> map_of t j \<noteq> None \<longrightarrow> k' \<le> j)"
proof (induction t)
  case (Cons e t)
  obtain k u where e: "e = (k, u)" by force
  show ?case
  proof (cases "k < key")
    case True
    with Cons e show ?thesis by (auto simp: tree_seek_Cons)
  next
    case False
    with Cons.prems e show ?thesis
      by (auto simp: tree_seek_Cons not_less map_of_less dest!: map_of_SomeD)
        (metis fst_conv image_eqI less_imp_le linorder_not_less)+
  qed
qed simp

interpretation btree: ordered_map tree_get tree_insert tree_remove tree_seek sorted_tree
  by unfold_locales
    (simp_all add: sorted_tree_insert sorted_tree_remove tree_get_def map_of_tree_insert
      map_of_tree_remove tree_seek_Some_iff tree_seek_None_iff)

section \<open>Moving a cursor nearby is seeking\<close>

text \<open>The extreme entry of a range, and where the iterator stops.\<close>

definition is_endpoint :: "'v tree \<Rightarrow> (Key \<Rightarrow> bool) \<Rightarrow> bool \<Rightarrow> Key \<Rightarrow> 'v \<Rightarrow> bool" where
  "is_endpoint t P left k v \<longleftrightarrow>
     map_of t k = Some v \<and> P k \<and>
     (\<forall>j. map_of t j \<noteq> None \<longrightarrow> P j \<longrightarrow> (if left then k \<le> j else j \<le> k))"

lemma sorted_tree_map_of: "sorted_tree t \<Longrightarrow> map_of t k = Some v \<longleftrightarrow> (k, v) \<in> set t"
  by (rule map_of_eq_Some_iff) (simp add: sorted_tree_def strict_sorted_iff)

lemma filter_endpoint:
  assumes "sorted_tree t" "filter (\<lambda>(k, v). P k) t = es" "es \<noteq> []"
  shows "is_endpoint t P True (fst (hd es)) (snd (hd es))"
    and "is_endpoint t P False (fst (last es)) (snd (last es))"
proof -
  have es: "set es = {e \<in> set t. P (fst e)}" using assms(2) by auto
  have sorted: "sorted_wrt (<) (map fst es)"
    using assms(1,2) unfolding sorted_tree_def sorted_wrt_map by (metis sorted_wrt_filter)
  have "fst (hd es) \<le> fst e \<and> fst e \<le> fst (last es)" if "e \<in> set es" for e
    using sorted that
  proof (induction es)
    case (Cons a es)
    then show ?case by (cases "es = []") (auto simp: less_imp_le)
  qed simp
  moreover have "hd es \<in> set es" "last es \<in> set es" using assms(3) by auto
  ultimately show "is_endpoint t P True (fst (hd es)) (snd (hd es))"
    and "is_endpoint t P False (fst (last es)) (snd (last es))"
    using es assms(1) by (force simp: is_endpoint_def sorted_tree_map_of)+
qed

abbreviation unbounded :: "bound \<times> bound" where
  "unbounded \<equiv> (Unbounded, Unbounded)"

definition it_at :: "engine_iter \<Rightarrow> Key \<Rightarrow> Value \<Rightarrow> engine_iter" where
  "it_at it k v = it\<lparr>it_cur_key := Some k, it_cur_value := Some v, it_valid := True\<rparr>"

lemma seek_to_range_endpoint_cases:
  fixes r :: "('e, bool \<times> engine_iter) result"
  assumes "sorted_tree t" "it_bounds it = unbounded" "\<not> range_inverted rng"
    and r: "r = seek_to_range_endpoint t it rng left"
  obtains (found) k v where
      "r = Ok (True, it_at it k v)" "is_endpoint t (in_bounds rng) left k v"
    | (exhausted) "r = Ok (False, it\<lparr>it_valid := False\<rparr>)"
      "\<forall>j. in_bounds rng j \<longrightarrow> map_of t j = None"
proof -
  define es where "es = filter (\<lambda>(k, v). in_bounds rng k) t"
  have range: "tree_range t rng = (Ok es :: ('e, _) result)"
    using assms(3) by (simp add: tree_range_def es_def in_bounds_def)
  have bounds: "in_bounds (it_bounds it) k" for k
    using assms(2) by (simp add: in_bounds_def)
  show ?thesis
  proof (cases "es = []")
    case True
    then have "\<forall>j. in_bounds rng j \<longrightarrow> map_of t j = None"
      using assms(1) by (auto simp: es_def filter_empty_conv map_of_eq_None_iff)
    with True show ?thesis
      by (intro exhausted) (simp_all add: r seek_to_range_endpoint_def range)
  next
    case False
    let ?e = "if left then hd es else last es"
    have "is_endpoint t (in_bounds rng) left (fst ?e) (snd ?e)"
      using filter_endpoint [OF assms(1) es_def [symmetric] False] by simp
    moreover have "r = Ok (True, it_at it (fst ?e) (snd ?e))"
      using False bounds
      by (simp add: r seek_to_range_endpoint_def range it_at_def Let_def split: prod.split)
    ultimately show ?thesis by (intro found)
  qed
qed

lemma endpoint_seek:
  "sorted_tree t \<Longrightarrow> is_endpoint t (\<lambda>j. key \<le> j) True k v \<longleftrightarrow> tree_seek t key = Some (k, v)"
  by (auto simp: is_endpoint_def tree_seek_Some_iff)

text \<open>
  The cursor of a reader that may move both ways: its entry is an entry of the map, and its
  recorded upper end is an upper end.
\<close>

definition cursor_at :: "Value tree \<Rightarrow> cursor \<Rightarrow> Key \<Rightarrow> bool" where
  "cursor_at t c k \<longleftrightarrow> cursor_valid c \<and> it_cur_key (c_iter c) = Some k \<and>
     it_cur_value (c_iter c) = map_of t k \<and> map_of t k \<noteq> None"

definition cursor_inv :: "Value tree \<Rightarrow> cursor \<Rightarrow> bool" where
  "cursor_inv t c \<longleftrightarrow>
     it_bounds (c_iter c) = unbounded \<and> c_scan_mode c = Mixed \<and>
     (cursor_valid c \<longrightarrow> (\<exists>k. cursor_at t c k)) \<and>
     (\<forall>m. c_max_key c = Some m \<longrightarrow> (\<forall>j. m \<le> j \<longrightarrow> map_of t j = None))"

lemma cursor_at_key: "cursor_at t c k \<Longrightarrow> cursor_key c = Ok k"
  by (simp add: cursor_at_def cursor_key_def iter_key_def cursor_valid_def)

lemma cursor_at_value: "cursor_at t c k \<Longrightarrow> cursor_value c = Ok (the (map_of t k))"
  by (auto simp: cursor_at_def cursor_value_def iter_value_def cursor_valid_def)

lemma cursor_moved_cases:
  fixes r :: "'e moved"
  assumes "sorted_tree t" "cursor_inv t c" "\<not> range_inverted rng"
    and "c_scan_mode d = Mixed" "c_max_key d = c_max_key c" "c_iter d = c_iter c"
    and r: "r = cursor_moved d (seek_to_range_endpoint t (c_iter c) rng left)"
  obtains (found) k c' where
      "r = Ok (True, c')"
      "cursor_inv t c'" "cursor_at t c' k" "is_endpoint t (in_bounds rng) left k (the (map_of t k))"
      "c_prefix_seek c' = c_prefix_seek d"
    | (exhausted) c' where
      "r = Ok (False, c')"
      "cursor_inv t c'" "\<not> cursor_valid c'" "\<forall>j. in_bounds rng j \<longrightarrow> map_of t j = None"
      "c_prefix_seek c' = c_prefix_seek d"
proof -
  have b: "it_bounds (c_iter c) = unbounded" using assms(2) by (simp add: cursor_inv_def)
  show ?thesis
  proof (rule seek_to_range_endpoint_cases [OF assms(1) b assms(3) refl, of left, where 'e = 'e],
      goal_cases)
    case (1 k v)
    then have "map_of t k = Some v" by (simp add: is_endpoint_def)
    with 1 r assms(2,4-6) show ?case
      by (intro found [of "d\<lparr>c_iter := it_at (c_iter c) k v\<rparr>" k])
        (auto simp: cursor_moved_def cursor_inv_def cursor_at_def cursor_valid_def it_at_def)
  next
    case 2
    with r assms(2,4-6) show ?case
      by (intro exhausted [of "d\<lparr>c_iter := (c_iter c)\<lparr>it_valid := False\<rparr>\<rparr>"])
        (auto simp: cursor_moved_def cursor_inv_def cursor_valid_def)
  qed
qed

lemma cursor_next_cases:
  fixes r :: "'e moved"
  assumes "sorted_tree t" "cursor_inv t c" "cursor_at t c k0" "r = cursor_next t c"
  obtains (found) k c' where "r = Ok (True, c')" "cursor_inv t c'" "cursor_at t c' k" "k0 < k"
      "\<forall>j. k0 < j \<longrightarrow> map_of t j \<noteq> None \<longrightarrow> k \<le> j" "c_prefix_seek c' = c_prefix_seek c"
    | (exhausted) c' where "r = Ok (False, c')" "cursor_inv t c'" "\<not> cursor_valid c'"
      "\<forall>j. k0 < j \<longrightarrow> map_of t j = None" "c_prefix_seek c' = c_prefix_seek c"
proof -
  have r: "r = cursor_moved (c\<lparr>c_next := Suc (c_next c)\<rparr>)
      (seek_to_range_endpoint t (c_iter c) (Excluded k0, Unbounded) True)"
    using assms(3,4) by (simp add: cursor_next_def iter_next_def cursor_at_def)
  have mode: "c_scan_mode c = Mixed" using assms(2) by (simp add: cursor_inv_def)
  show ?thesis
    by (rule cursor_moved_cases [OF assms(1,2) _ _ _ _ r])
      (use mode in \<open>auto intro: found exhausted simp: is_endpoint_def in_bounds_def\<close>)
qed

lemma cursor_prev_cases:
  fixes r :: "'e moved"
  assumes "sorted_tree t" "cursor_inv t c" "cursor_at t c k0" "r = cursor_prev t c"
  obtains (found) k c' where "r = Ok (True, c')" "cursor_inv t c'" "cursor_at t c' k" "k < k0"
      "\<forall>j. j < k0 \<longrightarrow> map_of t j \<noteq> None \<longrightarrow> j \<le> k" "c_prefix_seek c' = c_prefix_seek c"
    | (exhausted) c' where "r = Ok (False, c')" "cursor_inv t c'" "\<not> cursor_valid c'"
      "\<forall>j. j < k0 \<longrightarrow> map_of t j = None" "c_prefix_seek c' = c_prefix_seek c"
proof -
  have r: "r = cursor_moved c
      (seek_to_range_endpoint t (c_iter c) (Unbounded, Excluded k0) False)"
    using assms(3,4) by (simp add: cursor_prev_def iter_prev_def cursor_at_def)
  have mode: "c_scan_mode c = Mixed" using assms(2) by (simp add: cursor_inv_def)
  show ?thesis
    by (rule cursor_moved_cases [OF assms(1,2) _ _ _ _ r])
      (use mode in \<open>auto intro: found exhausted simp: is_endpoint_def in_bounds_def\<close>)
qed

definition sought :: "Value tree \<Rightarrow> Key \<Rightarrow> bool \<Rightarrow> cursor \<Rightarrow> bool" where
  "sought t key b c \<longleftrightarrow>
     cursor_inv t c \<and>
     (case tree_seek t key of None \<Rightarrow> \<not> b | Some (k, v) \<Rightarrow> b \<and> cursor_at t c k)"

lemma soughtI_found:
  assumes "sorted_tree t" "cursor_inv t c" "cursor_at t c k" "key \<le> k"
    and "\<forall>j. key \<le> j \<longrightarrow> map_of t j \<noteq> None \<longrightarrow> k \<le> j"
  shows "sought t key True c"
proof -
  obtain v where "map_of t k = Some v" using assms(3) by (auto simp: cursor_at_def)
  then have "tree_seek t key = Some (k, v)" using assms by (simp add: tree_seek_Some_iff)
  then show ?thesis using assms by (simp add: sought_def)
qed

lemma soughtI_none:
  assumes "sorted_tree t" "cursor_inv t c" "\<forall>j. key \<le> j \<longrightarrow> map_of t j = None"
  shows "sought t key False c"
  using assms by (simp add: sought_def tree_seek_None_iff [THEN iffD2])

lemma cursor_inv_max_key:
  "cursor_inv t c \<Longrightarrow> \<forall>j. key \<le> j \<longrightarrow> map_of t j = None \<Longrightarrow> cursor_inv t (c\<lparr>c_max_key := Some key\<rparr>)"
  by (simp add: cursor_inv_def cursor_at_def cursor_valid_def)

lemma cursor_seek_sought:
  assumes "sorted_tree t" "cursor_inv t c"
  shows "\<exists>b c'. cursor_seek t c key = (Ok (b, c') :: 'e moved) \<and> sought t key b c'"
proof -
  have mode: "c_scan_mode c = Mixed" using assms(2) by (simp add: cursor_inv_def)
  show ?thesis
  proof (cases "case c_max_key c of Some k \<Rightarrow> k \<le> key | None \<Rightarrow> False")
    case True
    then have "\<forall>j. key \<le> j \<longrightarrow> map_of t j = None"
      using assms(2) by (auto simp: cursor_inv_def split: option.splits)
    then have "sought t key False c" by (rule soughtI_none [OF assms])
    moreover have "cursor_seek t c key = (Ok (False, c) :: 'e moved)"
      using True mode by (simp add: cursor_seek_def)
    ultimately show ?thesis by blast
  next
    case False
    have "\<exists>b c'. internal_seek t c key = (Ok (b, c') :: 'e moved) \<and>
        cursor_inv t c' \<and> (if b then sought t key True c' else \<forall>j. key \<le> j \<longrightarrow> map_of t j = None)"
    proof (rule cursor_moved_cases [OF assms, of "(Included key, Unbounded)" c
          "internal_seek t c key :: 'e moved" True], goal_cases)
      case (6 k c')
      then show ?case using soughtI_found [OF assms(1) 6(2,3)]
        by (auto simp: is_endpoint_def in_bounds_def)
    qed (use mode in \<open>auto simp: internal_seek_def iter_seek_def in_bounds_def\<close>)
    then obtain b c' where "internal_seek t c key = (Ok (b, c') :: 'e moved)" "cursor_inv t c'"
      "if b then sought t key True c' else \<forall>j. key \<le> j \<longrightarrow> map_of t j = None"
      by blast
    then show ?thesis
      using False mode assms(1)
      by (cases b) (auto simp: cursor_seek_def intro!: soughtI_none cursor_inv_max_key)
  qed
qed

lemma near_next_loop_sought:
  assumes "sorted_tree t" "cursor_inv t c" "cursor_at t c k0" "k0 < key"
  shows "\<exists>over c'. near_next_loop n t c key = (Ok (over, c') :: 'e moved) \<and> cursor_inv t c' \<and>
    (\<not> over \<longrightarrow> (if cursor_valid c' then sought t key True c'
      else \<forall>j. key \<le> j \<longrightarrow> map_of t j = None))"
  using assms(2-)
proof (induction n arbitrary: c k0)
  case (Suc n)
  show ?case
  proof (rule cursor_next_cases [OF assms(1) Suc.prems(1,2) refl, where 'e = 'e], goal_cases)
    case (1 k c')
    show ?case
    proof (cases "k < key")
      case True
      with 1 Suc.IH [OF 1(2,3)] show ?thesis by (simp add: cursor_at_key)
    next
      case False
      then have "sought t key True c'"
        using 1 Suc.prems(3) by (intro soughtI_found [OF assms(1) 1(2,3)]) auto
      moreover have "near_next_loop (Suc n) t c key = (Ok (False, c') :: 'e moved)"
        using 1(1) False by (simp add: cursor_at_key [OF 1(3)])
      moreover have "cursor_valid c'" using 1(3) by (simp add: cursor_at_def)
      ultimately show ?thesis using 1(2) by (auto simp del: near_next_loop.simps)
    qed
  next
    case (2 c')
    then have "\<forall>j. key \<le> j \<longrightarrow> map_of t j = None" using Suc.prems(3) by auto
    with 2 show ?case by auto
  qed
qed auto

lemma near_prev_loop_before:
  assumes "sorted_tree t" "cursor_inv t c" "cursor_at t c k0" "key < k0"
  shows "\<exists>over c'. near_prev_loop n t c key = (Ok (over, c') :: 'e moved) \<and> cursor_inv t c' \<and>
    c_prefix_seek c' = c_prefix_seek c \<and>
    (\<not> over \<longrightarrow> (if cursor_valid c'
      then \<exists>k. cursor_at t c' k \<and> k \<le> key \<and> (\<forall>j. k < j \<longrightarrow> map_of t j \<noteq> None \<longrightarrow> key < j)
      else \<forall>j. map_of t j \<noteq> None \<longrightarrow> key < j))"
  using assms(2-)
proof (induction n arbitrary: c k0)
  case (Suc n)
  show ?case
  proof (rule cursor_prev_cases [OF assms(1) Suc.prems(1,2) refl, where 'e = 'e], goal_cases)
    case (1 k c')
    show ?case
    proof (cases "key < k")
      case True
      with 1 Suc.IH [OF 1(2,3)] show ?thesis by (simp add: cursor_at_key)
    next
      case False
      have "\<forall>j. k < j \<longrightarrow> map_of t j \<noteq> None \<longrightarrow> key < j"
        using 1(5) Suc.prems(3) by (metis leD less_le_trans not_le)
      then have "\<exists>k. cursor_at t c' k \<and> k \<le> key \<and> (\<forall>j. k < j \<longrightarrow> map_of t j \<noteq> None \<longrightarrow> key < j)"
        using 1(3) False not_le_imp_less by blast
      moreover have "near_prev_loop (Suc n) t c key = (Ok (False, c') :: 'e moved)"
        using 1(1) False by (simp add: cursor_at_key [OF 1(3)])
      moreover have "cursor_valid c'" using 1(3) by (simp add: cursor_at_def)
      ultimately show ?thesis
        using 1(2,6) by (intro exI [of _ False] exI [of _ c']) (simp del: near_prev_loop.simps)
    qed
  next
    case (2 c')
    then have "\<forall>j. map_of t j \<noteq> None \<longrightarrow> key < j"
      using Suc.prems(3) by (metis le_less_trans not_le)
    with 2 show ?case by auto
  qed
qed auto

lemma cursor_seek_to_first_sought:
  assumes "sorted_tree t" "cursor_inv t c" "\<not> c_prefix_seek c"
    and "\<forall>j. map_of t j \<noteq> None \<longrightarrow> key \<le> j" "map_of t j0 \<noteq> None"
  shows "\<exists>c'. cursor_seek_to_first t c = (Ok (True, c') :: 'e moved) \<and> sought t key True c'"
proof -
  have r: "cursor_seek_to_first t c =
      (cursor_moved c (seek_to_range_endpoint t (c_iter c) unbounded True) :: 'e moved)"
    using assms(2,3) by (simp add: cursor_seek_to_first_def iter_seek_to_first_def cursor_inv_def)
  have mode: "c_scan_mode c = Mixed" using assms(2) by (simp add: cursor_inv_def)
  show ?thesis
  proof (rule cursor_moved_cases [OF assms(1,2) _ _ _ _ r], goal_cases)
    case (5 k c')
    then have "sought t key True c'"
      using assms(4) by (intro soughtI_found [OF assms(1) 5(2,3)])
        (auto simp: is_endpoint_def in_bounds_def cursor_at_def)
    with 5 show ?case by auto
  next
    case (6 c')
    then show ?case using assms(5) by (simp add: in_bounds_def)
  qed (use mode in auto)
qed

lemma near_seek_end_sought:
  assumes "sorted_tree t" "cursor_inv t c"
    and "if cursor_valid c then sought t key True c else \<forall>j. key \<le> j \<longrightarrow> map_of t j = None"
  shows "\<exists>b c'. near_seek_end c key = (Ok (b, c') :: 'e moved) \<and> sought t key b c'"
proof (cases "cursor_valid c")
  case True
  then show ?thesis using assms(3) by (auto simp: near_seek_end_def)
next
  case False
  then have none: "\<forall>j. key \<le> j \<longrightarrow> map_of t j = None" using assms(3) by simp
  have "sought t key False (c\<lparr>c_max_key := Some key\<rparr>)" "sought t key False c"
    using cursor_inv_max_key [OF assms(2) none] soughtI_none assms(1,2) none by blast+
  then show ?thesis using False by (auto simp: near_seek_end_def)
qed

lemma near_seek_sought:
  assumes "sorted_tree t" "cursor_inv t c"
  shows "\<exists>b c'. near_seek t c key = (Ok (b, c') :: 'e moved) \<and> sought t key b c'"
proof (cases "cursor_valid c")
  case False
  then show ?thesis
    using cursor_seek_sought [OF assms] assms(2) by (simp add: near_seek_def cursor_inv_def)
next
  case True
  then obtain k0 where k0: "cursor_at t c k0" using assms(2) by (auto simp: cursor_inv_def)
  have mode: "c_scan_mode c = Mixed" using assms(2) by (simp add: cursor_inv_def)
  note unfold = near_seek_def True mode cursor_at_key [OF k0]
  consider (eq) "k0 = key"
    | (past) "k0 \<noteq> key" "case c_max_key c of Some k \<Rightarrow> k \<le> key | None \<Rightarrow> False"
    | (greater) "key < k0" "\<not> (case c_max_key c of Some k \<Rightarrow> k \<le> key | None \<Rightarrow> False)"
    | (less) "k0 < key" "\<not> (case c_max_key c of Some k \<Rightarrow> k \<le> key | None \<Rightarrow> False)"
    by (meson linorder_less_linear)
  then show ?thesis
  proof cases
    case eq
    then have "sought t key True c" using soughtI_found [OF assms k0] by simp
    with eq show ?thesis by (auto simp: unfold)
  next
    case past
    then have "\<forall>j. key \<le> j \<longrightarrow> map_of t j = None"
      using assms(2) by (auto simp: cursor_inv_def split: option.splits)
    then have "sought t key False c" by (rule soughtI_none [OF assms])
    with past show ?thesis by (auto simp: unfold)
  next
    case less
    obtain over c' where loop: "near_next_loop SEEK_BOUND t c key = (Ok (over, c') :: 'e moved)"
      "cursor_inv t c'" "\<not> over \<longrightarrow> (if cursor_valid c' then sought t key True c'
        else \<forall>j. key \<le> j \<longrightarrow> map_of t j = None)"
      using near_next_loop_sought [OF assms k0 less(1)] by blast
    then show ?thesis
      using less cursor_seek_sought [OF assms(1) loop(2)] near_seek_end_sought [OF assms(1) loop(2)]
      by (cases over) (auto simp: unfold)
  next
    case greater
    obtain over c' where loop: "near_prev_loop SEEK_BOUND t c key = (Ok (over, c') :: 'e moved)"
      "cursor_inv t c'" "\<not> over \<longrightarrow> (if cursor_valid c'
        then \<exists>k. cursor_at t c' k \<and> k \<le> key \<and> (\<forall>j. k < j \<longrightarrow> map_of t j \<noteq> None \<longrightarrow> key < j)
        else \<forall>j. map_of t j \<noteq> None \<longrightarrow> key < j)"
      using near_prev_loop_before [OF assms k0 greater(1)] by blast
    have eq: "near_seek t c key =
        (if over then cursor_seek t c' key
         else if cursor_valid c' then
           rbind (cursor_key c') (\<lambda>cur.
             if cur < key then rbind (cursor_next t c') (\<lambda>(_, c). near_seek_end c key)
             else near_seek_end c' key)
         else if c_prefix_seek c' then cursor_seek t c' key
         else rbind (cursor_seek_to_first t c')
           (\<lambda>(ok, c). if ok then Ok (True, c) else Panic) :: 'e moved)"
      using greater loop(1) by (auto simp: unfold)
    consider (seek) "over \<or> \<not> cursor_valid c' \<and> c_prefix_seek c'"
      | (front) "\<not> over" "\<not> cursor_valid c'" "\<not> c_prefix_seek c'"
      | (valid) "\<not> over" "cursor_valid c'" by blast
    then show ?thesis
    proof cases
      case seek
      then show ?thesis using cursor_seek_sought [OF assms(1) loop(2)] eq by auto
    next
      case front
      have above: "\<forall>j. map_of t j \<noteq> None \<longrightarrow> key \<le> j"
        using loop(3) front by (auto simp: less_imp_le)
      have "map_of t k0 \<noteq> None" using k0 by (simp add: cursor_at_def)
      from cursor_seek_to_first_sought [OF assms(1) loop(2) front(3) above this, where 'e = 'e]
      obtain c'' where "cursor_seek_to_first t c' = (Ok (True, c'') :: 'e moved)"
        "sought t key True c''" by blast
      with front eq show ?thesis by auto
    next
      case valid
      then obtain k where k: "cursor_at t c' k" "k \<le> key"
        "\<forall>j. k < j \<longrightarrow> map_of t j \<noteq> None \<longrightarrow> key < j"
        using loop(3) by auto
      show ?thesis
      proof (cases "k < key")
        case False
        then have "sought t key True c'" using k soughtI_found [OF assms(1) loop(2) k(1)] by auto
        with False valid k eq near_seek_end_sought [OF assms(1) loop(2)] show ?thesis
          by (simp add: cursor_at_key)
      next
        case True
        have end_at: "\<exists>b c'. near_seek_end c'' key = (Ok (b, c') :: 'e moved) \<and> sought t key b c'"
          if "cursor_next t c' = (Ok (b, c'') :: 'e moved)" for b c''
        proof (rule cursor_next_cases [OF assms(1) loop(2) k(1) refl, where 'e = 'e], goal_cases)
          case (1 k' d)
          with that have "d = c''" by simp
          with 1 k(3) True have "sought t key True c''"
            by (intro soughtI_found [of t c'' k']) (auto simp: assms(1) cursor_at_def less_imp_le)
          with 1 \<open>d = c''\<close> show ?case
            by (intro near_seek_end_sought) (auto simp: assms(1) cursor_at_def)
        next
          case (2 d)
          with that have "d = c''" by simp
          with 2 True show ?case by (intro near_seek_end_sought) (auto simp: assms(1))
        qed
        have "\<exists>b c''. cursor_next t c' = (Ok (b, c'') :: 'e moved)"
          by (rule cursor_next_cases [OF assms(1) loop(2) k(1) refl, where 'e = 'e]) auto
        with end_at valid True eq show ?thesis
          by (auto simp: cursor_at_key [OF k(1)])
      qed
    qed
  qed
qed

section \<open>Properties of the engine\<close>



end
