(* ===== verification/PeerLocks.thy ===== *)
theory PeerLocks
  imports KvEngine
begin

text \<open>
  The in-memory pessimistic locks of a region peer (\<open>components/raftstore/src/store/txn_ext.rs\<close>):
  the table with its memory accounting, the split of a table by regions and the range scan. The
  size of the lock structure, a constant of the compiler, is the argument \<open>sz\<close>; the gauge shared
  by all peers of the process is passed as \<open>inst\<close>. Additions of memory sizes are exact, the
  subtractions wrap at the width of \<open>usize\<close>.
\<close>

section \<open>The table\<close>

datatype locks_status = Normal | TransferringLeader | MergingRegion | NotLeader | IsInFlashback

record peer_locks =
  pl_map :: "(pessimistic_lock \<times> bool) tree"
  pl_status :: locks_status
  pl_term :: u64
  pl_version :: u64
  pl_memory_size :: nat

record region =
  g_start_key :: bytes
  g_end_key :: bytes

definition peer_locks_default :: peer_locks where
  "peer_locks_default =
     \<lparr> pl_map = [], pl_status = Normal, pl_term = 0, pl_version = 0, pl_memory_size = 0 \<rparr>"

definition pessimistic_memory_size :: "nat \<Rightarrow> pessimistic_lock \<Rightarrow> nat" where
  "pessimistic_memory_size sz l = length (p_primary l) + sz"

definition usize_sub :: "nat \<Rightarrow> nat \<Rightarrow> nat" where
  "usize_sub a b = (if b \<le> a then a - b else a + 2 ^ 64 - b)"

fun peer_insert_incr ::
    "nat \<Rightarrow> (pessimistic_lock \<times> bool) tree \<Rightarrow> (Key \<times> pessimistic_lock) list \<Rightarrow> nat" where
  "peer_insert_incr sz m [] = 0"
| "peer_insert_incr sz m ((k, l) # ps) =
     (if tree_get m k = None then length k + pessimistic_memory_size sz l else 0) +
     peer_insert_incr sz m ps"

definition peer_insert ::
    "nat \<Rightarrow> (Key \<times> pessimistic_lock) list \<Rightarrow> nat \<Rightarrow> nat \<Rightarrow> peer_locks \<Rightarrow> int \<Rightarrow>
     ((Key \<times> pessimistic_lock) list, unit) result \<times> peer_locks \<times> int" where
  "peer_insert sz pairs peer_limit instance_limit pl inst =
     (let incr = peer_insert_incr sz (pl_map pl) pairs in
      if pl_memory_size pl + incr > peer_limit \<or> nat (inst mod 2 ^ 64) + incr > instance_limit
      then (Err pairs, pl, inst)
      else
        (Ok (),
         pl\<lparr>pl_map := fold (\<lambda>(k, l) m. tree_insert k (l, False) m) pairs (pl_map pl),
            pl_memory_size := pl_memory_size pl + incr\<rparr>,
         inst + int incr))"

definition peer_remove :: "nat \<Rightarrow> Key \<Rightarrow> peer_locks \<Rightarrow> int \<Rightarrow> peer_locks \<times> int" where
  "peer_remove sz key pl inst =
     (case tree_get (pl_map pl) key of
        None \<Rightarrow> (pl, inst)
      | Some (lock, _) \<Rightarrow>
          let desc = length key + pessimistic_memory_size sz lock in
          (pl\<lparr>pl_map := tree_remove key (pl_map pl),
              pl_memory_size := usize_sub (pl_memory_size pl) desc\<rparr>, inst - int desc))"

definition peer_clear :: "peer_locks \<Rightarrow> int \<Rightarrow> peer_locks \<times> int" where
  "peer_clear pl inst =
     (pl\<lparr>pl_map := [], pl_memory_size := 0\<rparr>, inst - int (pl_memory_size pl))"

definition peer_is_writable :: "peer_locks \<Rightarrow> bool" where
  "peer_is_writable pl \<longleftrightarrow> pl_status pl = Normal"

definition peer_get :: "peer_locks \<Rightarrow> Key \<Rightarrow> (pessimistic_lock \<times> bool) option" where
  "peer_get pl key = tree_get (pl_map pl) key"

section \<open>Splitting by regions\<close>

definition in_region :: "region \<Rightarrow> Key \<Rightarrow> bool" where
  "in_region r k \<longleftrightarrow> \<not> (k < g_start_key r \<or> g_end_key r \<noteq> [] \<and> k \<ge> g_end_key r)"

text \<open>
  On ascending start keys \<open>binary_search_by_key\<close> gives the index of the region that starts at the
  key, or the insertion point, which the caller decrements: in both cases one less than the number
  of regions that start at or before the key.
\<close>

definition region_index :: "region list \<Rightarrow> Key \<Rightarrow> nat" where
  "region_index regions key =
     usize_sub (length (takeWhile (\<lambda>r. g_start_key r \<le> key) regions)) 1"

definition region_move ::
    "nat \<Rightarrow> region list \<Rightarrow> Key \<times> pessimistic_lock \<times> bool \<Rightarrow> nat \<times> peer_locks list \<Rightarrow>
     ('e, nat \<times> peer_locks list) result" where
  "region_move sz regions entry st =
     (case (entry, st) of ((key, lock, _), (memory_size, res)) \<Rightarrow>
        let idx = region_index regions key;
            size = length key + pessimistic_memory_size sz lock
        in if idx < length res
           then Ok (usize_sub memory_size size,
             res[idx := (res ! idx)\<lparr>pl_map := tree_insert key (lock, False) (pl_map (res ! idx)),
                                    pl_memory_size := pl_memory_size (res ! idx) + size\<rparr>])
           else Panic)"

fun region_move_all ::
    "nat \<Rightarrow> region list \<Rightarrow> (Key \<times> pessimistic_lock \<times> bool) list \<Rightarrow> nat \<times> peer_locks list \<Rightarrow>
     ('e, nat \<times> peer_locks list) result" where
  "region_move_all sz regions [] st = Ok st"
| "region_move_all sz regions (e # es) st =
     rbind (region_move sz regions e st) (region_move_all sz regions es)"

definition group_by_regions ::
    "nat \<Rightarrow> region list \<Rightarrow> region \<Rightarrow> peer_locks \<Rightarrow> ('e, peer_locks \<times> peer_locks list) result" where
  "group_by_regions sz regions derived pl =
     (let kept = filter (\<lambda>(k, v). in_region derived k) (pl_map pl);
          removed = filter (\<lambda>(k, v). \<not> in_region derived k) (pl_map pl)
      in rbind (region_move_all sz regions removed
                  (pl_memory_size pl, map (\<lambda>_. peer_locks_default) regions)) (\<lambda>(memory_size, res).
           Ok (pl\<lparr>pl_map := kept, pl_memory_size := memory_size\<rparr>, res)))"

section \<open>Range scan\<close>

fun peer_scan_loop ::
    "(Key \<Rightarrow> pessimistic_lock \<Rightarrow> bool) \<Rightarrow> nat \<Rightarrow> (pessimistic_lock \<times> bool) tree \<Rightarrow>
     (Key \<times> lock) list \<Rightarrow> (Key \<times> lock) list \<times> bool" where
  "peer_scan_loop f limit [] locks = (locks, False)"
| "peer_scan_loop f limit ((key, lock, _) # es) locks =
     (let locks' = (if f key lock then locks @ [(key, pessimistic_to_lock lock)] else locks) in
      if limit > 0 \<and> length locks' \<ge> limit then (locks', es \<noteq> [])
      else peer_scan_loop f limit es locks')"

definition peer_scan_locks ::
    "Key option \<Rightarrow> Key option \<Rightarrow> (Key \<Rightarrow> pessimistic_lock \<Rightarrow> bool) \<Rightarrow> nat \<Rightarrow> peer_locks \<Rightarrow>
     ('e, (Key \<times> lock) list \<times> bool) result" where
  "peer_scan_locks start end f limit pl =
     (if (case (start, end) of (Some s, Some e) \<Rightarrow> \<not> e \<ge> s | _ \<Rightarrow> False) then Panic
      else rbind (tree_range (pl_map pl)
             (case start of None \<Rightarrow> Unbounded | Some k \<Rightarrow> Included k,
              case end of None \<Rightarrow> Unbounded | Some k \<Rightarrow> Excluded k)) (\<lambda>es.
        Ok (peer_scan_loop f limit es [])))"

section \<open>The memory accounting is exact\<close>

definition peer_size :: "nat \<Rightarrow> (pessimistic_lock \<times> bool) tree \<Rightarrow> nat" where
  "peer_size sz m = (\<Sum>(k, l, d)\<leftarrow>m. length k + pessimistic_memory_size sz l)"

definition wf_peer :: "nat \<Rightarrow> peer_locks \<Rightarrow> bool" where
  "wf_peer sz pl \<longleftrightarrow> sorted_tree (pl_map pl) \<and> pl_memory_size pl = peer_size sz (pl_map pl)"

lemma wf_peer_default [simp]: "wf_peer sz peer_locks_default"
  by (simp add: wf_peer_def peer_locks_default_def peer_size_def)

lemma peer_size_Nil [simp]: "peer_size sz [] = 0"
  by (simp add: peer_size_def)

lemma peer_size_Cons [simp]:
  "peer_size sz ((k, l, d) # m) = length k + pessimistic_memory_size sz l + peer_size sz m"
  by (simp add: peer_size_def)

lemma peer_size_insert_new:
  "map_of m k = None \<Longrightarrow>
   peer_size sz (tree_insert k (l, d) m) = peer_size sz m + length k + pessimistic_memory_size sz l"
  by (induction m) (auto split: if_splits)

lemma peer_size_insert_old:
  assumes "sorted_tree m" "map_of m k = Some (l\<^sub>0, d\<^sub>0)"
    "pessimistic_memory_size sz l = pessimistic_memory_size sz l\<^sub>0"
  shows "peer_size sz (tree_insert k (l, d) m) = peer_size sz m"
  using assms
proof (induction m)
  case (Cons e m)
  obtain k' l' d' where e: "e = (k', l', d')" by (cases e)
  show ?case
  proof (cases "k < k'")
    case True
    then have "map_of (e # m) k = None"
      using Cons.prems(1) by (auto simp: e map_of_eq_None_iff)
    then show ?thesis using Cons.prems(2) by simp
  next
    case False
    then show ?thesis using Cons by (auto simp: e split: if_splits)
  qed
qed simp

lemma peer_size_remove:
  "map_of m k = Some (l, d) \<Longrightarrow>
   peer_size sz m = peer_size sz (tree_remove k m) + (length k + pessimistic_memory_size sz l)"
  by (induction m) (auto split: if_splits)

lemma peer_size_partition:
  "peer_size sz m =
   peer_size sz (filter (\<lambda>(k, v). P k) m) + peer_size sz (filter (\<lambda>(k, v). \<not> P k) m)"
  by (induction m) auto

lemma peer_insert_incr_cong:
  "(\<And>k. k \<in> fst ` set ps \<Longrightarrow> map_of m k = None \<longleftrightarrow> map_of m' k = None) \<Longrightarrow>
   peer_insert_incr sz m ps = peer_insert_incr sz m' ps"
  by (induction ps) (auto simp: tree_get_def)

lemma peer_insert_fold:
  assumes "sorted_tree m" "distinct (map fst ps)"
    and "\<And>k l l\<^sub>0 d\<^sub>0. (k, l) \<in> set ps \<Longrightarrow> map_of m k = Some (l\<^sub>0, d\<^sub>0) \<Longrightarrow> p_primary l = p_primary l\<^sub>0"
  shows "sorted_tree (fold (\<lambda>(k, l) m. tree_insert k (l, False) m) ps m) \<and>
    peer_size sz (fold (\<lambda>(k, l) m. tree_insert k (l, False) m) ps m) =
      peer_size sz m + peer_insert_incr sz m ps"
  using assms
proof (induction ps arbitrary: m)
  case (Cons p ps)
  obtain k l where p: "p = (k, l)" by force
  let ?m = "tree_insert k (l, False) m"
  have "peer_size sz ?m = peer_size sz m +
      (if map_of m k = None then length k + pessimistic_memory_size sz l else 0)"
  proof (cases "map_of m k")
    case (Some v)
    then obtain l\<^sub>0 d\<^sub>0 where v: "map_of m k = Some (l\<^sub>0, d\<^sub>0)" by (cases v) simp
    with Cons.prems(3) [of k l] have "p_primary l = p_primary l\<^sub>0" by (simp add: p)
    with peer_size_insert_old [OF Cons.prems(1) v, of sz l False] v show ?thesis
      by (simp add: pessimistic_memory_size_def)
  qed (simp add: peer_size_insert_new)
  moreover have "peer_insert_incr sz ?m ps = peer_insert_incr sz m ps"
    using Cons.prems(1,2)
    by (intro peer_insert_incr_cong) (auto simp: p map_of_tree_insert split: if_splits)
  moreover have prim: "p_primary l' = p_primary l\<^sub>0"
    if "(k', l') \<in> set ps" "map_of ?m k' = Some (l\<^sub>0, d\<^sub>0)" for k' l' l\<^sub>0 d\<^sub>0
  proof -
    have "k' \<noteq> k" using Cons.prems(2) that(1) by (auto simp: p image_iff)
    then show ?thesis
      using Cons.prems(1) Cons.prems(3) [of k' l'] that by (simp add: map_of_tree_insert)
  qed
  moreover have "sorted_tree ?m" "distinct (map fst ps)"
    using Cons.prems(1,2) by (simp_all add: sorted_tree_insert p)
  note Cons.IH [OF this prim]
  ultimately show ?case by (simp add: p tree_get_def)
qed simp

lemma wf_peer_insert:
  assumes "wf_peer sz pl" "distinct (map fst ps)"
    and "\<And>k l l\<^sub>0 d\<^sub>0. (k, l) \<in> set ps \<Longrightarrow> map_of (pl_map pl) k = Some (l\<^sub>0, d\<^sub>0) \<Longrightarrow>
      p_primary l = p_primary l\<^sub>0"
    and "peer_insert sz ps plim ilim pl inst = (r, pl', inst')"
  shows "wf_peer sz pl' \<and> inst' - int (pl_memory_size pl') = inst - int (pl_memory_size pl)"
  using assms(1,4) peer_insert_fold [OF _ assms(2,3), where sz = sz]
  by (auto simp: peer_insert_def wf_peer_def Let_def split: if_splits)

lemma wf_peer_remove:
  assumes "wf_peer sz pl" "peer_remove sz k pl inst = (pl', inst')"
  shows "wf_peer sz pl' \<and> inst' - int (pl_memory_size pl') = inst - int (pl_memory_size pl)"
proof (cases "map_of (pl_map pl) k")
  case (Some v)
  obtain l d where "v = (l, d)" by force
  with Some assms peer_size_remove [of "pl_map pl" k l d sz] show ?thesis
    by (auto simp: peer_remove_def wf_peer_def Let_def tree_get_def usize_sub_def
        sorted_tree_remove)
qed (use assms in \<open>auto simp: peer_remove_def tree_get_def\<close>)

section \<open>A split keeps every lock\<close>

lemma region_index_bound:
  assumes "regions \<noteq> []" "g_start_key (hd regions) \<le> key"
  shows "region_index regions key < length regions"
proof -
  define n where "n = length (takeWhile (\<lambda>r. g_start_key r \<le> key) regions)"
  have "0 < n" using assms by (cases regions) (auto simp: n_def)
  moreover have "n \<le> length regions" unfolding n_def by (rule length_takeWhile_le)
  ultimately show ?thesis by (simp add: region_index_def usize_sub_def n_def [symmetric])
qed

definition moved_to :: "region list \<Rightarrow> (Key \<times> pessimistic_lock \<times> bool) list \<Rightarrow> nat \<Rightarrow> Key \<Rightarrow>
    (pessimistic_lock \<times> bool) option" where
  "moved_to regions es i k =
     (if region_index regions k = i then map_option (\<lambda>(l, _). (l, False)) (map_of es k) else None)"

lemma region_move_all_Ok:
  assumes "distinct (map fst es)" "peer_size sz es \<le> ms"
    and "\<And>k. k \<in> fst ` set es \<Longrightarrow> region_index regions k < length res"
    and "\<And>i k. i < length res \<Longrightarrow> k \<in> fst ` set es \<Longrightarrow> map_of (pl_map (res ! i)) k = None"
    and "\<forall>i < length res. wf_peer sz (res ! i)"
  shows "\<exists>res'. region_move_all sz regions es (ms, res) =
      (Ok (ms - peer_size sz es, res') :: ('e, _) result) \<and>
    length res' = length res \<and> (\<forall>i < length res. wf_peer sz (res' ! i) \<and>
      map_of (pl_map (res' ! i)) = map_of (pl_map (res ! i)) ++ moved_to regions es i)"
  using assms
proof (induction es arbitrary: ms res)
  case Nil
  then show ?case by (auto simp: moved_to_def map_add_def)
next
  case (Cons e es)
  obtain k l d where e: "e = (k, l, d)" by (cases e)
  let ?i = "region_index regions k" and ?s = "length k + pessimistic_memory_size sz l"
  let ?r = "(res ! ?i)\<lparr>pl_map := tree_insert k (l, False) (pl_map (res ! ?i)),
      pl_memory_size := pl_memory_size (res ! ?i) + ?s\<rparr>"
  have i: "?i < length res" using Cons.prems(3) [of k] by (simp add: e)
  have none: "map_of (pl_map (res ! ?i)) k = None" using Cons.prems(4) [OF i, of k] by (simp add: e)
  have step: "region_move_all sz regions (e # es) (ms, res) =
      (region_move_all sz regions es (ms - ?s, res[?i := ?r]) :: ('e, _) result)"
    using i Cons.prems(2) by (simp add: region_move_def e Let_def usize_sub_def)
  have kes: "k \<notin> fst ` set es" using Cons.prems(1) by (simp add: e)
  have "wf_peer sz ?r"
    using Cons.prems(5) i none
    by (auto simp: wf_peer_def sorted_tree_insert peer_size_insert_new)
  then have wf: "\<forall>j < length res. wf_peer sz (res[?i := ?r] ! j)"
    using Cons.prems(5) by (metis nth_list_update_eq nth_list_update_neq)
  have sorted: "sorted_tree (pl_map (res ! ?i))" using Cons.prems(5) i by (simp add: wf_peer_def)
  have fresh: "map_of (pl_map (res[?i := ?r] ! j)) k' = None"
    if "j < length res" "k' \<in> fst ` set es" for j k'
  proof -
    have "k' \<noteq> k" using that kes by auto
    with Cons.prems(4) [of j k'] that sorted i show ?thesis
      by (auto simp: e nth_list_update map_of_tree_insert)
  qed
  have "distinct (map fst es)" "peer_size sz es \<le> ms - ?s"
    using Cons.prems(1,2) by (simp_all add: e)
  moreover have "region_index regions k' < length (res[?i := ?r])" if "k' \<in> fst ` set es" for k'
    using Cons.prems(3) [of k'] that by simp
  moreover have "\<And>j k'. j < length (res[?i := ?r]) \<Longrightarrow> k' \<in> fst ` set es \<Longrightarrow>
      map_of (pl_map (res[?i := ?r] ! j)) k' = None"
    using fresh by simp
  moreover have "\<forall>j < length (res[?i := ?r]). wf_peer sz (res[?i := ?r] ! j)"
    using wf by simp
  ultimately have IH: "\<exists>res'. region_move_all sz regions es (ms - ?s, res[?i := ?r]) =
      (Ok (ms - ?s - peer_size sz es, res') :: ('e, _) result) \<and>
      length res' = length (res[?i := ?r]) \<and> (\<forall>j < length (res[?i := ?r]).
        wf_peer sz (res' ! j) \<and> map_of (pl_map (res' ! j)) =
          map_of (pl_map (res[?i := ?r] ! j)) ++ moved_to regions es j)"
    by (rule Cons.IH)
  obtain res' where res': "region_move_all sz regions es (ms - ?s, res[?i := ?r]) =
      (Ok (ms - ?s - peer_size sz es, res') :: ('e, _) result)" "length res' = length res"
    and cont: "\<And>j. j < length res \<Longrightarrow> wf_peer sz (res' ! j) \<and>
      map_of (pl_map (res' ! j)) = map_of (pl_map (res[?i := ?r] ! j)) ++ moved_to regions es j"
    using IH by auto
  have "map_of (pl_map (res' ! j)) k' = (map_of (pl_map (res ! j)) ++ moved_to regions (e # es) j) k'"
    if "j < length res" for j k'
  proof -
    have "map_of es k = None" using kes by (simp add: map_of_eq_None_iff)
    moreover have "map_of (pl_map (res' ! j)) k' =
        (map_of (pl_map (res[?i := ?r] ! j)) ++ moved_to regions es j) k'"
      using cont [OF that] by simp
    ultimately show ?thesis
      using i none sorted that
      by (cases "k' = k"; cases "j = ?i")
        (auto simp: e map_add_def moved_to_def map_of_tree_insert split: option.split)
  qed
  with res' cont step show ?case by (auto simp: e fun_eq_iff)
qed

lemma map_of_filter_key:
  "map_of (filter (\<lambda>(k, v). P k) m) k = (if P k then map_of m k else None)"
  by (induction m) auto

lemma sorted_tree_filter: "sorted_tree m \<Longrightarrow> sorted_tree (filter P m)"
  unfolding sorted_tree_def sorted_wrt_map by (rule sorted_wrt_filter)

lemma sorted_tree_distinct: "sorted_tree m \<Longrightarrow> distinct (map fst m)"
  by (simp add: sorted_tree_def strict_sorted_iff)

section \<open>Properties of the table of pessimistic locks\<close>





end
