(* ===== verification/MvccReader.thy ===== *)
theory MvccReader
  imports PeerLocks
begin

text \<open>
  Reads of the multi-version store (\<open>src/storage/mvcc\<close>): the errors (\<open>mod.rs\<close>), the reader over an
  engine snapshot (\<open>reader/reader.rs\<close>) and the commit record of a transaction
  (\<open>reader/mod.rs\<close>). \<open>reader_seek_write\<close> is the reader's own seek, with the cursor it keeps between
  calls; every other operation is stated over \<open>seek_write\<close>, the same seek from a fresh position,
  and the two are proved to agree. The reader that skips versions counts its \<open>next\<close> steps, which the
  prewrite of a lock record stores. The flag that turns a missing value into a panic is off.
\<close>

section \<open>Errors\<close>

datatype kv_error = StaleCommand | EpochNotMatch | FlashbackInProgress

record mvcc_info =
  mi_lock :: "lock option"
  mi_writes :: "(TimeStamp \<times> write) list"
  mi_values :: "(TimeStamp \<times> Value) list"

datatype lock_not_found_reason =
    LockTsMismatch
  | LockMissingAmendFail
  | LockForUpdateTsMismatch
  | NonLockKeyConflict
  | FailpointInjected

datatype mvcc_error =
    ME_Kv kv_error
  | ME_Io io_kind
  | ME_Codec codec_error
  | KeyIsLocked lock_info
  | BadFormat txn_error
  | Committed TimeStamp TimeStamp bytes
  | PessimisticLockRolledBack TimeStamp bytes
  | TxnLockNotFound TimeStamp TimeStamp bytes "mvcc_info option"
  | TxnNotFound TimeStamp bytes
  | LockTypeNotMatch TimeStamp bytes bool
  | WriteConflict TimeStamp TimeStamp TimeStamp bytes bytes write_conflict_reason
  | AlreadyExist bytes TimeStamp
  | DefaultNotFound bytes
  | CommitTsExpired TimeStamp TimeStamp bytes TimeStamp "mvcc_info option"
  | PessimisticLockNotFound TimeStamp bytes lock_not_found_reason
  | CommitTsTooLarge TimeStamp TimeStamp TimeStamp
  | AssertionFailed TimeStamp bytes assertion TimeStamp TimeStamp
  | LockIfExistsFailed TimeStamp bytes
  | PrimaryMismatch lock_info
  | GenerationOutOfOrder u64 Key lock
  | InvalidMaxTsUpdate TimeStamp TimeStamp
  | ME_Other

fun mvcc_error_from :: "txn_error \<Rightarrow> mvcc_error" where
  "mvcc_error_from (TE_Io e) = ME_Io e"
| "mvcc_error_from (TE_Codec e) = ME_Codec e"
| "mvcc_error_from BadFormatLock = BadFormat BadFormatLock"
| "mvcc_error_from BadFormatWrite = BadFormat BadFormatWrite"
| "mvcc_error_from (TE_KeyIsLocked info) = KeyIsLocked info"
| "mvcc_error_from (TE_WriteConflict start_ts conflict_start_ts conflict_commit_ts key primary reason) =
     WriteConflict start_ts conflict_start_ts conflict_commit_ts key primary reason"

type_synonym 'a mvcc_result = "(mvcc_error, 'a) result"

abbreviation of_txn :: "(txn_error, 'a) result \<Rightarrow> 'a mvcc_result" where
  "of_txn r \<equiv> map_error mvcc_error_from r"

abbreviation of_codec :: "(codec_error, 'a) result \<Rightarrow> 'a mvcc_result" where
  "of_codec r \<equiv> map_error ME_Codec r"

section \<open>The reader\<close>

record snapshot =
  s_engine :: engine
  s_txn_ext :: "peer_locks option"

record mvcc_reader =
  r_snapshot :: snapshot
  r_write_cursor :: "cursor option"
  r_scan_mode :: "scan_mode option"
  r_current_key :: "Key option"
  r_term :: u64
  r_version :: u64
  r_allow_in_flashback :: bool

definition reader_new :: "snapshot \<Rightarrow> scan_mode option \<Rightarrow> mvcc_reader" where
  "reader_new snap mode =
     \<lparr> r_snapshot = snap, r_write_cursor = None, r_scan_mode = mode, r_current_key = None,
       r_term = 0, r_version = 0, r_allow_in_flashback = False \<rparr>"

definition reader_new_with_ctx :: "snapshot \<Rightarrow> scan_mode option \<Rightarrow> u64 \<Rightarrow> u64 \<Rightarrow> mvcc_reader" where
  "reader_new_with_ctx snap mode term version =
     (reader_new snap mode)\<lparr>r_term := term, r_version := version\<rparr>"

definition set_allow_in_flashback :: "mvcc_reader \<Rightarrow> bool \<Rightarrow> mvcc_reader" where
  "set_allow_in_flashback r b = r\<lparr>r_allow_in_flashback := b\<rparr>"

abbreviation r_engine :: "mvcc_reader \<Rightarrow> engine" where
  "r_engine r \<equiv> s_engine (r_snapshot r)"

subsection \<open>Values and locks\<close>

definition get_value :: "mvcc_reader \<Rightarrow> Key \<Rightarrow> TimeStamp \<Rightarrow> Value option" where
  "get_value r key start_ts = get_cf (r_engine r) CF_DEFAULT (append_ts key start_ts)"

definition load_data :: "mvcc_reader \<Rightarrow> Key \<Rightarrow> write \<Rightarrow> Value mvcc_result" where
  "load_data r key w =
     (if w_type w \<noteq> WT_Put then Panic
      else case w_short_value w of
        Some val \<Rightarrow> Ok val
      | None \<Rightarrow>
          (case get_value r key (w_start_ts w) of
             Some val \<Rightarrow> Ok val
           | None \<Rightarrow> Err (DefaultNotFound (append_ts key (w_start_ts w)))))"

definition check_term_version_status :: "mvcc_reader \<Rightarrow> peer_locks \<Rightarrow> unit mvcc_result" where
  "check_term_version_status r locks =
     (if r_term r \<noteq> 0 \<and> pl_term locks \<noteq> r_term r then Err (ME_Kv StaleCommand)
      else if r_version r \<noteq> 0 \<and> pl_version locks \<noteq> r_version r then Err (ME_Kv EpochNotMatch)
      else if pl_status locks = IsInFlashback \<and> \<not> r_allow_in_flashback r
      then Err (ME_Kv FlashbackInProgress)
      else Ok ())"

definition load_in_memory_pessimistic_lock :: "mvcc_reader \<Rightarrow> Key \<Rightarrow> lock option mvcc_result" where
  "load_in_memory_pessimistic_lock r key =
     (case s_txn_ext (r_snapshot r) of
        Some locks \<Rightarrow>
          rbind (check_term_version_status r locks) (\<lambda>_.
            Ok (map_option (\<lambda>(lock, _). pessimistic_to_lock lock) (peer_get locks key)))
      | None \<Rightarrow> Ok None)"

definition load_lock :: "mvcc_reader \<Rightarrow> Key \<Rightarrow> lock option mvcc_result" where
  "load_lock r key =
     rbind (load_in_memory_pessimistic_lock r key) (\<lambda>mem.
       case mem of
         Some lock \<Rightarrow> Ok (Some lock)
       | None \<Rightarrow>
           (case get_cf (r_engine r) CF_LOCK key of
              Some v \<Rightarrow> rbind (of_txn (lock_parse v)) (\<lambda>l. Ok (Some l))
            | None \<Rightarrow> Ok None))"

subsection \<open>Seeking a version\<close>

fun get_scan_mode :: "scan_mode option \<Rightarrow> bool \<Rightarrow> scan_mode" where
  "get_scan_mode (Some Forward) _ = Forward"
| "get_scan_mode (Some Backward) True = Backward"
| "get_scan_mode _ _ = Mixed"

definition create_write_cursor :: "mvcc_reader \<Rightarrow> cursor" where
  "create_write_cursor r =
     (case r_write_cursor r of
        Some c \<Rightarrow> c
      | None \<Rightarrow> cursor_new (iter_new None None) (get_scan_mode (r_scan_mode r) True)
          (r_scan_mode r = None))"

definition reader_seek_write ::
    "mvcc_reader \<Rightarrow> Key \<Rightarrow> TimeStamp \<Rightarrow> ((TimeStamp \<times> write) option \<times> mvcc_reader) mvcc_result" where
  "reader_seek_write r key ts =
     (let r = (if r_scan_mode r = None \<and> r_current_key r \<noteq> Some key
               then r\<lparr>r_current_key := Some key, r_write_cursor := None\<rparr> else r) in
      rbind (near_seek (e_write (r_engine r)) (create_write_cursor r) (append_ts key ts)) (\<lambda>(found, c).
        let r = r\<lparr>r_write_cursor := Some c\<rparr> in
        if \<not> found then Ok (None, r)
        else rbind (cursor_key c) (\<lambda>write_key.
          rbind (of_codec (decode_ts_from write_key)) (\<lambda>commit_ts.
          if \<not> is_user_key_eq write_key key then Ok (None, r)
          else rbind (cursor_value c) (\<lambda>v.
            rbind (of_txn (write_parse v)) (\<lambda>w. Ok (Some (commit_ts, w), r)))))))"

definition seek_write ::
    "mvcc_reader \<Rightarrow> Key \<Rightarrow> TimeStamp \<Rightarrow> (TimeStamp \<times> write) option mvcc_result" where
  "seek_write r key ts =
     (case tree_seek (e_write (r_engine r)) (append_ts key ts) of
        None \<Rightarrow> Ok None
      | Some (write_key, v) \<Rightarrow>
          rbind (of_codec (decode_ts_from write_key)) (\<lambda>commit_ts.
          if \<not> is_user_key_eq write_key key then Ok None
          else rbind (of_txn (write_parse v)) (\<lambda>w. Ok (Some (commit_ts, w)))))"

lemma tree_seek_ge: "tree_seek t key = Some (k, v) \<Longrightarrow> key \<le> k"
  by (induction t) (auto simp: tree_seek_Cons split: if_splits)

lemma seek_write_le:
  assumes "seek_write r key ts = Ok (Some (c, w))"
  shows "c \<le> ts"
proof -
  obtain k v where k: "tree_seek (e_write (r_engine r)) (append_ts key ts) = Some (k, v)"
      "decode_ts_from k = Ok c" "is_user_key_eq k key"
    using assms by (auto simp: seek_write_def split: option.splits if_splits)
  have "append_ts key ts \<le> k" using k(1) by (rule tree_seek_ge)
  moreover obtain ts' where "k = append_ts key ts'" using k(3) by (auto simp: is_user_key_eq_iff)
  ultimately show ?thesis using k(2) decode_append_ts [of key ts'] by (simp add: decode_ts_def)
qed

text \<open>
  The latest change of a key: skip lock and rollback records, jumping when a record says that the
  change is far away. The count is the number of versions skipped one by one.
\<close>

definition far_last_change :: "write \<Rightarrow> TimeStamp option" where
  "far_last_change w =
     (case w_last_change w of
        LC_Exist last_change_ts versions \<Rightarrow>
          if SEEK_BOUND \<le> unat versions then Some last_change_ts else None
      | _ \<Rightarrow> None)"

definition gc_fence_passed :: "TimeStamp option \<Rightarrow> write \<Rightarrow> bool" where
  "gc_fence_passed limit w =
     (case limit of Some l \<Rightarrow> check_gc_fence_as_latest_version w l | None \<Rightarrow> True)"

definition get_last_change_write ::
    "mvcc_reader \<Rightarrow> Key \<Rightarrow> TimeStamp option \<Rightarrow> TimeStamp \<Rightarrow> (write \<times> TimeStamp) option mvcc_result" where
  "get_last_change_write r key gc_fence_limit last_change_ts =
     (case get_cf (r_engine r) CF_WRITE (append_ts key last_change_ts) of
        None \<Rightarrow> Ok None
      | Some v \<Rightarrow>
          rbind (of_txn (write_parse v)) (\<lambda>w.
            if \<not> (w_type w = WT_Put \<or> w_type w = WT_Delete) then Panic
            else if \<not> gc_fence_passed gc_fence_limit w then Ok None
            else if w_type w = WT_Put then Ok (Some (w, last_change_ts))
            else Ok None))"

function get_write_scan ::
    "mvcc_reader \<Rightarrow> Key \<Rightarrow> TimeStamp option \<Rightarrow> TimeStamp \<Rightarrow> nat \<Rightarrow>
     ((write \<times> TimeStamp) option \<times> nat) mvcc_result" where
  "get_write_scan r key gc_fence_limit ts n =
     rbind (seek_write r key ts) (\<lambda>res.
       case res of
         None \<Rightarrow> Ok (None, n)
       | Some (commit_ts, w) \<Rightarrow>
           if \<not> gc_fence_passed gc_fence_limit w then Ok (None, n)
           else if w_type w = WT_Put then Ok (Some (w, commit_ts), n)
           else if w_type w = WT_Delete then Ok (None, n)
           else if w_last_change w = LC_NotExist then Ok (None, n)
           else
             (case far_last_change w of
                Some last_change_ts \<Rightarrow>
                  rbind (get_last_change_write r key gc_fence_limit last_change_ts) (\<lambda>x. Ok (x, n))
              | None \<Rightarrow>
                  if is_zero ts then Ok (None, n)
                  else rbind (ts_prev commit_ts) (\<lambda>ts'.
                    get_write_scan r key gc_fence_limit ts' (n + 1))))"
  by pat_completeness auto
termination
  by (relation "measure (\<lambda>(r, key, lim, ts, n). unat ts)")
    (auto dest!: seek_write_le ts_prev_less simp: word_less_nat_alt word_le_nat_alt)

declare get_write_scan.simps [simp del]

definition get_write_with_commit_ts ::
    "mvcc_reader \<Rightarrow> Key \<Rightarrow> TimeStamp \<Rightarrow> TimeStamp option \<Rightarrow> (write \<times> TimeStamp) option mvcc_result" where
  "get_write_with_commit_ts r key ts gc_fence_limit =
     rbind (get_write_scan r key gc_fence_limit ts 0) (\<lambda>(res, _). Ok res)"

definition get_write ::
    "mvcc_reader \<Rightarrow> Key \<Rightarrow> TimeStamp \<Rightarrow> TimeStamp option \<Rightarrow> write option mvcc_result" where
  "get_write r key ts gc_fence_limit =
     rbind (get_write_with_commit_ts r key ts gc_fence_limit) (\<lambda>res. Ok (map_option fst res))"

definition reader_get ::
    "mvcc_reader \<Rightarrow> Key \<Rightarrow> TimeStamp \<Rightarrow> TimeStamp option \<Rightarrow> Value option mvcc_result" where
  "reader_get r key ts gc_fence_limit =
     rbind (get_write r key ts gc_fence_limit) (\<lambda>res.
       case res of
         Some w \<Rightarrow> rbind (load_data r key w) (\<lambda>v. Ok (Some v))
       | None \<Rightarrow> Ok None)"

definition get_old_value ::
    "mvcc_reader \<Rightarrow> Key \<Rightarrow> TimeStamp \<Rightarrow> bool \<Rightarrow> write option \<Rightarrow> old_value mvcc_result" where
  "get_old_value r key start_ts prev_write_loaded prev_write =
     (let of_write = (\<lambda>w. case w_short_value w of
              Some value \<Rightarrow> OV_Value value | None \<Rightarrow> OV_ValueTimeStamp (w_start_ts w));
          from_reader = rbind (get_write r key start_ts (Some start_ts)) (\<lambda>res.
              Ok (case res of Some w \<Rightarrow> of_write w | None \<Rightarrow> OV_None))
      in if prev_write_loaded \<and> prev_write = None then Ok OV_None
         else case prev_write of
           None \<Rightarrow> from_reader
         | Some w \<Rightarrow>
             if \<not> check_gc_fence_as_latest_version w start_ts then Ok OV_None
             else if w_type w = WT_Put then Ok (of_write w)
             else if w_type w = WT_Delete then Ok OV_None
             else from_reader)"

subsection \<open>The commit record of a transaction\<close>

record overlapped_write =
  o_write :: "write"
  o_gc_fence :: TimeStamp

datatype txn_commit_record =
    TCR_None "overlapped_write option"
  | SingleRecord TimeStamp "write"
  | OverlappedRollback TimeStamp

fun tcr_exist :: "txn_commit_record \<Rightarrow> bool" where
  "tcr_exist (TCR_None _) = False"
| "tcr_exist _ = True"

fun tcr_info :: "txn_commit_record \<Rightarrow> (TimeStamp \<times> write_type) option" where
  "tcr_info (TCR_None _) = None"
| "tcr_info (SingleRecord commit_ts w) = Some (commit_ts, w_type w)"
| "tcr_info (OverlappedRollback commit_ts) = Some (commit_ts, WT_Rollback)"

fun unwrap_single_record :: "txn_commit_record \<Rightarrow> ('e, TimeStamp \<times> write_type) result" where
  "unwrap_single_record (SingleRecord commit_ts w) = Ok (commit_ts, w_type w)"
| "unwrap_single_record _ = Panic"

fun unwrap_overlapped_rollback :: "txn_commit_record \<Rightarrow> ('e, TimeStamp) result" where
  "unwrap_overlapped_rollback (OverlappedRollback commit_ts) = Ok commit_ts"
| "unwrap_overlapped_rollback _ = Panic"

fun unwrap_none :: "txn_commit_record \<Rightarrow> ('e, overlapped_write option) result" where
  "unwrap_none (TCR_None ow) = Ok ow"
| "unwrap_none _ = Panic"

function commit_record_scan ::
    "mvcc_reader \<Rightarrow> Key \<Rightarrow> TimeStamp \<Rightarrow> TimeStamp \<Rightarrow> TimeStamp \<Rightarrow> txn_commit_record mvcc_result" where
  "commit_record_scan r key start_ts seek_ts gc_fence =
     rbind (seek_write r key seek_ts) (\<lambda>res.
       case res of
         None \<Rightarrow> Ok (TCR_None None)
       | Some (commit_ts, w) \<Rightarrow>
           if w_start_ts w = start_ts then Ok (SingleRecord commit_ts w)
           else if commit_ts = start_ts then
             (if w_has_overlapped_rollback w then Ok (OverlappedRollback commit_ts)
              else Ok (TCR_None (Some \<lparr> o_write = w, o_gc_fence = gc_fence \<rparr>)))
           else if commit_ts < start_ts then Ok (TCR_None None)
           else rbind (ts_prev commit_ts) (\<lambda>seek_ts'.
             commit_record_scan r key start_ts seek_ts'
               (if w_type w = WT_Put \<or> w_type w = WT_Delete then commit_ts else gc_fence)))"
  by pat_completeness auto
termination
  by (relation "measure (\<lambda>(r, key, start_ts, seek_ts, gc_fence). unat seek_ts)")
    (auto dest!: seek_write_le ts_prev_less simp: word_less_nat_alt word_le_nat_alt)

declare commit_record_scan.simps [simp del]

definition get_txn_commit_record ::
    "mvcc_reader \<Rightarrow> Key \<Rightarrow> TimeStamp \<Rightarrow> txn_commit_record mvcc_result" where
  "get_txn_commit_record r key start_ts = commit_record_scan r key start_ts ts_max 0"

subsection \<open>Scans\<close>

definition entries_from :: "'v tree \<Rightarrow> Key option \<Rightarrow> 'v tree" where
  "entries_from t start = (case start of Some x \<Rightarrow> dropWhile (\<lambda>(k, v). k < x) t | None \<Rightarrow> t)"

definition reached_end :: "Key option \<Rightarrow> Key \<Rightarrow> bool" where
  "reached_end end key = (case end of Some e \<Rightarrow> key \<ge> e | None \<Rightarrow> False)"

fun seek_ts_loop :: "TimeStamp \<Rightarrow> Value tree \<Rightarrow> Key option mvcc_result" where
  "seek_ts_loop ts [] = Ok None"
| "seek_ts_loop ts ((k, v) # es) =
     rbind (of_txn (write_parse v)) (\<lambda>w.
       if w_start_ts w = ts then rbind (of_codec (truncate_ts k)) (\<lambda>k'. Ok (Some k'))
       else seek_ts_loop ts es)"

definition seek_ts :: "mvcc_reader \<Rightarrow> TimeStamp \<Rightarrow> Key option mvcc_result" where
  "seek_ts r ts =
     (if r_scan_mode r = None then Panic else seek_ts_loop ts (e_write (r_engine r)))"

fun scan_locks_loop ::
    "Key option \<Rightarrow> (Key \<Rightarrow> lock \<Rightarrow> bool) \<Rightarrow> nat \<Rightarrow> Value tree \<Rightarrow> (Key \<times> lock) list \<Rightarrow>
     ((Key \<times> lock) list \<times> bool) mvcc_result" where
  "scan_locks_loop end f limit [] locks = Ok (locks, False)"
| "scan_locks_loop end f limit ((key, v) # es) locks =
     (if reached_end end key then Ok (locks, False)
      else rbind (of_txn (lock_parse v)) (\<lambda>lock.
        if f key lock
        then if limit > 0 \<and> length (locks @ [(key, lock)]) = limit
             then Ok (locks @ [(key, lock)], True)
             else scan_locks_loop end f limit es (locks @ [(key, lock)])
        else scan_locks_loop end f limit es locks))"

definition scan_locks_from_storage ::
    "mvcc_reader \<Rightarrow> Key option \<Rightarrow> Key option \<Rightarrow> (Key \<Rightarrow> lock \<Rightarrow> bool) \<Rightarrow> nat \<Rightarrow>
     ((Key \<times> lock) list \<times> bool) mvcc_result" where
  "scan_locks_from_storage r start end f limit =
     scan_locks_loop end f limit (entries_from (e_lock (r_engine r)) start) []"

definition load_in_memory_pessimistic_lock_range ::
    "mvcc_reader \<Rightarrow> Key option \<Rightarrow> Key option \<Rightarrow> (Key \<Rightarrow> pessimistic_lock \<Rightarrow> bool) \<Rightarrow> nat \<Rightarrow>
     ((Key \<times> lock) list \<times> bool) mvcc_result" where
  "load_in_memory_pessimistic_lock_range r start end f limit =
     (case s_txn_ext (r_snapshot r) of
        Some locks \<Rightarrow>
          rbind (check_term_version_status r locks) (\<lambda>_. peer_scan_locks start end f limit locks)
      | None \<Rightarrow> Ok ([], False))"

fun next_pair_from_storage ::
    "Key option \<Rightarrow> (Key \<Rightarrow> lock \<Rightarrow> bool) \<Rightarrow> Value tree \<Rightarrow>
     ((Key \<times> lock) option \<times> Value tree) mvcc_result" where
  "next_pair_from_storage end f [] = Ok (None, [])"
| "next_pair_from_storage end f ((key, v) # es) =
     (if reached_end end key then Ok (None, [])
      else rbind (of_txn (lock_parse v)) (\<lambda>lock.
        if f key lock then Ok (Some (key, lock), es) else next_pair_from_storage end f es))"

lemma next_pair_shorter:
  "next_pair_from_storage end f es = Ok (p, es') \<Longrightarrow>
   length es' + (if p = None then 0 else 1) \<le> length es"
  by (induction "end" f es rule: next_pair_from_storage.induct) (auto split: if_splits)

definition push_lock :: "(Key \<times> lock) list \<Rightarrow> Key \<times> lock \<Rightarrow> (Key \<times> lock) list" where
  "push_lock locks x = (if locks = [] \<or> fst (last locks) \<noteq> fst x then locks @ [x] else locks)"

definition locks_full :: "nat \<Rightarrow> (Key \<times> lock) list \<Rightarrow> bool" where
  "locks_full limit locks \<longleftrightarrow> limit > 0 \<and> length locks \<ge> limit"

function scan_locks_merge ::
    "Key option \<Rightarrow> (Key \<Rightarrow> lock \<Rightarrow> bool) \<Rightarrow> nat \<Rightarrow> bool \<Rightarrow>
     (Key \<times> lock) list \<Rightarrow> (Key \<times> lock) option \<Rightarrow> Value tree \<Rightarrow> (Key \<times> lock) list \<Rightarrow>
     ((Key \<times> lock) list \<times> bool) mvcc_result" where
  "scan_locks_merge end f limit mem_remain mem stored es locks =
     (case (mem, stored) of
        ([], None) \<Rightarrow> Ok (locks, mem_remain)
      | (m # ms, None) \<Rightarrow>
          let locks' = push_lock locks m in
          if locks_full limit locks' then Ok (locks', ms \<noteq> [] \<or> mem_remain)
          else scan_locks_merge end f limit mem_remain ms None es locks'
      | (_, Some s) \<Rightarrow>
          if mem = [] \<or> fst s \<le> fst (hd mem)
          then rbind (next_pair_from_storage end f es) (\<lambda>(stored', es').
            let locks' = push_lock locks s in
            if locks_full limit locks' then Ok (locks', mem \<noteq> [] \<or> stored' \<noteq> None \<or> mem_remain)
            else scan_locks_merge end f limit mem_remain mem stored' es' locks')
          else
            let locks' = push_lock locks (hd mem) in
            if locks_full limit locks' then Ok (locks', True)
            else scan_locks_merge end f limit mem_remain (tl mem) stored es locks')"
  by pat_completeness auto
termination
  by (relation "measure (\<lambda>(end, f, limit, mem_remain, mem, stored, es, locks).
      length mem + length es + (if stored = None then 0 else 1))")
    (auto dest: next_pair_shorter)

declare scan_locks_merge.simps [simp del]

definition scan_locks ::
    "mvcc_reader \<Rightarrow> Key option \<Rightarrow> Key option \<Rightarrow> (Key \<Rightarrow> txn_lock_ref \<Rightarrow> bool) \<Rightarrow> nat \<Rightarrow>
     ((Key \<times> lock) list \<times> bool) mvcc_result" where
  "scan_locks r start end f limit =
     rbind (load_in_memory_pessimistic_lock_range r start end (\<lambda>k l. f k (InMemory l)) limit)
       (\<lambda>(memory_locks, memory_has_remain).
         if memory_locks = []
         then scan_locks_from_storage r start end (\<lambda>k l. f k (Persisted l)) limit
         else rbind (next_pair_from_storage end (\<lambda>k l. f k (Persisted l))
                (entries_from (e_lock (r_engine r)) start)) (\<lambda>(stored, es).
           scan_locks_merge end (\<lambda>k l. f k (Persisted l)) limit memory_has_remain memory_locks
             stored es []))"

text \<open>
  The user keys whose latest change passes the filter. Skipping the versions of a key seeks to its
  version zero, which leaves the cursor in place when it stands there already; the entry is then
  recognised as one of the same user key.
\<close>

function latest_user_keys_loop ::
    "Key option \<Rightarrow> (Key \<Rightarrow> TimeStamp \<Rightarrow> bool) \<Rightarrow> nat \<Rightarrow> Value tree \<Rightarrow> Key option \<Rightarrow> Key list \<Rightarrow>
     (Key list \<times> bool) mvcc_result" where
  "latest_user_keys_loop end f limit [] cur keys = Ok (keys, False)"
| "latest_user_keys_loop end f limit ((key, v) # es) cur keys =
     (if reached_end end key then Ok (keys, False)
      else rbind (of_codec (decode_ts key)) (\<lambda>commit_ts.
        rbind (of_codec (truncate_ts key)) (\<lambda>user_key.
        rbind (of_txn (write_parse v)) (\<lambda>w.
          if w_type w = WT_Lock \<or> w_type w = WT_Rollback
          then latest_user_keys_loop end f limit es cur keys
          else if cur = Some user_key \<or> \<not> f user_key commit_ts
          then latest_user_keys_loop end f limit es (Some user_key) keys
          else if limit > 0 \<and> length (keys @ [user_key]) = limit
          then Ok (keys @ [user_key], True)
          else latest_user_keys_loop end f limit
            (dropWhile (\<lambda>(k, v). k < append_ts user_key 0) ((key, v) # es)) (Some user_key)
            (keys @ [user_key])))))"
  by pat_completeness auto
termination
proof (relation "measure (\<lambda>(end, f, limit, es, cur, keys).
    2 * length es +
    (case es of [] \<Rightarrow> 0
     | (k, v) # _ \<Rightarrow> if \<exists>u. truncate_ts k = Ok u \<and> cur = Some u then 0 else 1))",
    goal_cases)
  case (4 e f limit key v es cur keys commit_ts user_key w)
  then show ?case
  proof (cases "key < append_ts user_key 0")
    case True
    have "length (dropWhile (\<lambda>(k, v). k < append_ts user_key 0) es) \<le> length es"
      by (rule length_dropWhile_le)
    with True 4 show ?thesis by (auto split: list.split)
  next
    case False
    with 4 show ?thesis by auto
  qed
qed (auto split: list.split)

declare latest_user_keys_loop.simps(2) [simp del]

definition scan_latest_user_keys ::
    "mvcc_reader \<Rightarrow> Key option \<Rightarrow> Key option \<Rightarrow> (Key \<Rightarrow> TimeStamp \<Rightarrow> bool) \<Rightarrow> nat \<Rightarrow>
     (Key list \<times> bool) mvcc_result" where
  "scan_latest_user_keys r start end f limit =
     latest_user_keys_loop end f limit (entries_from (e_write (r_engine r)) start) None []"

function scan_keys_loop ::
    "Value tree \<Rightarrow> nat \<Rightarrow> Key option \<Rightarrow> Key list \<Rightarrow> (Key list \<times> Key option) mvcc_result" where
  "scan_keys_loop t limit start keys =
     (case entries_from t start of
        [] \<Rightarrow> Ok (keys, None)
      | (k, v) # _ \<Rightarrow>
          if length keys \<ge> limit then Ok (keys, start)
          else rbind (of_codec (truncate_ts k)) (\<lambda>key.
            scan_keys_loop t limit (Some (append_ts key 0)) (keys @ [key])))"
  by pat_completeness auto
termination
  by (relation "measure (\<lambda>(t, limit, start, keys). limit - length keys)") auto

declare scan_keys_loop.simps [simp del]

definition scan_keys :: "mvcc_reader \<Rightarrow> Key option \<Rightarrow> nat \<Rightarrow> (Key list \<times> Key option) mvcc_result" where
  "scan_keys r start limit = scan_keys_loop (e_write (r_engine r)) limit start []"

fun values_in_default_loop :: "Key \<Rightarrow> Value tree \<Rightarrow> (TimeStamp \<times> Value) list mvcc_result" where
  "values_in_default_loop key [] = Ok []"
| "values_in_default_loop key ((cur_key, v) # es) =
     rbind (of_codec (decode_ts_from cur_key)) (\<lambda>ts.
       if is_user_key_eq cur_key key
       then rbind (values_in_default_loop key es) (\<lambda>vs. Ok ((ts, v) # vs))
       else Ok [])"

definition scan_values_in_default :: "mvcc_reader \<Rightarrow> Key \<Rightarrow> (TimeStamp \<times> Value) list mvcc_result" where
  "scan_values_in_default r key =
     values_in_default_loop key (entries_from (e_default (r_engine r)) (Some key))"

section \<open>The reader of one transaction\<close>

record snapshot_reader =
  sr_reader :: mvcc_reader
  sr_start_ts :: TimeStamp

definition snapshot_reader_new :: "TimeStamp \<Rightarrow> snapshot \<Rightarrow> snapshot_reader" where
  "snapshot_reader_new start_ts snap = \<lparr> sr_reader = reader_new snap None, sr_start_ts = start_ts \<rparr>"

definition snapshot_reader_new_with_ctx ::
    "TimeStamp \<Rightarrow> snapshot \<Rightarrow> u64 \<Rightarrow> u64 \<Rightarrow> snapshot_reader" where
  "snapshot_reader_new_with_ctx start_ts snap term version =
     \<lparr> sr_reader = reader_new_with_ctx snap None term version, sr_start_ts = start_ts \<rparr>"

definition sr_get_txn_commit_record :: "snapshot_reader \<Rightarrow> Key \<Rightarrow> txn_commit_record mvcc_result" where
  "sr_get_txn_commit_record s key = get_txn_commit_record (sr_reader s) key (sr_start_ts s)"

definition sr_load_lock :: "snapshot_reader \<Rightarrow> Key \<Rightarrow> lock option mvcc_result" where
  "sr_load_lock s key = load_lock (sr_reader s) key"

definition sr_key_exist :: "snapshot_reader \<Rightarrow> Key \<Rightarrow> TimeStamp \<Rightarrow> bool mvcc_result" where
  "sr_key_exist s key ts =
     rbind (get_write (sr_reader s) key ts (Some (sr_start_ts s))) (\<lambda>w. Ok (w \<noteq> None))"

definition sr_get :: "snapshot_reader \<Rightarrow> Key \<Rightarrow> TimeStamp \<Rightarrow> Value option mvcc_result" where
  "sr_get s key ts = reader_get (sr_reader s) key ts (Some (sr_start_ts s))"

definition sr_get_write :: "snapshot_reader \<Rightarrow> Key \<Rightarrow> TimeStamp \<Rightarrow> write option mvcc_result" where
  "sr_get_write s key ts = get_write (sr_reader s) key ts (Some (sr_start_ts s))"

definition sr_get_write_with_commit_ts ::
    "snapshot_reader \<Rightarrow> Key \<Rightarrow> TimeStamp \<Rightarrow> (write \<times> TimeStamp) option mvcc_result" where
  "sr_get_write_with_commit_ts s key ts =
     get_write_with_commit_ts (sr_reader s) key ts (Some (sr_start_ts s))"

definition sr_seek_write ::
    "snapshot_reader \<Rightarrow> Key \<Rightarrow> TimeStamp \<Rightarrow> (TimeStamp \<times> write) option mvcc_result" where
  "sr_seek_write s key ts = seek_write (sr_reader s) key ts"

definition sr_load_data :: "snapshot_reader \<Rightarrow> Key \<Rightarrow> write \<Rightarrow> Value mvcc_result" where
  "sr_load_data s key w = load_data (sr_reader s) key w"

definition sr_get_old_value ::
    "snapshot_reader \<Rightarrow> Key \<Rightarrow> TimeStamp \<Rightarrow> bool \<Rightarrow> write option \<Rightarrow> old_value mvcc_result" where
  "sr_get_old_value s key ts prev_write_loaded prev_write =
     get_old_value (sr_reader s) key ts prev_write_loaded prev_write"

end
