(* ===== verification/MvccStore.thy ===== *)
theory MvccStore
  imports MvccReader
begin

text \<open>
  What the engine's column families hold when they are written by transactions only: the
  well-formed store, its view as three partial functions (write records, locks, values), and the
  refinement from the engine's write batches to updates of that view. The reader's seek is
  characterised over the view; the loops of the readers and of the transaction actions are
  verified against it.
\<close>

section \<open>The view of a store\<close>

definition write_at :: "engine \<Rightarrow> Key \<Rightarrow> TimeStamp \<Rightarrow> write option" where
  "write_at e key ts =
     (case get_cf e CF_WRITE (append_ts key ts) of
        None \<Rightarrow> None
      | Some v \<Rightarrow> (case write_parse v of Ok w \<Rightarrow> Some w | _ \<Rightarrow> None))"

definition lock_at :: "engine \<Rightarrow> Key \<Rightarrow> lock option" where
  "lock_at e key =
     (case get_cf e CF_LOCK key of
        None \<Rightarrow> None
      | Some v \<Rightarrow> (case lock_parse v of Ok l \<Rightarrow> Some l | _ \<Rightarrow> None))"

definition data_at :: "engine \<Rightarrow> Key \<Rightarrow> TimeStamp \<Rightarrow> Value option" where
  "data_at e key ts = get_cf e CF_DEFAULT (append_ts key ts)"

fun wf_entry :: "cf \<Rightarrow> Key \<times> Value \<Rightarrow> bool" where
  "wf_entry CF_WRITE (k, v) \<longleftrightarrow>
     (\<exists>raw ts w. k = append_ts (from_raw raw) ts \<and> v = write_to_bytes w \<and> wf_write w)"
| "wf_entry CF_LOCK (k, v) \<longleftrightarrow> (\<exists>raw l. k = from_raw raw \<and> v = lock_to_bytes l \<and> wf_lock l)"
| "wf_entry CF_DEFAULT (k, v) \<longleftrightarrow> (\<exists>raw ts. k = append_ts (from_raw raw) ts)"

definition wf_store :: "engine \<Rightarrow> bool" where
  "wf_store e \<longleftrightarrow>
     (\<forall>cf. sorted_tree (get_cf_tree e cf) \<and> (\<forall>x \<in> set (get_cf_tree e cf). wf_entry cf x))"

section \<open>Updates of the view\<close>

datatype store_op =
    PutWrite Key TimeStamp "write"
  | DelWrite Key TimeStamp
  | PutLock Key lock
  | DelLock Key
  | PutData Key TimeStamp Value
  | DelData Key TimeStamp

fun op_modify :: "store_op \<Rightarrow> modify" where
  "op_modify (PutWrite k ts w) = Put CF_WRITE (append_ts k ts) (write_to_bytes w)"
| "op_modify (DelWrite k ts) = Delete CF_WRITE (append_ts k ts)"
| "op_modify (PutLock k l) = Put CF_LOCK k (lock_to_bytes l)"
| "op_modify (DelLock k) = Delete CF_LOCK k"
| "op_modify (PutData k ts v) = Put CF_DEFAULT (append_ts k ts) v"
| "op_modify (DelData k ts) = Delete CF_DEFAULT (append_ts k ts)"

fun wf_op :: "store_op \<Rightarrow> bool" where
  "wf_op (PutWrite k ts w) \<longleftrightarrow> (\<exists>raw. k = from_raw raw) \<and> wf_write w"
| "wf_op (PutLock k l) \<longleftrightarrow> (\<exists>raw. k = from_raw raw) \<and> wf_lock l"
| "wf_op (PutData k ts v) \<longleftrightarrow> (\<exists>raw. k = from_raw raw)"
| "wf_op _ \<longleftrightarrow> True"

fun op_write :: "store_op \<Rightarrow> (Key \<Rightarrow> TimeStamp \<Rightarrow> write option) \<Rightarrow> Key \<Rightarrow> TimeStamp \<Rightarrow> write option" where
  "op_write (PutWrite k ts w) f = f(k := (f k)(ts := Some w))"
| "op_write (DelWrite k ts) f = f(k := (f k)(ts := None))"
| "op_write _ f = f"

fun op_lock :: "store_op \<Rightarrow> (Key \<Rightarrow> lock option) \<Rightarrow> Key \<Rightarrow> lock option" where
  "op_lock (PutLock k l) f = f(k := Some l)"
| "op_lock (DelLock k) f = f(k := None)"
| "op_lock _ f = f"

fun op_data :: "store_op \<Rightarrow> (Key \<Rightarrow> TimeStamp \<Rightarrow> Value option) \<Rightarrow> Key \<Rightarrow> TimeStamp \<Rightarrow> Value option" where
  "op_data (PutData k ts v) f = f(k := (f k)(ts := Some v))"
| "op_data (DelData k ts) f = f(k := (f k)(ts := None))"
| "op_data _ f = f"

subsection \<open>One update\<close>

lemma get_set_cf_tree [simp]:
  "get_cf_tree (set_cf_tree e cf t) cf' = (if cf' = cf then t else get_cf_tree e cf')"
  by (cases cf; cases cf') simp_all

lemma set_tree_insert: "set (tree_insert k v t) \<subseteq> insert (k, v) (set t)"
  by (induction k v t rule: tree_insert.induct) auto

lemma wf_storeD: "wf_store e \<Longrightarrow> sorted_tree (get_cf_tree e cf)"
  by (simp add: wf_store_def)

lemma wf_store_entry: "wf_store e \<Longrightarrow> get_cf e cf k = Some v \<Longrightarrow> wf_entry cf (k, v)"
  unfolding wf_store_def get_cf_def tree_get_def by (metis map_of_SomeD)

lemma wf_store_insert:
  "wf_store e \<Longrightarrow> wf_entry cf (k, v) \<Longrightarrow>
   wf_store (set_cf_tree e cf (tree_insert k v (get_cf_tree e cf)))"
  using set_tree_insert [of k v] by (auto simp: wf_store_def sorted_tree_insert)

lemma wf_store_remove:
  "wf_store e \<Longrightarrow> wf_store (set_cf_tree e cf (tree_remove k (get_cf_tree e cf)))"
  using set_tree_remove [of k] by (auto simp: wf_store_def sorted_tree_remove)

lemma get_cf_insert:
  "wf_store e \<Longrightarrow> get_cf (set_cf_tree e cf (tree_insert k v (get_cf_tree e cf))) cf' k' =
   (if cf' = cf \<and> k' = k then Some v else get_cf e cf' k')"
  by (simp add: get_cf_def btree.get_insert wf_storeD)

lemma get_cf_remove:
  "wf_store e \<Longrightarrow> get_cf (set_cf_tree e cf (tree_remove k (get_cf_tree e cf))) cf' k' =
   (if cf' = cf \<and> k' = k then None else get_cf e cf' k')"
  by (simp add: get_cf_def btree.get_remove wf_storeD)

lemmas view_defs = write_at_def lock_at_def data_at_def

lemma op_modify_refines:
  assumes "wf_store e" "wf_op op"
  obtains e' where "write_modify e (op_modify op) = (Ok e' :: ('e, engine) result)" "wf_store e'"
    "write_at e' = op_write op (write_at e)" "lock_at e' = op_lock op (lock_at e)"
    "data_at e' = op_data op (data_at e)"
proof (cases op)
  case (PutWrite k ts w)
  with assms show ?thesis
    by (intro that [of "set_cf_tree e CF_WRITE (tree_insert (append_ts k ts) (write_to_bytes w)
          (get_cf_tree e CF_WRITE))"])
      (auto simp: view_defs fun_eq_iff get_cf_insert simp del: get_cf_tree.simps set_cf_tree.simps
        intro!: wf_store_insert)
next
  case (DelWrite k ts)
  with assms show ?thesis
    by (intro that [of "set_cf_tree e CF_WRITE (tree_remove (append_ts k ts)
          (get_cf_tree e CF_WRITE))"])
      (auto simp: view_defs fun_eq_iff get_cf_remove simp del: get_cf_tree.simps set_cf_tree.simps
        intro!: wf_store_remove)
next
  case (PutLock k l)
  with assms show ?thesis
    by (intro that [of "set_cf_tree e CF_LOCK (tree_insert k (lock_to_bytes l)
          (get_cf_tree e CF_LOCK))"])
      (auto simp: view_defs fun_eq_iff get_cf_insert simp del: get_cf_tree.simps set_cf_tree.simps
        intro!: wf_store_insert)
next
  case (DelLock k)
  with assms show ?thesis
    by (intro that [of "set_cf_tree e CF_LOCK (tree_remove k (get_cf_tree e CF_LOCK))"])
      (auto simp: view_defs fun_eq_iff get_cf_remove simp del: get_cf_tree.simps set_cf_tree.simps
        intro!: wf_store_remove)
next
  case (PutData k ts v)
  with assms show ?thesis
    by (intro that [of "set_cf_tree e CF_DEFAULT (tree_insert (append_ts k ts) v
          (get_cf_tree e CF_DEFAULT))"])
      (auto simp: view_defs fun_eq_iff get_cf_insert simp del: get_cf_tree.simps set_cf_tree.simps
        intro!: wf_store_insert)
next
  case (DelData k ts)
  with assms show ?thesis
    by (intro that [of "set_cf_tree e CF_DEFAULT (tree_remove (append_ts k ts)
          (get_cf_tree e CF_DEFAULT))"])
      (auto simp: view_defs fun_eq_iff get_cf_remove simp del: get_cf_tree.simps set_cf_tree.simps
        intro!: wf_store_remove)
qed

subsection \<open>A batch\<close>

definition ops_write :: "store_op list \<Rightarrow> (Key \<Rightarrow> TimeStamp \<Rightarrow> write option) \<Rightarrow> Key \<Rightarrow> TimeStamp \<Rightarrow> write option" where
  "ops_write ops f = fold op_write ops f"

definition ops_lock :: "store_op list \<Rightarrow> (Key \<Rightarrow> lock option) \<Rightarrow> Key \<Rightarrow> lock option" where
  "ops_lock ops f = fold op_lock ops f"

definition ops_data :: "store_op list \<Rightarrow> (Key \<Rightarrow> TimeStamp \<Rightarrow> Value option) \<Rightarrow> Key \<Rightarrow> TimeStamp \<Rightarrow> Value option" where
  "ops_data ops f = fold op_data ops f"

lemma ops_simps [simp, mvcc_simps]:
  "ops_write [] f = f" "ops_write (op # ops) f = ops_write ops (op_write op f)"
  "ops_lock [] g = g" "ops_lock (op # ops) g = ops_lock ops (op_lock op g)"
  "ops_data [] h = h" "ops_data (op # ops) h = ops_data ops (op_data op h)"
  by (simp_all add: ops_write_def ops_lock_def ops_data_def)

lemma ops_refine:
  assumes "wf_store e" "list_all wf_op ops"
  obtains e' where "write_modifies e (map op_modify ops) = (Ok e' :: ('e, engine) result)"
    "wf_store e'" "write_at e' = ops_write ops (write_at e)"
    "lock_at e' = ops_lock ops (lock_at e)" "data_at e' = ops_data ops (data_at e)"
  using assms
proof (induction ops arbitrary: e thesis)
  case (Cons op ops)
  obtain e\<^sub>1 where e\<^sub>1: "write_modify e (op_modify op) = (Ok e\<^sub>1 :: ('e, engine) result)" "wf_store e\<^sub>1"
    "write_at e\<^sub>1 = op_write op (write_at e)" "lock_at e\<^sub>1 = op_lock op (lock_at e)"
    "data_at e\<^sub>1 = op_data op (data_at e)"
    using op_modify_refines [OF Cons.prems(2), of op] Cons.prems(3) by auto
  obtain e' where "write_modifies e\<^sub>1 (map op_modify ops) = (Ok e' :: ('e, engine) result)"
    "wf_store e'" "write_at e' = ops_write ops (write_at e\<^sub>1)"
    "lock_at e' = ops_lock ops (lock_at e\<^sub>1)" "data_at e' = ops_data ops (data_at e\<^sub>1)"
    using Cons.IH [OF _ e\<^sub>1(2)] Cons.prems(3) by auto
  with e\<^sub>1 show ?case by (intro Cons.prems(1)) auto
qed simp

section \<open>The latest version of a key\<close>

definition is_latest :: "(TimeStamp \<Rightarrow> write option) \<Rightarrow> TimeStamp \<Rightarrow> TimeStamp \<Rightarrow> write \<Rightarrow> bool" where
  "is_latest W ts c w \<longleftrightarrow> W c = Some w \<and> c \<le> ts \<and> (\<forall>c'. c < c' \<longrightarrow> c' \<le> ts \<longrightarrow> W c' = None)"

definition no_version :: "(TimeStamp \<Rightarrow> write option) \<Rightarrow> TimeStamp \<Rightarrow> bool" where
  "no_version W ts \<longleftrightarrow> (\<forall>c \<le> ts. W c = None)"

lemma write_at_entry:
  assumes "wf_store e"
  shows "write_at e key ts = Some w \<longleftrightarrow>
    get_cf e CF_WRITE (append_ts key ts) = Some (write_to_bytes w) \<and> wf_write w"
proof (cases "get_cf e CF_WRITE (append_ts key ts)")
  case (Some v)
  with wf_store_entry [OF assms Some] show ?thesis
    by (auto simp: write_at_def)
qed (simp add: write_at_def)

lemma write_at_None:
  assumes "wf_store e"
  shows "write_at e key ts = None \<longleftrightarrow> get_cf e CF_WRITE (append_ts key ts) = None"
proof (cases "get_cf e CF_WRITE (append_ts key ts)")
  case (Some v)
  with wf_store_entry [OF assms Some] show ?thesis by (auto simp: write_at_def)
qed (simp add: write_at_def)

lemma lock_at_entry:
  assumes "wf_store e"
  shows "lock_at e key = Some l \<longleftrightarrow> get_cf e CF_LOCK key = Some (lock_to_bytes l) \<and> wf_lock l"
proof (cases "get_cf e CF_LOCK key")
  case (Some v)
  with wf_store_entry [OF assms Some] show ?thesis
    by (auto simp: lock_at_def)
qed (simp add: lock_at_def)

lemma lock_at_None: "wf_store e \<Longrightarrow> lock_at e key = None \<longleftrightarrow> get_cf e CF_LOCK key = None"
  using wf_store_entry [of e CF_LOCK key] by (cases "get_cf e CF_LOCK key") (auto simp: lock_at_def)

lemma seek_write_cases:
  assumes "wf_store (r_engine r)"
  obtains (found) c w where "seek_write r (from_raw raw) ts = Ok (Some (c, w))"
      "is_latest (write_at (r_engine r) (from_raw raw)) ts c w"
    | (none) "seek_write r (from_raw raw) ts = Ok None"
      "no_version (write_at (r_engine r) (from_raw raw)) ts"
proof -
  let ?e = "r_engine r" and ?key = "from_raw raw"
  let ?t = "e_write ?e"
  have t: "sorted_tree ?t" "tree_get ?t = get_cf ?e CF_WRITE"
    using wf_storeD [OF assms, of CF_WRITE] by (auto simp: get_cf_def)
  show thesis
  proof (cases "tree_seek ?t (append_ts ?key ts)")
    case None
    then have "\<forall>j \<ge> append_ts ?key ts. get_cf ?e CF_WRITE j = None"
      using t btree.seek_None by metis
    then have "no_version (write_at ?e ?key) ts"
      by (simp add: no_version_def write_at_None [OF assms])
    with None show ?thesis by (intro none) (simp_all add: seek_write_def)
  next
    case (Some p)
    then obtain k v where kv: "tree_seek ?t (append_ts ?key ts) = Some (k, v)" by (cases p) simp
    then have get: "get_cf ?e CF_WRITE k = Some v" and ge: "append_ts ?key ts \<le> k"
      and min: "\<And>j. append_ts ?key ts \<le> j \<Longrightarrow> get_cf ?e CF_WRITE j \<noteq> None \<Longrightarrow> k \<le> j"
      using t btree.seek_Some by metis+
    obtain raw' c w where k: "k = append_ts (from_raw raw') c" "v = write_to_bytes w" "wf_write w"
      using wf_store_entry [OF assms get] by auto
    show ?thesis
    proof (cases "raw' = raw")
      case True
      have "write_at ?e ?key c' = None" if "c < c'" "c' \<le> ts" for c'
        using min [of "append_ts ?key c'"] that k True
        by (cases "get_cf ?e CF_WRITE (append_ts ?key c')") (auto simp: write_at_None [OF assms])
      then have "is_latest (write_at ?e ?key) ts c w"
        using get ge k True by (auto simp: is_latest_def write_at_entry [OF assms])
      then show ?thesis
        using kv k True
        by (intro found) (auto simp: seek_write_def decode_append_ts [unfolded decode_ts_def])
    next
      case False
      have "write_at ?e ?key c' = None" if "c' \<le> ts" for c'
      proof -
        have "append_ts ?key c' < k"
          using ge False that append_ts_less [of raw ts raw' c] append_ts_less [of raw c' raw' c]
          by (auto simp: k order.order_iff_strict)
        then show ?thesis
          using min [of "append_ts ?key c'"] that
          by (cases "get_cf ?e CF_WRITE (append_ts ?key c')") (auto simp: write_at_None [OF assms])
      qed
      then have "no_version (write_at ?e ?key) ts" by (simp add: no_version_def)
      with kv k False show ?thesis
        by (intro none) (simp_all add: seek_write_def decode_append_ts [unfolded decode_ts_def])
    qed
  qed
qed

section \<open>The reader's cursor\<close>

definition reader_inv :: "mvcc_reader \<Rightarrow> bool" where
  "reader_inv r \<longleftrightarrow> r_scan_mode r = None \<and>
     (case r_write_cursor r of None \<Rightarrow> True | Some c \<Rightarrow> cursor_inv (e_write (r_engine r)) c)"

lemma reader_inv_new [simp]: "reader_inv (reader_new snap None)"
  by (simp add: reader_inv_def reader_new_def)

lemma cursor_inv_fresh: "cursor_inv t (cursor_new (iter_new None None) Mixed b)"
  by (simp add: cursor_inv_def cursor_new_def iter_new_def cursor_valid_def)

lemma reader_seek_write_refines:
  assumes "sorted_tree (e_write (r_engine r))" "reader_inv r"
  shows "\<exists>r'. reader_inv r' \<and> r_snapshot r' = r_snapshot r \<and>
    reader_seek_write r key ts = rbind (seek_write r key ts) (\<lambda>res. Ok (res, r'))"
proof -
  let ?t = "e_write (r_engine r)"
  define r1 where "r1 = (if r_scan_mode r = None \<and> r_current_key r \<noteq> Some key
      then r\<lparr>r_current_key := Some key, r_write_cursor := None\<rparr> else r)"
  have r1: "r_snapshot r1 = r_snapshot r" "reader_inv r1"
    using assms(2) by (auto simp: r1_def reader_inv_def)
  then have "cursor_inv ?t (create_write_cursor r1)"
    by (auto simp: create_write_cursor_def reader_inv_def cursor_inv_fresh split: option.splits)
  then obtain b c where c: "near_seek ?t (create_write_cursor r1) (append_ts key ts) =
      (Ok (b, c) :: mvcc_error moved)" "sought ?t (append_ts key ts) b c"
    using near_seek_sought [OF assms(1)] by blast
  have "reader_inv (r1\<lparr>r_write_cursor := Some c\<rparr>)"
    using c(2) r1 by (simp add: reader_inv_def sought_def)
  moreover have "reader_seek_write r key ts =
      rbind (seek_write r key ts) (\<lambda>res. Ok (res, r1\<lparr>r_write_cursor := Some c\<rparr>))"
  proof (cases "tree_seek ?t (append_ts key ts)")
    case None
    with c r1 show ?thesis
      unfolding reader_seek_write_def r1_def [symmetric] Let_def seek_write_def
      by (simp add: sought_def)
  next
    case (Some p)
    obtain k v where p: "p = (k, v)" by force
    have "map_of ?t k = Some v" using Some p assms(1) by (simp add: tree_seek_Some_iff)
    moreover have "b" "cursor_at ?t c k" using Some p c(2) by (auto simp: sought_def)
    ultimately show ?thesis
      using c r1 Some p unfolding reader_seek_write_def r1_def [symmetric] Let_def seek_write_def
      by (cases "decode_ts_from k"; cases "write_parse v")
        (simp_all add: cursor_at_key cursor_at_value)
  qed
  ultimately show ?thesis using r1 by (intro exI [of _ "r1\<lparr>r_write_cursor := Some c\<rparr>"]) simp
qed

section \<open>The commit record of a transaction\<close>

definition is_data :: "write \<Rightarrow> bool" where
  "is_data w \<longleftrightarrow> w_type w = WT_Put \<or> w_type w = WT_Delete"

definition ts_ordered :: "(TimeStamp \<Rightarrow> write option) \<Rightarrow> bool" where
  "ts_ordered W \<longleftrightarrow> (\<forall>c w. W c = Some w \<longrightarrow> w_start_ts w \<le> c)"

definition no_record :: "(TimeStamp \<Rightarrow> write option) \<Rightarrow> TimeStamp \<Rightarrow> bool" where
  "no_record W s \<longleftrightarrow> (\<forall>c w. W c = Some w \<longrightarrow> w_start_ts w \<noteq> s)"

text \<open>The commit timestamp of the first change after \<open>s\<close>, zero when there is none.\<close>

definition fence_above :: "(TimeStamp \<Rightarrow> write option) \<Rightarrow> TimeStamp \<Rightarrow> TimeStamp \<Rightarrow> bool" where
  "fence_above W s g \<longleftrightarrow>
     (if g = 0 then \<forall>c w. s < c \<longrightarrow> W c = Some w \<longrightarrow> \<not> is_data w
      else s < g \<and> (\<exists>w. W g = Some w \<and> is_data w) \<and>
        (\<forall>c w. s < c \<longrightarrow> c < g \<longrightarrow> W c = Some w \<longrightarrow> \<not> is_data w))"

fun commit_record_ok :: "(TimeStamp \<Rightarrow> write option) \<Rightarrow> TimeStamp \<Rightarrow> txn_commit_record \<Rightarrow> bool" where
  "commit_record_ok W s (SingleRecord c w) \<longleftrightarrow>
     W c = Some w \<and> w_start_ts w = s \<and> (\<forall>c' w'. c < c' \<longrightarrow> W c' = Some w' \<longrightarrow> w_start_ts w' \<noteq> s)"
| "commit_record_ok W s (OverlappedRollback c) \<longleftrightarrow>
     c = s \<and> no_record W s \<and> (\<exists>w. W s = Some w \<and> w_has_overlapped_rollback w)"
| "commit_record_ok W s (TCR_None None) \<longleftrightarrow> no_record W s \<and> W s = None"
| "commit_record_ok W s (TCR_None (Some ow)) \<longleftrightarrow>
     no_record W s \<and> W s = Some (o_write ow) \<and> \<not> w_has_overlapped_rollback (o_write ow) \<and>
     fence_above W s (o_gc_fence ow)"

lemma ts_prev_pos: "s < (c :: TimeStamp) \<Longrightarrow> ts_prev c = Ok (c - 1)"
  by (auto simp: ts_prev_def word_gt_0)

lemma minus_one_less_iff: "s < (c :: TimeStamp) \<Longrightarrow> c - 1 < c' \<longleftrightarrow> c \<le> c'"
  using le_minus_one_iff [of c c'] word_gt_0 [of c] by (metis not_le word_not_simps(1))

lemma prev_measure:
  assumes "s < (c :: TimeStamp)" "c \<le> t"
  shows "unat (c - 1) < unat t"
proof -
  have "0 < c" using assms(1) by (metis word_gt_0 word_not_simps(1))
  then show ?thesis using unat_prev [of c] assms(2) unfolding word_le_nat_alt by linarith
qed

lemma no_recordI:
  assumes "ts_ordered W" "\<And>c w. s \<le> c \<Longrightarrow> W c = Some w \<Longrightarrow> w_start_ts w \<noteq> s"
  shows "no_record W s"
  using assms unfolding no_record_def ts_ordered_def by (metis linorder_le_less_linear not_le)

lemma fence_above_down:
  assumes "fence_above W t g" "s \<le> t"
    and "\<And>c w. s < c \<Longrightarrow> c \<le> t \<Longrightarrow> W c = Some w \<Longrightarrow> \<not> is_data w"
  shows "fence_above W s g"
  using assms unfolding fence_above_def by (smt (verit) le_less_trans not_le)

lemma fence_above_skip:
  assumes "fence_above W t g" "is_latest W t c w" "s < c"
  shows "fence_above W (c - 1) (if is_data w then c else g)"
proof (cases "is_data w")
  case True
  have "c \<noteq> 0" using assms(3) by auto
  then show ?thesis
    using True assms(2) by (auto simp: fence_above_def is_latest_def minus_one_less_iff [OF assms(3)])
next
  case False
  have "\<not> is_data w'" if "c - 1 < c'" "c' \<le> t" "W c' = Some w'" for c' w'
    using assms(2) False that
    by (cases "c' = c") (auto simp: is_latest_def minus_one_less_iff [OF assms(3)])
  moreover have "c - 1 \<le> t"
    using assms(2) minus_one_less_iff [OF assms(3), of c] by (auto simp: is_latest_def)
  ultimately show ?thesis using fence_above_down [OF assms(1)] False by simp
qed

lemma commit_record_scan_ok:
  fixes t :: TimeStamp
  assumes "wf_store (r_engine r)" "ts_ordered (write_at (r_engine r) (from_raw raw))"
    and "s \<le> t" "fence_above (write_at (r_engine r) (from_raw raw)) t g"
    and "\<forall>c w. t < c \<longrightarrow> write_at (r_engine r) (from_raw raw) c = Some w \<longrightarrow> w_start_ts w \<noteq> s"
  shows "\<exists>rec. commit_record_scan r (from_raw raw) s t g = Ok rec \<and>
    commit_record_ok (write_at (r_engine r) (from_raw raw)) s rec"
  using assms(3-)
proof (induction "unat t" arbitrary: t g rule: less_induct)
  case less
  let ?W = "write_at (r_engine r) (from_raw raw)"
  show ?case
  proof (rule seek_write_cases [OF assms(1), of raw t], goal_cases)
    case (1 c w)
    note seek = this(1) and latest = this(2)
    have above: "w_start_ts w' \<noteq> s" if "c < c'" "?W c' = Some w'" for c' w'
      using less.prems(3) latest that by (cases "c' \<le> t") (auto simp: is_latest_def not_le)
    have onwards: "w_start_ts w' \<noteq> s" if "w_start_ts w \<noteq> s" "c \<le> c'" "?W c' = Some w'" for c' w'
      using above [of c' w'] latest that by (cases "c' = c") (auto simp: is_latest_def)
    consider "w_start_ts w = s" | "w_start_ts w \<noteq> s" "c \<le> s" | "w_start_ts w \<noteq> s" "s < c"
      by fastforce
    then show ?case
    proof cases
      case 1
      with seek latest above show ?thesis
        by (subst commit_record_scan.simps) (auto simp: is_latest_def)
    next
      case 2
      have "no_record ?W s"
        using onwards [OF 2(1)] 2(2) by (intro no_recordI [OF assms(2)]) (metis order.trans)
      moreover have "fence_above ?W s g" if "c = s"
        using latest that
        by (intro fence_above_down [OF less.prems(2)]) (auto simp: is_latest_def)
      moreover have "?W s = None" if "c < s"
        using latest less.prems(1) that by (auto simp: is_latest_def)
      ultimately show ?thesis
        using seek latest 2 by (subst commit_record_scan.simps) (auto simp: is_latest_def)
    next
      case 3
      have "unat (c - 1) < unat t"
        using 3 latest by (auto simp: is_latest_def intro: prev_measure)
      moreover have "s \<le> c - 1" using 3 minus_one_less_iff [of s c s] by (auto simp: not_less)
      moreover have "\<forall>c' w'. c - 1 < c' \<longrightarrow> ?W c' = Some w' \<longrightarrow> w_start_ts w' \<noteq> s"
        using onwards 3 by (auto simp: minus_one_less_iff)
      ultimately have "\<exists>rec. commit_record_scan r (from_raw raw) s (c - 1)
          (if is_data w then c else g) = Ok rec \<and> commit_record_ok ?W s rec"
        using fence_above_skip [OF less.prems(2) latest 3(2)] by (intro less.hyps)
      moreover have "c \<noteq> s" "\<not> c < s" using 3 by auto
      ultimately show ?thesis
        using seek 3 by (subst commit_record_scan.simps) (simp add: ts_prev_pos is_data_def)
    qed
  next
    case 2
    then have none: "?W c = None" if "c \<le> t" for c using that by (simp add: no_version_def)
    have "no_record ?W s"
      unfolding no_record_def using less.prems(3) none by (metis not_le option.distinct(1))
    with none 2 less.prems(1) show ?case by (subst commit_record_scan.simps) auto
  qed
qed

lemma get_txn_commit_record_ok:
  assumes "wf_store (r_engine r)" "ts_ordered (write_at (r_engine r) (from_raw raw))"
  obtains rec where "get_txn_commit_record r (from_raw raw) s = Ok rec"
    "commit_record_ok (write_at (r_engine r) (from_raw raw)) s rec"
proof -
  have "\<not> ts_max < c" for c by (simp add: ts_max_def)
  then show thesis
    using commit_record_scan_ok [OF assms, of s ts_max 0] that
    by (auto simp: get_txn_commit_record_def fence_above_def ts_max_def)
qed

section \<open>The latest change of a key\<close>

definition latest_data :: "(TimeStamp \<Rightarrow> write option) \<Rightarrow> TimeStamp \<Rightarrow> TimeStamp \<Rightarrow> write \<Rightarrow> bool" where
  "latest_data W ts c w \<longleftrightarrow> W c = Some w \<and> is_data w \<and> c \<le> ts \<and>
     (\<forall>c' w'. c < c' \<longrightarrow> c' \<le> ts \<longrightarrow> W c' = Some w' \<longrightarrow> \<not> is_data w')"

definition change_below :: "(TimeStamp \<Rightarrow> write option) \<Rightarrow> TimeStamp \<Rightarrow> TimeStamp \<Rightarrow> write \<Rightarrow> bool" where
  "change_below W ts c w \<longleftrightarrow> W c = Some w \<and> is_data w \<and> c < ts \<and>
     (\<forall>c' w'. c < c' \<longrightarrow> c' < ts \<longrightarrow> W c' = Some w' \<longrightarrow> \<not> is_data w')"

text \<open>
  What the lock and rollback records of a key say about the change before them is right. A deletion
  may have been collected as garbage, with everything before it.
\<close>

definition last_change_right :: "(TimeStamp \<Rightarrow> write option) \<Rightarrow> TimeStamp \<Rightarrow> last_change \<Rightarrow> bool" where
  "last_change_right W c lc \<longleftrightarrow>
     (case lc of
        LC_Unknown \<Rightarrow> True
      | LC_NotExist \<Rightarrow> (\<forall>t p. change_below W c t p \<longrightarrow> w_type p \<noteq> WT_Put)
      | LC_Exist t v \<Rightarrow>
          (\<exists>p. change_below W c t p) \<or> t < c \<and> W t = None \<and> (\<forall>t' p. \<not> change_below W c t' p))"

definition last_change_ok :: "(TimeStamp \<Rightarrow> write option) \<Rightarrow> bool" where
  "last_change_ok W \<longleftrightarrow>
     (\<forall>c w. W c = Some w \<longrightarrow> \<not> is_data w \<longrightarrow> last_change_right W c (w_last_change w))"

lemma latest_data_unique:
  "latest_data W ts c w \<Longrightarrow> latest_data W ts c' w' \<Longrightarrow> c = c' \<and> w = w'"
  unfolding latest_data_def by (metis linorder_cases option.inject)

lemma change_below_unique:
  "change_below W ts c w \<Longrightarrow> change_below W ts c' w' \<Longrightarrow> c = c' \<and> w = w'"
  unfolding change_below_def by (metis linorder_cases option.inject)

lemma latest_is_latest_data:
  "is_latest W ts c w \<Longrightarrow> is_data w \<Longrightarrow> latest_data W ts c w"
  by (auto simp: is_latest_def latest_data_def)

lemma latest_data_skip:
  assumes "is_latest W ts c w" "\<not> is_data w"
  shows "latest_data W ts c' w' \<longleftrightarrow> change_below W c c' w'"
proof
  assume l: "latest_data W ts c' w'"
  then have "c' \<noteq> c" "\<not> c < c'" using assms by (auto simp: is_latest_def latest_data_def)
  then have "c' < c" by simp
  with l assms show "change_below W c c' w'"
    unfolding latest_data_def is_latest_def change_below_def by (meson less_le_trans less_imp_le)
next
  assume b: "change_below W c c' w'"
  have "\<not> is_data p" if "c' < d" "d \<le> ts" "W d = Some p" for d p
    using b assms that unfolding change_below_def is_latest_def
    by (cases d c rule: linorder_cases) auto
  with b assms show "latest_data W ts c' w'"
    by (auto simp: latest_data_def change_below_def is_latest_def)
qed

lemma change_below_prev: "s < c \<Longrightarrow> change_below W c c' w' \<longleftrightarrow> latest_data W (c - 1) c' w'"
proof -
  assume "s < c"
  then have "x < c \<longleftrightarrow> x \<le> c - 1" for x
    using minus_one_less_iff [of s c x] by (auto simp: not_le [symmetric])
  then show ?thesis by (simp add: change_below_def latest_data_def)
qed

definition visible_put :: "(TimeStamp \<Rightarrow> write option) \<Rightarrow> TimeStamp \<Rightarrow> (write \<times> TimeStamp) option \<Rightarrow> bool" where
  "visible_put W ts res \<longleftrightarrow>
     (\<forall>w c. res = Some (w, c) \<longleftrightarrow> latest_data W ts c w \<and> w_type w = WT_Put)"

lemma visible_putI_data:
  assumes "latest_data W ts c w"
  shows "visible_put W ts (if w_type w = WT_Put then Some (w, c) else None)"
  unfolding visible_put_def using assms
  by (metis latest_data_unique option.distinct(1) option.inject prod.inject)

lemma visible_putI_none:
  "(\<And>c w. latest_data W ts c w \<Longrightarrow> w_type w \<noteq> WT_Put) \<Longrightarrow> visible_put W ts None"
  by (auto simp: visible_put_def)

text \<open>The records a read at \<open>ts\<close> meets, down to the latest change, pass the check of GC fences.\<close>

definition fence_free :: "(TimeStamp \<Rightarrow> write option) \<Rightarrow> TimeStamp option \<Rightarrow> TimeStamp \<Rightarrow> bool" where
  "fence_free W lim ts \<longleftrightarrow>
     (\<forall>c w. W c = Some w \<longrightarrow> c \<le> ts \<longrightarrow>
       (\<forall>c' w'. c < c' \<longrightarrow> c' \<le> ts \<longrightarrow> W c' = Some w' \<longrightarrow> \<not> is_data w') \<longrightarrow> gc_fence_passed lim w)"

lemma fence_free_latest: "fence_free W lim ts \<Longrightarrow> is_latest W ts c w \<Longrightarrow> gc_fence_passed lim w"
  by (auto simp: fence_free_def is_latest_def)

lemma fence_free_data: "fence_free W lim ts \<Longrightarrow> latest_data W ts c w \<Longrightarrow> gc_fence_passed lim w"
  by (auto simp: fence_free_def latest_data_def)

lemma fence_free_skip:
  assumes "fence_free W lim ts" "is_latest W ts c w" "\<not> is_data w" "s < c"
  shows "fence_free W lim (c - 1)"
proof -
  have prev: "x \<le> c - 1 \<longleftrightarrow> x < c" for x
    using minus_one_less_iff [OF assms(4), of x] by (auto simp: not_le [symmetric])
  have "\<not> is_data w'" if "c \<le> c'" "c' \<le> ts" "W c' = Some w'" for c' w'
    using assms(2,3) that by (cases "c' = c") (auto simp: is_latest_def)
  note newer = this
  show ?thesis
    unfolding fence_free_def prev
  proof (intro allI impI)
    fix d p
    assume d: "W d = Some p" "d < c" "\<forall>c' w'. d < c' \<longrightarrow> c' < c \<longrightarrow> W c' = Some w' \<longrightarrow> \<not> is_data w'"
    have "\<not> is_data w'" if "d < c'" "c' \<le> ts" "W c' = Some w'" for c' w'
      using d(3) newer that by (cases "c' < c") (auto simp: not_less)
    moreover have "d \<le> ts" using d(2) assms(2) by (auto simp: is_latest_def)
    ultimately show "gc_fence_passed lim p" using assms(1) d(1) by (auto simp: fence_free_def)
  qed
qed

lemma get_last_change_write_ok:
  assumes "wf_store (r_engine r)" "W = write_at (r_engine r) key"
    and "\<And>d p. change_below W c d p \<Longrightarrow> gc_fence_passed lim p"
    and "last_change_right W c (LC_Exist t v)"
  shows "\<exists>res. get_last_change_write r key lim t = Ok res \<and>
    (\<forall>w d. res = Some (w, d) \<longleftrightarrow> change_below W c d w \<and> w_type w = WT_Put)"
proof (cases "\<exists>p. change_below W c t p")
  case True
  then obtain p where p: "change_below W c t p" ..
  then have "get_cf (r_engine r) CF_WRITE (append_ts key t) = Some (write_to_bytes p)" "wf_write p"
    using assms(1) by (auto simp: change_below_def assms(2) write_at_entry)
  moreover have "gc_fence_passed lim p" "is_data p"
    using p assms(3) [OF p] by (auto simp: change_below_def)
  ultimately show ?thesis
    using p by (auto simp: get_last_change_write_def is_data_def dest: change_below_unique [OF p])
next
  case False
  with assms(4) have "W t = None" "\<forall>t' p. \<not> change_below W c t' p"
    by (auto simp: last_change_right_def)
  then show ?thesis
    using assms(1,2) by (simp add: get_last_change_write_def write_at_None)
qed

lemma get_write_scan_ok:
  fixes t :: TimeStamp
  assumes "wf_store (r_engine r)" "W = write_at (r_engine r) (from_raw raw)"
    and "last_change_ok W" "W 0 = None" "fence_free W lim t"
  shows "\<exists>res m. get_write_scan r (from_raw raw) lim t n = Ok (res, m) \<and> visible_put W t res"
  using assms(5)
proof (induction "unat t" arbitrary: t n rule: less_induct)
  case less
  show ?case
  proof (rule seek_write_cases [OF assms(1), of raw t], goal_cases)
    case (1 c w)
    note seek = this(1) and latest = this(2) [folded assms(2)]
    have fence: "gc_fence_passed lim w" by (rule fence_free_latest [OF less.prems latest])
    have c: "0 < c" "c \<le> t" using latest assms(4) by (auto simp: is_latest_def word_gt_0)
    show ?case
    proof (cases "is_data w")
      case True
      then show ?thesis
        using seek fence visible_putI_data [OF latest_is_latest_data [OF latest True]]
        by (subst get_write_scan.simps) (auto simp: is_data_def)
    next
      case False
      have right: "last_change_right W c (w_last_change w)"
        using assms(3) latest False by (auto simp: last_change_ok_def is_latest_def)
      have skip: "latest_data W t c' w' \<longleftrightarrow> change_below W c c' w'" for c' w'
        by (rule latest_data_skip [OF latest False])
      show ?thesis
      proof (cases "far_last_change w")
        case None
        obtain res m where "get_write_scan r (from_raw raw) lim (c - 1) (n + 1) = Ok (res, m)"
            "visible_put W (c - 1) res"
          using less.hyps [OF prev_measure [OF c] fence_free_skip [OF less.prems latest False c(1)]]
          by blast
        moreover have "t \<noteq> 0" using c by auto
        moreover have "visible_put W t None" if "w_last_change w = LC_NotExist"
          using right that by (intro visible_putI_none) (simp add: skip last_change_right_def)
        moreover have "visible_put W t res \<longleftrightarrow> visible_put W (c - 1) res" for res
          unfolding visible_put_def skip change_below_prev [OF c(1)] ..
        ultimately show ?thesis
          using seek fence False None c
          by (subst get_write_scan.simps) (auto simp: is_data_def is_zero_def ts_prev_pos)
      next
        case (Some d)
        then obtain v where "w_last_change w = LC_Exist d v"
          by (auto simp: far_last_change_def split: last_change.splits if_splits)
        moreover have "gc_fence_passed lim p" if "change_below W c b p" for b p
          using fence_free_data [OF less.prems] that by (simp add: skip)
        ultimately obtain res where "get_last_change_write r (from_raw raw) lim d = Ok res"
            "visible_put W t res"
          using get_last_change_write_ok [OF assms(1,2), of c lim d v] right
          unfolding visible_put_def skip by metis
        with seek fence False Some \<open>w_last_change w = LC_Exist d v\<close> show ?thesis
          by (subst get_write_scan.simps) (auto simp: is_data_def)
      qed
    qed
  next
    case 2
    have "visible_put W t None"
      using 2(2) unfolding assms(2) [symmetric]
      by (intro visible_putI_none) (auto simp: no_version_def latest_data_def)
    with 2(1) show ?case by (subst get_write_scan.simps) auto
  qed
qed

lemma get_write_with_commit_ts_ok:
  assumes "wf_store (r_engine r)" "W = write_at (r_engine r) (from_raw raw)"
    and "last_change_ok W" "W 0 = None" "fence_free W lim ts"
  obtains res where "get_write_with_commit_ts r (from_raw raw) ts lim = Ok res" "visible_put W ts res"
  using get_write_scan_ok [OF assms, where n = 0] that by (auto simp: get_write_with_commit_ts_def)

lemma load_lock_ok:
  assumes "wf_store (r_engine r)" "s_txn_ext (r_snapshot r) = None"
  shows "load_lock r key = Ok (lock_at (r_engine r) key)"
proof (cases "lock_at (r_engine r) key")
  case None
  then have "get_cf (r_engine r) CF_LOCK key = None" using assms(1) by (simp add: lock_at_None)
  then show ?thesis
    unfolding None using assms(2) by (simp add: load_lock_def load_in_memory_pessimistic_lock_def)
next
  case (Some l)
  then have "get_cf (r_engine r) CF_LOCK key = Some (lock_to_bytes l)" "wf_lock l"
    using assms(1) by (simp_all add: lock_at_entry)
  then show ?thesis
    unfolding Some using assms(2) by (simp add: load_lock_def load_in_memory_pessimistic_lock_def)
qed

section \<open>Stores with one version\<close>

definition single_version :: "bytes \<Rightarrow> TimeStamp \<Rightarrow> write \<Rightarrow> engine" where
  "single_version raw ts w =
     engine_new\<lparr>e_write := [(append_ts (from_raw raw) ts, write_to_bytes w)]\<rparr>"

lemma wf_engine_new [simp]: "wf_store engine_new"
proof -
  have "get_cf_tree engine_new cf = []" for cf by (cases cf) (simp_all add: engine_new_def)
  then show ?thesis by (simp add: wf_store_def)
qed

lemma view_engine_new [simp]:
  "write_at engine_new key ts = None" "lock_at engine_new key = None" "data_at engine_new key ts = None"
  by (simp_all add: view_defs get_cf_def engine_new_def tree_get_def)

lemma wf_single_version [simp]:
  assumes "wf_write w"
  shows "wf_store (single_version raw ts w)"
proof -
  have "wf_entry CF_WRITE (append_ts (from_raw raw) ts, write_to_bytes w)" using assms by auto
  from wf_store_insert [OF wf_engine_new this] show ?thesis
    by (simp add: single_version_def engine_new_def)
qed

lemma write_at_single_version [simp]:
  "wf_write w \<Longrightarrow> write_at (single_version raw ts w) key c =
   (if key = from_raw raw \<and> c = ts then Some w else None)"
  by (auto simp: single_version_def write_at_def get_cf_def tree_get_def)

lemma is_latest_unique: "is_latest W ts c w \<Longrightarrow> is_latest W ts c' w' \<Longrightarrow> c = c' \<and> w = w'"
  unfolding is_latest_def by (metis linorder_cases option.distinct(1) option.inject)

lemma is_latest_some_version: "is_latest W ts c w \<Longrightarrow> \<not> no_version W ts"
  by (auto simp: is_latest_def no_version_def)

section \<open>Properties of the store and its reader\<close>

text \<open>
  C34: Applying a batch of updates of records, locks and values to a well-formed store gives a
  well-formed store whose view is the old view with the updates applied in order; it never fails.
\<close>

theorem batch_refines_view:
  assumes "wf_store e" "list_all wf_op ops"
  shows "\<exists>e'. write_modifies e (map op_modify ops) = (Ok e' :: (unit, engine) result) \<and> wf_store e' \<and>
    write_at e' = ops_write ops (write_at e) \<and> lock_at e' = ops_lock ops (lock_at e) \<and>
    data_at e' = ops_data ops (data_at e)"
  by (rule ops_refine [OF assms, where 'e = unit]) blast

theorem batch_refines_view_witness:
  "\<exists>e'. write_modifies engine_new (map op_modify
      [PutWrite (from_raw [1]) 8 (write_new WT_Put 5 (Some [118])), DelLock (from_raw [1])]) =
      (Ok e' :: (unit, engine) result) \<and>
    write_at e' (from_raw [1]) 8 = Some (write_new WT_Put 5 (Some [118]))"
  using batch_refines_view [of engine_new
      "[PutWrite (from_raw [1]) 8 (write_new WT_Put 5 (Some [118])), DelLock (from_raw [1])]"]
  by (auto simp: is_short_value_def SHORT_VALUE_MAX_LEN_def fun_eq_iff)

text \<open>
  C35: The reader's seek, which keeps a cursor between calls and moves it to nearby keys, returns the
  result of a fresh seek on every call, errors included, and leaves the reader ready for the next.
\<close>

theorem reader_seek_equiv:
  assumes "sorted_tree (e_write (r_engine r))" "reader_inv r"
  shows "\<exists>r'. reader_inv r' \<and> r_snapshot r' = r_snapshot r \<and>
    reader_seek_write r key ts = rbind (seek_write r key ts) (\<lambda>res. Ok (res, r'))"
  using assms by (rule reader_seek_write_refines)

theorem reader_seek_equiv_witness:
  "\<exists>r'. reader_seek_write (reader_new
      \<lparr> s_engine = single_version [1] 8 (write_new WT_Put 5 None), s_txn_ext = None \<rparr> None)
      (from_raw [1]) 9 = Ok (Some (8, write_new WT_Put 5 None), r')"
proof -
  define r where "r = reader_new
    \<lparr> s_engine = single_version [1] 8 (write_new WT_Put 5 None), s_txn_ext = None \<rparr> None"
  have e: "r_engine r = single_version [1] 8 (write_new WT_Put 5 None)"
    by (simp add: r_def reader_new_def)
  have "sorted_tree (e_write (r_engine r))"
    by (simp add: e single_version_def)
  from reader_seek_equiv [OF this, of "from_raw [1]" 9]
  obtain r' where "reader_seek_write r (from_raw [1]) 9 =
      rbind (seek_write r (from_raw [1]) 9) (\<lambda>res. Ok (res, r'))"
    by (auto simp: r_def)
  moreover have "seek_write r (from_raw [1]) 9 = Ok (Some (8, write_new WT_Put 5 None))"
    by (simp add: seek_write_def e single_version_def tree_seek_Cons decode_append_ts [unfolded decode_ts_def])
  ultimately show ?thesis by (auto simp: r_def)
qed

text \<open>
  A seek on a well-formed store finds the newest version of the key at or below the timestamp,
  and nothing exactly when there is none; it never fails.
\<close>

theorem seek_write_latest:
  assumes "wf_store (r_engine r)"
  shows "(seek_write r (from_raw raw) ts = Ok (Some (c, w)) \<longleftrightarrow>
      is_latest (write_at (r_engine r) (from_raw raw)) ts c w) \<and>
    (seek_write r (from_raw raw) ts = Ok None \<longleftrightarrow>
      no_version (write_at (r_engine r) (from_raw raw)) ts)"
  by (rule seek_write_cases [OF assms, of raw ts])
    (auto dest: is_latest_unique is_latest_some_version)

theorem seek_write_latest_witness:
  "seek_write (reader_new \<lparr> s_engine = single_version [1] 8 (write_new WT_Put 5 None),
      s_txn_ext = None \<rparr> None) (from_raw [1]) 9 = Ok (Some (8, write_new WT_Put 5 None))"
  using seek_write_latest [of "reader_new \<lparr> s_engine = single_version [1] 8 (write_new WT_Put 5 None),
      s_txn_ext = None \<rparr> None" "[1]" 9 8 "write_new WT_Put 5 None"]
  by (simp add: reader_new_def is_latest_def)

text \<open>
  C36: Looking up the commit record of a transaction on a key never fails and decides it: a record of
  the transaction is returned if there is one; otherwise a rollback merged into another
  transaction's record at the same timestamp; otherwise the record that a rollback would overwrite,
  with the commit timestamp of the next change after it as its GC fence.
\<close>

theorem commit_record_decided:
  assumes "wf_store (r_engine r)" "ts_ordered (write_at (r_engine r) (from_raw raw))"
  shows "\<exists>rec. get_txn_commit_record r (from_raw raw) start_ts = Ok rec \<and>
    (let W = write_at (r_engine r) (from_raw raw);
         absent = (\<forall>c w. W c = Some w \<longrightarrow> w_start_ts w \<noteq> start_ts)
     in case rec of
          SingleRecord c w \<Rightarrow> W c = Some w \<and> w_start_ts w = start_ts
        | OverlappedRollback c \<Rightarrow> absent \<and> c = start_ts \<and> 
            (\<exists>w. W c = Some w \<and> w_has_overlapped_rollback w)
        | TCR_None None \<Rightarrow> absent \<and> W start_ts = None
        | TCR_None (Some ow) \<Rightarrow> absent \<and> W start_ts = Some (o_write ow) \<and>
            \<not> w_has_overlapped_rollback (o_write ow) \<and> fence_above W start_ts (o_gc_fence ow))"
proof (rule get_txn_commit_record_ok [OF assms, of start_ts])
  fix rec
  assume "get_txn_commit_record r (from_raw raw) start_ts = Ok rec"
    "commit_record_ok (write_at (r_engine r) (from_raw raw)) start_ts rec"
  then show ?thesis
    unfolding Let_def no_record_def [symmetric]
    by (intro exI [of _ rec]) (auto split: txn_commit_record.split option.split)
qed

theorem commit_record_decided_witness:
  "get_txn_commit_record (reader_new \<lparr> s_engine = single_version [1] 8 (write_new WT_Put 5 None),
      s_txn_ext = None \<rparr> None) (from_raw [1]) 8 =
   Ok (TCR_None (Some \<lparr> o_write = write_new WT_Put 5 None, o_gc_fence = 0 \<rparr>))"
proof -
  define e where "e = single_version [1] 8 (write_new WT_Put 5 None)"
  define r where "r = reader_new \<lparr> s_engine = e, s_txn_ext = None \<rparr> None"
  have [simp]: "r_engine r = e" "w_start_ts (write_new WT_Put 5 None) = 5"
    "\<not> w_has_overlapped_rollback (write_new WT_Put 5 None)"
    by (simp_all add: r_def reader_new_def write_new_def)
  have [simp]: "write_at e (from_raw [1]) c = (if c = 8 then Some (write_new WT_Put 5 None) else None)"
    for c by (simp add: e_def)
  have "wf_store (r_engine r)" by (simp add: e_def)
  moreover have "ts_ordered (write_at (r_engine r) (from_raw [1]))" by (simp add: ts_ordered_def)
  ultimately have "\<exists>rec. get_txn_commit_record r (from_raw [1]) 8 = Ok rec \<and>
      rec = TCR_None (Some \<lparr> o_write = write_new WT_Put 5 None, o_gc_fence = 0 \<rparr>)"
    by (rule commit_record_decided [of r "[1]" 8, THEN ex_forward])
      (auto simp: Let_def fence_above_def split: txn_commit_record.splits option.splits if_splits)
  then show ?thesis by (simp add: r_def e_def)
qed



end
