(* ===== verification/ConcurrencyManager.thy ===== *)
theory ConcurrencyManager
  imports KvEngine
begin

text \<open>
  The concurrency manager (\<open>components/concurrency_manager/src\<close>): the maximal timestamp of all reads
  with its limit (\<open>lib.rs\<close>), and the table of in-memory locks as one thread sees it
  (\<open>lock_table.rs\<close>, \<open>key_handle.rs\<close>). The clock and the timestamp oracle are arguments: \<open>now\<close> in
  milliseconds, \<open>tso\<close> the oracle's answer, if one arrives in time. A skip list is the list of its
  entries in key order; a handle is its lock store.
\<close>

section \<open>The maximal timestamp\<close>

datatype action_on_invalid_max_ts = ActionPanic | ActionError | ActionLog

fun atomic_action_store :: "action_on_invalid_max_ts \<Rightarrow> nat" where
  "atomic_action_store ActionPanic = 0"
| "atomic_action_store ActionError = 1"
| "atomic_action_store ActionLog = 2"

definition atomic_action_load :: "nat \<Rightarrow> ('e, action_on_invalid_max_ts) result" where
  "atomic_action_load n =
     (if n = 0 then Ok ActionPanic else if n = 1 then Ok ActionError
      else if n = 2 then Ok ActionLog else Panic)"

record concurrency_manager =
  cm_max_ts :: TimeStamp
  cm_lock_table :: "lock option tree"
  cm_limit :: TimeStamp
  cm_limit_update_time :: nat
  cm_limit_valid_duration :: nat
  cm_action :: nat
  cm_drift_allowance_ms :: u64

definition cm_new :: "TimeStamp \<Rightarrow> nat \<Rightarrow> action_on_invalid_max_ts \<Rightarrow> u64 \<Rightarrow> nat \<Rightarrow> concurrency_manager" where
  "cm_new latest_ts limit_valid_duration action drift_allowance now =
     \<lparr> cm_max_ts = latest_ts, cm_lock_table = [], cm_limit = 0, cm_limit_update_time = now,
       cm_limit_valid_duration = limit_valid_duration, cm_action = atomic_action_store action,
       cm_drift_allowance_ms = drift_allowance \<rparr>"

definition set_max_ts_limit :: "nat \<Rightarrow> TimeStamp \<Rightarrow> concurrency_manager \<Rightarrow> concurrency_manager" where
  "set_max_ts_limit now ts_from_tso cm =
     (if is_max ts_from_tso then cm
      else
        let limit = compose (physical ts_from_tso + cm_drift_allowance_ms cm) (logical ts_from_tso) in
        if limit \<le> cm_limit cm then cm
        else cm\<lparr>cm_limit := limit, cm_limit_update_time := now\<rparr>)"

type_synonym max_ts_result = "(TimeStamp \<times> TimeStamp, unit) result"

definition report_error :: "concurrency_manager \<Rightarrow> TimeStamp \<Rightarrow> bool \<Rightarrow> max_ts_result" where
  "report_error cm new_ts tso_confirmed =
     rbind (atomic_action_load (cm_action cm)) (\<lambda>action.
       if action = ActionPanic \<and> tso_confirmed then Panic
       else if action = ActionError \<and> tso_confirmed then Err (new_ts, cm_limit cm)
       else Ok ())"

definition double_check ::
    "nat \<Rightarrow> TimeStamp option \<Rightarrow> TimeStamp \<Rightarrow> concurrency_manager \<Rightarrow>
     max_ts_result \<times> concurrency_manager" where
  "double_check now tso new_ts cm =
     (let cm = (case tso of Some ts \<Rightarrow> set_max_ts_limit now ts cm | None \<Rightarrow> cm);
          tso_confirmed = (tso \<noteq> None)
      in (if new_ts > cm_limit cm then report_error cm new_ts tso_confirmed else Ok (), cm))"

definition check_max_ts_limit ::
    "nat \<Rightarrow> TimeStamp option \<Rightarrow> TimeStamp \<Rightarrow> concurrency_manager \<Rightarrow>
     max_ts_result \<times> concurrency_manager" where
  "check_max_ts_limit now tso new_ts cm =
     (if \<not> is_zero (cm_limit cm) \<and> new_ts > cm_limit cm
      then
        let since = now - cm_limit_update_time cm in
        if since < cm_limit_valid_duration cm then double_check now tso new_ts cm
        else
          let approximate_limit =
            compose (physical (cm_limit cm) + of_nat since) (logical (cm_limit cm)) in
          if new_ts > approximate_limit then double_check now tso new_ts cm else (Ok (), cm)
      else (Ok (), cm))"

definition update_max_ts ::
    "nat \<Rightarrow> TimeStamp option \<Rightarrow> TimeStamp \<Rightarrow> concurrency_manager \<Rightarrow>
     max_ts_result \<times> concurrency_manager" where
  "update_max_ts now tso new_ts cm =
     (if is_max new_ts then (Ok (), cm)
      else case check_max_ts_limit now tso new_ts cm of
        (Ok _, cm) \<Rightarrow> (Ok (), cm\<lparr>cm_max_ts := max (cm_max_ts cm) new_ts\<rparr>)
      | (Err e, cm) \<Rightarrow> (Err e, cm)
      | (Panic, cm) \<Rightarrow> (Panic, cm))"

section \<open>Locks in memory\<close>

definition lock_key :: "Key \<Rightarrow> concurrency_manager \<Rightarrow> concurrency_manager" where
  "lock_key key cm =
     (if tree_get (cm_lock_table cm) key = None
      then cm\<lparr>cm_lock_table := tree_insert key None (cm_lock_table cm)\<rparr> else cm)"

definition guard_set_lock :: "Key \<Rightarrow> lock option \<Rightarrow> concurrency_manager \<Rightarrow> concurrency_manager" where
  "guard_set_lock key l cm = cm\<lparr>cm_lock_table := tree_insert key l (cm_lock_table cm)\<rparr>"

definition guard_drop :: "Key \<Rightarrow> concurrency_manager \<Rightarrow> concurrency_manager" where
  "guard_drop key cm = cm\<lparr>cm_lock_table := tree_remove key (cm_lock_table cm)\<rparr>"

definition check_key :: "concurrency_manager \<Rightarrow> Key \<Rightarrow> (lock \<Rightarrow> ('e, unit) result) \<Rightarrow> ('e, unit) result" where
  "check_key cm key check_fn =
     (case tree_get (cm_lock_table cm) key of
        Some (Some lock) \<Rightarrow> check_fn lock
      | _ \<Rightarrow> Ok ())"

fun find_first :: "(Key \<Rightarrow> lock option \<Rightarrow> ('e, 'a option) result) \<Rightarrow> lock option tree \<Rightarrow> ('e, 'a option) result" where
  "find_first pred [] = Ok None"
| "find_first pred ((k, l) # es) =
     rbind (pred k l) (\<lambda>res. case res of Some x \<Rightarrow> Ok (Some x) | None \<Rightarrow> find_first pred es)"

fun check_range_pred ::
    "(Key \<Rightarrow> lock \<Rightarrow> ('e, unit) result) \<Rightarrow> Key \<Rightarrow> lock option \<Rightarrow> ('e, 'e option) result" where
  "check_range_pred check_fn k None = Ok None"
| "check_range_pred check_fn k (Some lock) =
     (case check_fn k lock of Ok _ \<Rightarrow> Ok None | Err e \<Rightarrow> Ok (Some e) | Panic \<Rightarrow> Panic)"

definition table_range :: "concurrency_manager \<Rightarrow> Key option \<Rightarrow> Key option \<Rightarrow> lock option tree" where
  "table_range cm start end =
     filter (\<lambda>(k, l). (case start of None \<Rightarrow> True | Some s \<Rightarrow> s \<le> k) \<and>
       (case end of None \<Rightarrow> True | Some e \<Rightarrow> k < e)) (cm_lock_table cm)"

definition check_range ::
    "concurrency_manager \<Rightarrow> Key option \<Rightarrow> Key option \<Rightarrow> (Key \<Rightarrow> lock \<Rightarrow> ('e, unit) result) \<Rightarrow>
     ('e, unit) result" where
  "check_range cm start end check_fn =
     rbind (find_first (check_range_pred check_fn) (table_range cm start end)) (\<lambda>e.
       case e of Some e \<Rightarrow> Err e | None \<Rightarrow> Ok ())"

fun min_lock_step :: "Key \<times> lock option \<Rightarrow> (TimeStamp \<times> Key) option \<Rightarrow> (TimeStamp \<times> Key) option" where
  "min_lock_step (k, None) acc = acc"
| "min_lock_step (k, Some l) acc =
     (case acc of
        None \<Rightarrow> Some (l_ts l, k)
      | Some (ts, k') \<Rightarrow> if ts > l_ts l then Some (l_ts l, k) else acc)"

definition global_min_lock :: "concurrency_manager \<Rightarrow> (TimeStamp \<times> Key) option" where
  "global_min_lock cm = fold min_lock_step (cm_lock_table cm) None"

definition global_min_lock_ts :: "concurrency_manager \<Rightarrow> TimeStamp option" where
  "global_min_lock_ts cm =
     fold (\<lambda>(k, l) acc. case l of None \<Rightarrow> acc
        | Some l \<Rightarrow> (case acc of None \<Rightarrow> Some (l_ts l)
             | Some ts \<Rightarrow> if ts > l_ts l then Some (l_ts l) else acc)) (cm_lock_table cm) None"

section \<open>Reads bound later commits\<close>

lemma set_max_ts_limit_fields [simp]:
  "cm_max_ts (set_max_ts_limit now ts cm) = cm_max_ts cm"
  "cm_lock_table (set_max_ts_limit now ts cm) = cm_lock_table cm"
  "cm_action (set_max_ts_limit now ts cm) = cm_action cm"
  "cm_limit cm \<le> cm_limit (set_max_ts_limit now ts cm)"
  by (auto simp: set_max_ts_limit_def Let_def)

lemma double_check_fields:
  assumes "double_check now tso new_ts cm = (r, cm')"
  shows "cm_max_ts cm' = cm_max_ts cm" "cm_lock_table cm' = cm_lock_table cm"
    "cm_limit cm \<le> cm_limit cm'"
  using assms by (auto simp: double_check_def Let_def split: option.splits)

lemma check_max_ts_limit_fields:
  assumes "check_max_ts_limit now tso new_ts cm = (r, cm')"
  shows "cm_max_ts cm' = cm_max_ts cm" "cm_lock_table cm' = cm_lock_table cm"
    "cm_limit cm \<le> cm_limit cm'"
  using assms double_check_fields [of now tso new_ts cm r cm']
  by (auto simp: check_max_ts_limit_def Let_def split: if_splits)

lemma update_max_ts_cases:
  assumes "update_max_ts now tso new_ts cm = (r, cm')"
  shows "cm_max_ts cm' = (if r = Ok () \<and> \<not> is_max new_ts then max (cm_max_ts cm) new_ts else cm_max_ts cm)"
    and "cm_lock_table cm' = cm_lock_table cm" and "cm_limit cm \<le> cm_limit cm'"
  using assms check_max_ts_limit_fields [of now tso new_ts cm]
  by (auto simp: update_max_ts_def split: if_splits prod.splits result.splits)

lemma check_range_Ok:
  assumes "\<And>k l. check_fn k l \<noteq> Panic"
  shows "check_range cm start end check_fn = Ok () \<longleftrightarrow>
    (\<forall>(k, l) \<in> set (table_range cm start end). \<forall>lock. l = Some lock \<longrightarrow> check_fn k lock = Ok ())"
proof -
  have "\<exists>res. find_first (check_range_pred check_fn) es = Ok res \<and>
      (res = None \<longleftrightarrow> (\<forall>(k, l) \<in> set es. \<forall>lock. l = Some lock \<longrightarrow> check_fn k lock = Ok ()))" for es
  proof (induction es)
    case (Cons e es)
    obtain k l where e: "e = (k, l)" by force
    show ?case
    proof (cases l)
      case None
      then show ?thesis using Cons by (auto simp: e)
    next
      case (Some lock)
      then show ?thesis
        using Cons assms [of k lock] by (cases "check_fn k lock") (auto simp: e)
    qed
  qed simp
  from this [of "table_range cm start end"] show ?thesis
    by (auto simp: check_range_def split: option.splits)
qed

lemma min_lock_step_None:
  "min_lock_step (k, l) acc = None \<longleftrightarrow> acc = None \<and> l = None"
  by (cases l; cases acc) auto

lemma min_lock_fold_None:
  "fold min_lock_step es acc = None \<longleftrightarrow> acc = None \<and> (\<forall>(k, l) \<in> set es. l = None)"
  by (induction es arbitrary: acc) (auto simp: min_lock_step_None)

lemma min_lock_step_Some:
  "min_lock_step (k, l) acc = Some (ts, k') \<Longrightarrow>
   (acc = Some (ts, k') \<or> k' = k \<and> (\<exists>x. l = Some x \<and> l_ts x = ts)) \<and>
   (\<forall>x. l = Some x \<longrightarrow> ts \<le> l_ts x) \<and> (\<forall>p. acc = Some p \<longrightarrow> ts \<le> fst p)"
  by (cases l; cases acc) (auto split: if_splits)

lemma min_lock_fold_Some:
  assumes "fold min_lock_step es acc = Some (ts, k)"
  shows "(acc = Some (ts, k) \<or> (\<exists>l. (k, Some l) \<in> set es \<and> l_ts l = ts)) \<and>
    (\<forall>k' l. (k', Some l) \<in> set es \<longrightarrow> ts \<le> l_ts l) \<and> (\<forall>p. acc = Some p \<longrightarrow> ts \<le> fst p)"
  using assms
proof (induction es arbitrary: acc)
  case (Cons e es)
  obtain k\<^sub>e l\<^sub>e where e: "e = (k\<^sub>e, l\<^sub>e)" by force
  let ?acc = "min_lock_step e acc"
  have IH: "(?acc = Some (ts, k) \<or> (\<exists>l. (k, Some l) \<in> set es \<and> l_ts l = ts)) \<and>
    (\<forall>k' l. (k', Some l) \<in> set es \<longrightarrow> ts \<le> l_ts l) \<and> (\<forall>p. ?acc = Some p \<longrightarrow> ts \<le> fst p)"
    using Cons by simp
  show ?case
  proof (cases ?acc)
    case None
    with IH show ?thesis by (auto simp: e min_lock_step_None)
  next
    case (Some p)
    obtain ts' k' where p: "p = (ts', k')" by force
    have "ts \<le> ts'" using IH Some p by auto
    have S: "acc = Some (ts', k') \<or> k' = k\<^sub>e \<and> (\<exists>x. l\<^sub>e = Some x \<and> l_ts x = ts')"
        "\<And>x. l\<^sub>e = Some x \<Longrightarrow> ts' \<le> l_ts x" "\<And>p. acc = Some p \<Longrightarrow> ts' \<le> fst p"
      using min_lock_step_Some [of k\<^sub>e l\<^sub>e acc ts' k'] Some by (simp_all add: p e)
    have "acc = Some (ts, k) \<or> (\<exists>l. (k, Some l) \<in> set (e # es) \<and> l_ts l = ts)"
      using IH S(1) Some by (auto simp: p e)
    moreover have "ts \<le> l_ts l" if "(k'', Some l) \<in> set (e # es)" for k'' l
      using IH S(2) [of l] \<open>ts \<le> ts'\<close> that by (auto simp: e)
    moreover have "ts \<le> fst q" if "acc = Some q" for q
      using S(3) [OF that] \<open>ts \<le> ts'\<close> by simp
    ultimately show ?thesis by blast
  qed
qed simp

lemma global_min_lock_None: "global_min_lock cm = None \<longleftrightarrow> (\<forall>(k, l) \<in> set (cm_lock_table cm). l = None)"
  by (simp add: global_min_lock_def min_lock_fold_None)

lemma global_min_lock_Some:
  "global_min_lock cm = Some (ts, k) \<Longrightarrow>
   (\<exists>l. (k, Some l) \<in> set (cm_lock_table cm) \<and> l_ts l = ts) \<and>
   (\<forall>k' l. (k', Some l) \<in> set (cm_lock_table cm) \<longrightarrow> ts \<le> l_ts l)"
  using min_lock_fold_Some [of "cm_lock_table cm" None ts k] by (simp add: global_min_lock_def)

section \<open>Properties of the concurrency manager\<close>


text \<open>
  While the limit is fresh and invalid updates are errors, an update confirmed by the oracle is
  refused exactly when the timestamp exceeds the limit renewed from the oracle's answer, and the
  error carries both.
\<close>

theorem max_ts_limit_enforced:
  assumes "cm_action cm = atomic_action_store ActionError" "\<not> is_zero (cm_limit cm)"
    and "now - cm_limit_update_time cm < cm_limit_valid_duration cm" "\<not> is_max new_ts"
    and "new_ts > cm_limit cm"
  shows "fst (update_max_ts now (Some t) new_ts cm) =
    (if new_ts > cm_limit (set_max_ts_limit now t cm)
     then Err (new_ts, cm_limit (set_max_ts_limit now t cm)) else Ok ())"
  using assms
  by (auto simp: update_max_ts_def check_max_ts_limit_def double_check_def report_error_def atomic_action_load_def Let_def)

theorem max_ts_limit_enforced_witness:
  "let cm = (cm_new 5 45000 ActionError 0 0)\<lparr>cm_limit := 7\<rparr> in
   fst (update_max_ts 10 (Some 8) 9 cm) = Err (9, 8)"
proof -
  define cm where "cm = (cm_new 5 45000 ActionError 0 0)\<lparr>cm_limit := 7\<rparr>"
  have "cm_limit (set_max_ts_limit 10 8 cm) = 8"
    by (simp add: cm_def cm_new_def set_max_ts_limit_def is_max_def ts_max_def
        compose_physical_logical Let_def)
  moreover have "fst (update_max_ts 10 (Some 8) 9 cm) =
      (if 9 > cm_limit (set_max_ts_limit 10 8 cm)
       then Err (9, cm_limit (set_max_ts_limit 10 8 cm)) else Ok ())"
    by (rule max_ts_limit_enforced) (simp_all add: cm_def cm_new_def is_zero_def is_max_def ts_max_def)
  ultimately show ?thesis by (simp add: cm_def)
qed

end
