(* ===== verification/MvccTxn.thy ===== *)
theory MvccTxn
  imports MvccStore ConcurrencyManager
begin

text \<open>
  The buffer of a transaction command (\<open>src/storage/mvcc/txn.rs\<close>): the modifications it will hand to
  the engine, the locks collected for one-phase commit, and the concurrency manager it shares. Each
  operation is matched with the update of the store's view it stands for.
\<close>

section \<open>The buffer\<close>

record released_lock =
  rl_start_ts :: TimeStamp
  rl_commit_ts :: TimeStamp
  rl_key :: Key
  rl_pessimistic :: bool

record mvcc_txn =
  t_start_ts :: TimeStamp
  t_write_size :: nat
  t_modifies :: "modify list"
  t_locks_for_1pc :: "(Key \<times> lock \<times> bool) list"
  t_new_locks :: "lock_info list"
  t_cm :: concurrency_manager
  t_guards :: "Key list"

definition txn_new :: "TimeStamp \<Rightarrow> concurrency_manager \<Rightarrow> mvcc_txn" where
  "txn_new start_ts cm =
     \<lparr> t_start_ts = start_ts, t_write_size = 0, t_modifies = [], t_locks_for_1pc = [],
       t_new_locks = [], t_cm = cm, t_guards = [] \<rparr>"

definition into_modifies :: "mvcc_txn \<Rightarrow> ('e, modify list) result" where
  "into_modifies txn = (if t_locks_for_1pc txn = [] then Ok (t_modifies txn) else Panic)"

definition take_guards :: "mvcc_txn \<Rightarrow> Key list \<times> mvcc_txn" where
  "take_guards txn = (t_guards txn, txn\<lparr>t_guards := []\<rparr>)"

definition take_new_locks :: "mvcc_txn \<Rightarrow> lock_info list \<times> mvcc_txn" where
  "take_new_locks txn = (t_new_locks txn, txn\<lparr>t_new_locks := []\<rparr>)"

definition txn_is_empty :: "mvcc_txn \<Rightarrow> bool" where
  "txn_is_empty txn \<longleftrightarrow> t_modifies txn = [] \<and> t_locks_for_1pc txn = []"

text \<open>The size of a put or a delete is always defined.\<close>

definition push_modify :: "modify \<Rightarrow> mvcc_txn \<Rightarrow> mvcc_txn" where
  "push_modify m txn =
     txn\<lparr>t_write_size := t_write_size txn +
           (case modify_size m :: (unit, nat) result of Ok n \<Rightarrow> n | _ \<Rightarrow> 0),
         t_modifies := t_modifies txn @ [m]\<rparr>"

definition push_new_lock :: "Key \<Rightarrow> lock \<Rightarrow> bool \<Rightarrow> mvcc_txn \<Rightarrow> mvcc_txn mvcc_result" where
  "push_new_lock key l is_new txn =
     (if is_new
      then case to_raw key of
          Ok raw \<Rightarrow> Ok (txn\<lparr>t_new_locks := t_new_locks txn @ [into_lock_info l raw]\<rparr>)
        | _ \<Rightarrow> Panic
      else Ok txn)"

definition put_lock :: "Key \<Rightarrow> lock \<Rightarrow> bool \<Rightarrow> mvcc_txn \<Rightarrow> mvcc_txn mvcc_result" where
  "put_lock key l is_new txn =
     rbind (push_new_lock key l is_new txn) (\<lambda>txn. Ok (push_modify (Put CF_LOCK key (lock_to_bytes l)) txn))"

definition put_locks_for_1pc :: "Key \<Rightarrow> lock \<Rightarrow> bool \<Rightarrow> mvcc_txn \<Rightarrow> mvcc_txn" where
  "put_locks_for_1pc key l remove_pessimistic_lock txn =
     txn\<lparr>t_locks_for_1pc := t_locks_for_1pc txn @ [(key, l, remove_pessimistic_lock)]\<rparr>"

definition put_pessimistic_lock :: "Key \<Rightarrow> pessimistic_lock \<Rightarrow> bool \<Rightarrow> mvcc_txn \<Rightarrow> mvcc_txn mvcc_result" where
  "put_pessimistic_lock key l is_new txn =
     rbind (push_new_lock key (pessimistic_to_lock l) is_new txn) (\<lambda>txn.
       Ok (txn\<lparr>t_modifies := t_modifies txn @ [PessimisticLockPut key l]\<rparr>))"

definition unlock_key :: "Key \<Rightarrow> bool \<Rightarrow> TimeStamp \<Rightarrow> mvcc_txn \<Rightarrow> released_lock option \<times> mvcc_txn" where
  "unlock_key key pessimistic commit_ts txn =
     (Some \<lparr> rl_start_ts = t_start_ts txn, rl_commit_ts = commit_ts, rl_key = key,
             rl_pessimistic = pessimistic \<rparr>,
      push_modify (Delete CF_LOCK key) txn)"

definition put_value :: "Key \<Rightarrow> TimeStamp \<Rightarrow> Value \<Rightarrow> mvcc_txn \<Rightarrow> mvcc_txn" where
  "put_value key ts v txn = push_modify (Put CF_DEFAULT (append_ts key ts) v) txn"

definition delete_value :: "Key \<Rightarrow> TimeStamp \<Rightarrow> mvcc_txn \<Rightarrow> mvcc_txn" where
  "delete_value key ts txn = push_modify (Delete CF_DEFAULT (append_ts key ts)) txn"

definition put_write :: "Key \<Rightarrow> TimeStamp \<Rightarrow> Value \<Rightarrow> mvcc_txn \<Rightarrow> mvcc_txn" where
  "put_write key ts v txn = push_modify (Put CF_WRITE (append_ts key ts) v) txn"

definition delete_write :: "Key \<Rightarrow> TimeStamp \<Rightarrow> mvcc_txn \<Rightarrow> mvcc_txn" where
  "delete_write key ts txn = push_modify (Delete CF_WRITE (append_ts key ts)) txn"

definition mark_rollback_on_mismatching_lock ::
    "Key \<Rightarrow> lock \<Rightarrow> bool \<Rightarrow> mvcc_txn \<Rightarrow> mvcc_txn mvcc_result" where
  "mark_rollback_on_mismatching_lock key l protect txn =
     (if l_ts l = t_start_ts txn then Panic
      else if \<not> protect then Ok txn
      else if t_start_ts txn < l_min_commit_ts l then Ok txn
      else if \<not> l_use_async_commit l then Ok txn
      else put_lock key (l\<lparr>l_rollback_ts := l_rollback_ts l @ [t_start_ts txn]\<rparr>) False txn)"

definition txn_clear :: "mvcc_txn \<Rightarrow> mvcc_txn" where
  "txn_clear txn =
     txn\<lparr>t_write_size := 0, t_modifies := [], t_new_locks := [], t_locks_for_1pc := [], t_guards := []\<rparr>"

section \<open>What a buffer writes\<close>

text \<open>The updates behind the modifications a command has added to its buffer.\<close>

definition txn_adds :: "mvcc_txn \<Rightarrow> store_op list \<Rightarrow> mvcc_txn \<Rightarrow> bool" where
  "txn_adds txn ops txn' \<longleftrightarrow>
     t_modifies txn' = t_modifies txn @ map op_modify ops \<and> t_start_ts txn' = t_start_ts txn \<and>
     t_locks_for_1pc txn' = t_locks_for_1pc txn \<and> t_cm txn' = t_cm txn \<and> t_guards txn' = t_guards txn"

lemma txn_adds_refl [simp]: "txn_adds txn [] txn"
  by (simp add: txn_adds_def)

lemma txn_adds_trans:
  "txn_adds txn ops txn' \<Longrightarrow> txn_adds txn' ops' txn'' \<Longrightarrow> txn_adds txn (ops @ ops') txn''"
  by (simp add: txn_adds_def)

lemma txn_adds_start: "txn_adds txn ops txn' \<Longrightarrow> t_start_ts txn' = t_start_ts txn"
  by (simp add: txn_adds_def)

lemma push_modify_adds: "txn_adds txn [op] (push_modify (op_modify op) txn)"
  by (simp add: txn_adds_def push_modify_def)

lemma put_write_adds: "txn_adds txn [PutWrite key ts w] (put_write key ts (write_to_bytes w) txn)"
  using push_modify_adds [of txn "PutWrite key ts w"] by (simp add: put_write_def)

lemma delete_write_adds: "txn_adds txn [DelWrite key ts] (delete_write key ts txn)"
  using push_modify_adds [of txn "DelWrite key ts"] by (simp add: delete_write_def)

lemma put_value_adds: "txn_adds txn [PutData key ts v] (put_value key ts v txn)"
  using push_modify_adds [of txn "PutData key ts v"] by (simp add: put_value_def)

lemma delete_value_adds: "txn_adds txn [DelData key ts] (delete_value key ts txn)"
  using push_modify_adds [of txn "DelData key ts"] by (simp add: delete_value_def)

lemma unlock_key_adds:
  "unlock_key key pess commit_ts txn = (rl, txn') \<Longrightarrow> txn_adds txn [DelLock key] txn' \<and>
   rl = Some \<lparr> rl_start_ts = t_start_ts txn, rl_commit_ts = commit_ts, rl_key = key, rl_pessimistic = pess \<rparr>"
  using push_modify_adds [of txn "DelLock key"] by (auto simp: unlock_key_def)

lemma put_lock_adds:
  assumes "key = from_raw raw"
  shows "\<exists>txn'. put_lock key l is_new txn = Ok txn' \<and> txn_adds txn [PutLock key l] txn'"
  using assms by (auto simp: put_lock_def push_new_lock_def push_modify_def txn_adds_def)

lemmas txn_op_adds = put_write_adds delete_write_adds put_value_adds delete_value_adds

end
