(* ===== verification/TxnActions.thy ===== *)
theory TxnActions
  imports MvccTxn
begin

text \<open>
  The actions that end a transaction on a key (\<open>src/storage/txn/actions\<close>): commit (\<open>commit.rs\<close>),
  the check of its status with rollback (\<open>check_txn_status.rs\<close>), cleanup (\<open>cleanup.rs\<close>), and the
  collection of a key's records for diagnosis (\<open>mvcc.rs\<close>). An action takes the buffer of its command
  and returns it with its modifications added.
\<close>

section \<open>All records of a key\<close>

function key_writes_scan :: "mvcc_reader \<Rightarrow> Key \<Rightarrow> TimeStamp \<Rightarrow> (TimeStamp \<times> write) list mvcc_result" where
  "key_writes_scan r key ts =
     rbind (seek_write r key ts) (\<lambda>opt.
       case opt of
         Some (commit_ts, w) \<Rightarrow>
           if is_zero commit_ts then Ok [(commit_ts, w)]
           else rbind (ts_prev commit_ts) (\<lambda>ts'.
             rbind (key_writes_scan r key ts') (\<lambda>ws. Ok ((commit_ts, w) # ws)))
       | None \<Rightarrow> Ok [])"
  by pat_completeness auto
termination
  by (relation "measure (\<lambda>(r, key, ts). unat ts)")
    (auto dest!: seek_write_le ts_prev_less simp: word_less_nat_alt word_le_nat_alt)

declare key_writes_scan.simps [simp del]

definition find_mvcc_infos_by_key :: "mvcc_reader \<Rightarrow> Key \<Rightarrow> mvcc_info mvcc_result" where
  "find_mvcc_infos_by_key r key =
     rbind (load_lock r key) (\<lambda>lock.
     rbind (key_writes_scan r key ts_max) (\<lambda>writes.
     rbind (scan_values_in_default r key) (\<lambda>values.
       Ok \<lparr> mi_lock = lock, mi_writes = writes, mi_values = values \<rparr>)))"

definition collect_mvcc_info_for_debug :: "snapshot \<Rightarrow> Key \<Rightarrow> mvcc_info option mvcc_result" where
  "collect_mvcc_info_for_debug snap key =
     (case find_mvcc_infos_by_key (reader_new snap (Some Forward)) key of
        Ok info \<Rightarrow> Ok (Some info)
      | Err e \<Rightarrow> Ok None
      | Panic \<Rightarrow> Panic)"

section \<open>Commit\<close>

abbreviation sr_snapshot :: "snapshot_reader \<Rightarrow> snapshot" where
  "sr_snapshot s \<equiv> r_snapshot (sr_reader s)"

definition commit_write_of :: "TimeStamp \<Rightarrow> lock \<Rightarrow> TimeStamp \<Rightarrow> write mvcc_result" where
  "commit_write_of start_ts l commit_ts =
     (case write_type_from_lock_type (l_type l) of
        None \<Rightarrow> Panic
      | Some tp \<Rightarrow>
          let w = write_set_txn_source (write_set_last_change (write_new tp start_ts (l_short_value l))
                    (l_last_change l)) (l_txn_source l)
          in Ok (if commit_ts \<in> set (l_rollback_ts l) then set_overlapped_rollback w True None else w))"

definition commit_lock_missing ::
    "mvcc_txn \<Rightarrow> snapshot_reader \<Rightarrow> Key \<Rightarrow> TimeStamp \<Rightarrow> commit_role option \<Rightarrow>
     (released_lock option \<times> mvcc_txn) mvcc_result" where
  "commit_lock_missing txn reader key commit_ts role =
     rbind (sr_get_txn_commit_record reader key) (\<lambda>rec.
       if (case tcr_info rec of None \<Rightarrow> True | Some (_, tp) \<Rightarrow> tp = WT_Rollback)
       then
         rbind (if role = Some CR_Secondary
                then collect_mvcc_info_for_debug (sr_snapshot reader) key else Ok None) (\<lambda>info.
         rbind (of_codec (into_raw key)) (\<lambda>raw.
           Err (TxnLockNotFound (sr_start_ts reader) commit_ts raw info)))
       else Ok (None, txn))"

definition commit ::
    "mvcc_txn \<Rightarrow> snapshot_reader \<Rightarrow> Key \<Rightarrow> TimeStamp \<Rightarrow> commit_role option \<Rightarrow>
     (released_lock option \<times> mvcc_txn) mvcc_result" where
  "commit txn reader key commit_ts role =
     rbind (sr_load_lock reader key) (\<lambda>lock_opt.
       case lock_opt of
         None \<Rightarrow> commit_lock_missing txn reader key commit_ts role
       | Some l \<Rightarrow>
           if l_ts l \<noteq> sr_start_ts reader then commit_lock_missing txn reader key commit_ts role
           else if commit_ts < l_min_commit_ts l
           then
             rbind (if key \<noteq> from_raw (l_primary l)
                    then collect_mvcc_info_for_debug (sr_snapshot reader) key else Ok None) (\<lambda>info.
             rbind (of_codec (into_raw key)) (\<lambda>raw.
               Err (CommitTsExpired (sr_start_ts reader) commit_ts raw (l_min_commit_ts l) info)))
           else if is_pessimistic_lock l
           then Ok (unlock_key key (is_pessimistic_txn l) ts_zero txn)
           else rbind (commit_write_of (sr_start_ts reader) l commit_ts) (\<lambda>w.
             Ok (unlock_key key (is_pessimistic_txn l) commit_ts
                   (put_write key commit_ts (write_to_bytes w) txn))))"

section \<open>Rollback records\<close>

datatype txn_status =
    RolledBack
  | TtlExpire
  | LockNotExist
  | Uncommitted lock bool
  | StatusCommitted TimeStamp
  | PessimisticRollBack
  | LockNotExistDoNothing

fun is_decided :: "txn_status \<Rightarrow> bool" where
  "is_decided RolledBack = True"
| "is_decided TtlExpire = True"
| "is_decided (StatusCommitted _) = True"
| "is_decided _ = False"

datatype missing_lock_action = Rollback | ProtectedRollback | ReturnError

definition rollback_protect :: "bool \<Rightarrow> missing_lock_action" where
  "rollback_protect protect = (if protect then ProtectedRollback else Rollback)"

definition rollback_action :: "bool \<Rightarrow> missing_lock_action" where
  "rollback_action rollback_if_not_exist =
     (if rollback_if_not_exist then ProtectedRollback else ReturnError)"

fun collapse_rollback :: "missing_lock_action \<Rightarrow> bool mvcc_result" where
  "collapse_rollback Rollback = Ok True"
| "collapse_rollback ProtectedRollback = Ok False"
| "collapse_rollback ReturnError = Panic"

definition make_rollback :: "TimeStamp \<Rightarrow> bool \<Rightarrow> overlapped_write option \<Rightarrow> write option mvcc_result" where
  "make_rollback start_ts protect overlapped =
     (case overlapped of
        Some ow \<Rightarrow>
          if \<not> start_ts > w_start_ts (o_write ow) then Panic
          else if protect
          then Ok (Some (set_overlapped_rollback (o_write ow) True (Some (o_gc_fence ow))))
          else Ok None
      | None \<Rightarrow> Ok (Some (new_rollback start_ts protect)))"

definition construct_write ::
    "missing_lock_action \<Rightarrow> TimeStamp \<Rightarrow> overlapped_write option \<Rightarrow> write option mvcc_result" where
  "construct_write action ts overlapped =
     rbind (collapse_rollback action) (\<lambda>collapse. make_rollback ts (\<not> collapse) overlapped)"

definition collapse_prev_rollback ::
    "mvcc_txn \<Rightarrow> snapshot_reader \<Rightarrow> Key \<Rightarrow> mvcc_txn mvcc_result" where
  "collapse_prev_rollback txn reader key =
     rbind (sr_seek_write reader key (sr_start_ts reader)) (\<lambda>res.
       Ok (case res of
             Some (commit_ts, w) \<Rightarrow>
               if w_type w = WT_Rollback \<and> \<not> is_protected w then delete_write key commit_ts txn else txn
           | None \<Rightarrow> txn))"

definition put_write_opt :: "Key \<Rightarrow> TimeStamp \<Rightarrow> write option \<Rightarrow> mvcc_txn \<Rightarrow> mvcc_txn" where
  "put_write_opt key ts w txn =
     (case w of Some w \<Rightarrow> put_write key ts (write_to_bytes w) txn | None \<Rightarrow> txn)"

definition rollback_lock ::
    "mvcc_txn \<Rightarrow> snapshot_reader \<Rightarrow> Key \<Rightarrow> lock \<Rightarrow> bool \<Rightarrow> bool \<Rightarrow>
     (released_lock option \<times> mvcc_txn) mvcc_result" where
  "rollback_lock txn reader key l pessimistic_txn collapse =
     rbind (sr_get_txn_commit_record reader key) (\<lambda>rec.
       case rec of
         TCR_None overlapped \<Rightarrow>
           let txn = (if l_short_value l = None \<and> l_type l = LT_Put
                      then delete_value key (l_ts l) txn else txn);
               protect = (key_is_encoded_from key (l_primary l) \<or> l_generation l > 0)
           in rbind (make_rollback (sr_start_ts reader) protect overlapped) (\<lambda>w.
              let txn = put_write_opt key (sr_start_ts reader) w txn in
              rbind (if collapse then collapse_prev_rollback txn reader key else Ok txn) (\<lambda>txn.
                Ok (unlock_key key pessimistic_txn ts_zero txn)))
       | SingleRecord commit_ts w \<Rightarrow>
           if w_type w \<noteq> WT_Rollback then Panic
           else Ok (unlock_key key pessimistic_txn ts_zero txn)
       | OverlappedRollback _ \<Rightarrow> Ok (unlock_key key pessimistic_txn ts_zero txn))"

section \<open>The status of a transaction\<close>

definition check_determined_txn_status ::
    "snapshot_reader \<Rightarrow> Key \<Rightarrow> txn_status option mvcc_result" where
  "check_determined_txn_status reader primary_key =
     rbind (sr_get_txn_commit_record reader primary_key) (\<lambda>rec.
       case rec of
         SingleRecord commit_ts w \<Rightarrow>
           Ok (Some (if w_type w = WT_Rollback then RolledBack else StatusCommitted commit_ts))
       | OverlappedRollback _ \<Rightarrow> Ok (Some RolledBack)
       | TCR_None _ \<Rightarrow> Ok None)"

definition check_txn_status_missing_lock ::
    "mvcc_txn \<Rightarrow> snapshot_reader \<Rightarrow> Key \<Rightarrow> lock option \<Rightarrow> missing_lock_action \<Rightarrow> bool \<Rightarrow>
     (txn_status \<times> mvcc_txn) mvcc_result" where
  "check_txn_status_missing_lock txn reader primary_key mismatch_lock action resolving_pessimistic_lock =
     rbind (sr_get_txn_commit_record reader primary_key) (\<lambda>rec.
       case rec of
         SingleRecord commit_ts w \<Rightarrow>
           Ok (if w_type w = WT_Rollback then RolledBack else StatusCommitted commit_ts, txn)
       | OverlappedRollback _ \<Rightarrow> Ok (RolledBack, txn)
       | TCR_None overlapped \<Rightarrow>
           if action = ReturnError
           then rbind (of_codec (into_raw primary_key)) (\<lambda>raw. Err (TxnNotFound (sr_start_ts reader) raw))
           else if resolving_pessimistic_lock then Ok (LockNotExistDoNothing, txn)
           else
             rbind (collapse_rollback action) (\<lambda>collapse.
             rbind (if collapse then collapse_prev_rollback txn reader primary_key else Ok txn) (\<lambda>txn.
             rbind (case (mismatch_lock, overlapped) of
                      (Some l, None) \<Rightarrow>
                        mark_rollback_on_mismatching_lock primary_key l (action = ProtectedRollback) txn
                    | _ \<Rightarrow> Ok txn) (\<lambda>txn.
             rbind (construct_write action (sr_start_ts reader) overlapped) (\<lambda>w.
               Ok (LockNotExist, put_write_opt primary_key (sr_start_ts reader) w txn))))))"

definition check_txn_status_from_pessimistic_primary_lock ::
    "mvcc_txn \<Rightarrow> snapshot_reader \<Rightarrow> Key \<Rightarrow> lock \<Rightarrow> TimeStamp \<Rightarrow> bool \<Rightarrow>
     ((txn_status option \<times> released_lock option) \<times> mvcc_txn) mvcc_result" where
  "check_txn_status_from_pessimistic_primary_lock txn reader primary_key l current_ts
       resolving_pessimistic_lock =
     (if \<not> is_pessimistic_lock l then Panic
      else
        rbind (if is_pessimistic_lock_with_conflict l
               then check_determined_txn_status reader primary_key else Ok None) (\<lambda>determined.
        case determined of
          Some status \<Rightarrow>
            let (released, txn) = unlock_key primary_key True ts_zero txn in
            Ok ((Some status, released), txn)
        | None \<Rightarrow>
            if physical (l_ts l) + l_ttl l < physical current_ts
            then
              if resolving_pessimistic_lock
              then
                let (released, txn) = unlock_key primary_key True ts_zero txn in
                Ok ((Some PessimisticRollBack, released), txn)
              else
                rbind (rollback_lock txn reader primary_key l True True) (\<lambda>(released, txn).
                  Ok ((Some TtlExpire, released), txn))
            else Ok ((None, None), txn)))"

text \<open>
  The rest of the check once the lock is known to be alive: reads push its smallest commit
  timestamp.
\<close>

definition push_min_commit_ts ::
    "mvcc_txn \<Rightarrow> Key \<Rightarrow> lock \<Rightarrow> TimeStamp \<Rightarrow> TimeStamp \<Rightarrow>
     ((txn_status \<times> released_lock option) \<times> mvcc_txn) mvcc_result" where
  "push_min_commit_ts txn primary_key l current_ts caller_start_ts =
     rbind
       (if \<not> is_zero (l_min_commit_ts l) \<and> \<not> is_max caller_start_ts \<and> caller_start_ts \<ge> l_min_commit_ts l
        then
          rbind (ts_next caller_start_ts) (\<lambda>next_ts.
            let l = l\<lparr>l_min_commit_ts := (if next_ts < current_ts then current_ts else next_ts)\<rparr> in
            rbind (put_lock primary_key l False txn) (\<lambda>txn. Ok (l, txn)))
        else Ok (l, txn)) (\<lambda>(l, txn).
     let pushed = (\<not> is_zero caller_start_ts \<and> l_min_commit_ts l > caller_start_ts) \<or> is_max caller_start_ts
     in Ok ((Uncommitted l pushed, None), txn))"

definition check_txn_status_lock_exists ::
    "mvcc_txn \<Rightarrow> snapshot_reader \<Rightarrow> Key \<Rightarrow> lock \<Rightarrow> TimeStamp \<Rightarrow> TimeStamp \<Rightarrow> bool \<Rightarrow> bool \<Rightarrow> bool \<Rightarrow> bool \<Rightarrow>
     ((txn_status \<times> released_lock option) \<times> mvcc_txn) mvcc_result" where
  "check_txn_status_lock_exists txn reader primary_key l current_ts caller_start_ts force_sync_commit
       resolving_pessimistic_lock verify_is_primary rollback_if_not_exist =
     (if verify_is_primary \<and> \<not> key_is_encoded_from primary_key (l_primary l)
      then
        if \<not> resolving_pessimistic_lock \<and> is_pessimistic_lock l
        then
          rbind (check_txn_status_missing_lock txn reader primary_key None
              (rollback_action rollback_if_not_exist) resolving_pessimistic_lock) (\<lambda>(status, txn).
            let (released, txn) = unlock_key primary_key True ts_zero txn in
            Ok ((status, released), txn))
        else rbind (of_codec (into_raw primary_key)) (\<lambda>raw. Err (PrimaryMismatch (into_lock_info l raw)))
      else if l_use_async_commit l \<and> \<not> force_sync_commit then Ok ((Uncommitted l False, None), txn)
      else if is_pessimistic_lock l
      then
        rbind (check_txn_status_from_pessimistic_primary_lock txn reader primary_key l current_ts
            resolving_pessimistic_lock) (\<lambda>(res, txn).
          case res of
            (Some status, Some released) \<Rightarrow> Ok ((status, Some released), txn)
          | (None, None) \<Rightarrow> push_min_commit_ts txn primary_key l current_ts caller_start_ts
          | _ \<Rightarrow> Panic)
      else if physical (l_ts l) + l_ttl l < physical current_ts
      then
        rbind (rollback_lock txn reader primary_key l (\<not> is_zero (l_for_update_ts l)) True)
          (\<lambda>(released, txn). Ok ((TtlExpire, released), txn))
      else push_min_commit_ts txn primary_key l current_ts caller_start_ts)"

section \<open>Cleanup\<close>

definition cleanup_missing ::
    "mvcc_txn \<Rightarrow> snapshot_reader \<Rightarrow> Key \<Rightarrow> lock option \<Rightarrow> bool \<Rightarrow>
     (released_lock option \<times> mvcc_txn) mvcc_result" where
  "cleanup_missing txn reader key l protect =
     rbind (check_txn_status_missing_lock txn reader key l (rollback_protect protect) False)
       (\<lambda>(status, txn).
         case status of
           StatusCommitted commit_ts \<Rightarrow>
             rbind (of_codec (into_raw key)) (\<lambda>raw. Err (Committed (sr_start_ts reader) commit_ts raw))
         | RolledBack \<Rightarrow> Ok (None, txn)
         | LockNotExist \<Rightarrow> Ok (None, txn)
         | _ \<Rightarrow> Panic)"

definition cleanup ::
    "mvcc_txn \<Rightarrow> snapshot_reader \<Rightarrow> Key \<Rightarrow> TimeStamp \<Rightarrow> bool \<Rightarrow>
     (released_lock option \<times> mvcc_txn) mvcc_result" where
  "cleanup txn reader key current_ts protect =
     rbind (sr_load_lock reader key) (\<lambda>lock_opt.
       case lock_opt of
         Some l \<Rightarrow>
           if l_ts l = sr_start_ts reader
           then
             if \<not> is_zero current_ts \<and> physical (l_ts l) + l_ttl l \<ge> physical current_ts
             then rbind (of_codec (into_raw key)) (\<lambda>raw. Err (KeyIsLocked (into_lock_info l raw)))
             else rollback_lock txn reader key l (is_pessimistic_txn l) (\<not> protect)
           else cleanup_missing txn reader key (Some l) protect
       | None \<Rightarrow> cleanup_missing txn reader key None protect)"

section \<open>The records of a key are all found\<close>

lemma is_latest_split:
  "is_latest W t c w \<Longrightarrow>
   W c' = Some w' \<and> c' \<le> t \<longleftrightarrow> c' = c \<and> w' = w \<or> W c' = Some w' \<and> c' < c"
  by (cases c' c rule: linorder_cases) (auto simp: is_latest_def)

lemma key_writes_scan_ok:
  fixes t :: TimeStamp
  assumes "wf_store (r_engine r)"
  shows "\<exists>ws. key_writes_scan r (from_raw raw) t = Ok ws \<and>
    set ws = {(c, w). write_at (r_engine r) (from_raw raw) c = Some w \<and> c \<le> t} \<and>
    sorted_wrt (\<lambda>x y. fst y < fst x) ws"
proof (induction "unat t" arbitrary: t rule: less_induct)
  case less
  let ?W = "write_at (r_engine r) (from_raw raw)"
  show ?case
  proof (rule seek_write_cases [OF assms, of raw t], goal_cases)
    case (1 c w)
    note seek = this(1) and latest = this(2)
    have rest: "{(c', w'). ?W c' = Some w' \<and> c' \<le> t} =
        insert (c, w) {(c', w'). ?W c' = Some w' \<and> c' < c}"
      using is_latest_split [OF latest] by auto
    show ?case
    proof (cases "c = 0")
      case True
      then show ?thesis
        using seek rest by (subst key_writes_scan.simps) (simp add: is_zero_def)
    next
      case False
      then have c: "0 < c" "c \<le> t" using latest by (auto simp: is_latest_def word_gt_0)
      obtain ws where ws: "key_writes_scan r (from_raw raw) (c - 1) = Ok ws"
          "set ws = {(c', w'). ?W c' = Some w' \<and> c' < c}" "sorted_wrt (\<lambda>x y. fst y < fst x) ws"
        using less.hyps [OF prev_measure [OF c]] le_minus_one_iff [OF c(1)] by auto
      have "key_writes_scan r (from_raw raw) t = Ok ((c, w) # ws)"
        using seek ws(1) False c(1)
        by (subst key_writes_scan.simps) (simp add: is_zero_def ts_prev_pos)
      then show ?thesis using ws rest by auto
    qed
  next
    case 2
    then show ?case by (subst key_writes_scan.simps) (auto simp: no_version_def)
  qed
qed

lemma values_in_default_ok:
  "\<forall>x \<in> set es. wf_entry CF_DEFAULT x \<Longrightarrow> \<exists>vs. values_in_default_loop key es = Ok vs"
proof (induction es)
  case (Cons e es)
  then obtain raw ts v where "e = (append_ts (from_raw raw) ts, v)" by (cases e) auto
  with Cons show ?case
    by (cases "from_raw raw = key") (auto simp: decode_append_ts [unfolded decode_ts_def])
qed simp

lemma scan_values_in_default_ok:
  assumes "wf_store (r_engine r)"
  shows "\<exists>vs. scan_values_in_default r key = Ok vs"
proof -
  have "\<forall>x \<in> set (e_default (r_engine r)). wf_entry CF_DEFAULT x"
    using assms unfolding wf_store_def by (metis get_cf_tree.simps(1))
  then show ?thesis
    unfolding scan_values_in_default_def entries_from_def
    by (auto intro!: values_in_default_ok dest: set_dropWhileD)
qed

lemma collect_mvcc_info_ok:
  assumes "wf_store (s_engine snap)"
  shows "\<exists>info. collect_mvcc_info_for_debug snap (from_raw raw) = Ok info"
proof -
  let ?r = "reader_new snap (Some Forward)"
  have e: "r_engine ?r = s_engine snap" by (simp add: reader_new_def)
  obtain vs ws where "scan_values_in_default ?r (from_raw raw) = Ok vs"
      "key_writes_scan ?r (from_raw raw) ts_max = Ok ws"
    using scan_values_in_default_ok [of ?r "from_raw raw"] key_writes_scan_ok [of ?r raw ts_max] assms
    unfolding e by blast
  moreover have "load_lock ?r (from_raw raw) \<noteq> Panic"
  proof -
    have "load_in_memory_pessimistic_lock ?r (from_raw raw) \<noteq> Panic"
      by (auto simp: load_in_memory_pessimistic_lock_def check_term_version_status_def
          split: option.splits)
    moreover have "(case get_cf (s_engine snap) CF_LOCK (from_raw raw) of
        Some v \<Rightarrow> rbind (of_txn (lock_parse v)) (\<lambda>l. Ok (Some l)) | None \<Rightarrow> Ok None) \<noteq> Panic"
      using wf_store_entry [OF assms, of CF_LOCK "from_raw raw"] by (auto split: option.splits)
    ultimately show ?thesis
      unfolding load_lock_def e
      by (cases "load_in_memory_pessimistic_lock ?r (from_raw raw)") (auto split: option.splits)
  qed
  ultimately show ?thesis
    by (cases "load_lock ?r (from_raw raw)")
      (auto simp: collect_mvcc_info_for_debug_def find_mvcc_infos_by_key_def)
qed

section \<open>Reading the state of a transaction\<close>

abbreviation sr_engine :: "snapshot_reader \<Rightarrow> engine" where
  "sr_engine s \<equiv> r_engine (sr_reader s)"

text \<open>
  The records of one key: one per transaction, a rollback at its own start timestamp, a commit
  after it.
\<close>

definition one_record :: "(TimeStamp \<Rightarrow> write option) \<Rightarrow> bool" where
  "one_record W \<longleftrightarrow>
     (\<forall>c c' w w'. W c = Some w \<longrightarrow> W c' = Some w' \<longrightarrow> w_start_ts w = w_start_ts w' \<longrightarrow> c = c')"

definition key_inv :: "(TimeStamp \<Rightarrow> write option) \<Rightarrow> bool" where
  "key_inv W \<longleftrightarrow> one_record W \<and>
     (\<forall>c w. W c = Some w \<longrightarrow> (if w_type w = WT_Rollback then w_start_ts w = c else w_start_ts w < c))"

lemma key_inv_ts_ordered: "key_inv W \<Longrightarrow> ts_ordered W"
  unfolding key_inv_def ts_ordered_def by (metis less_imp_le order.refl)

lemma key_inv_one_record: "key_inv W \<Longrightarrow> one_record W"
  by (simp add: key_inv_def)

definition clean_reader :: "snapshot_reader \<Rightarrow> bytes \<Rightarrow> bool" where
  "clean_reader s raw \<longleftrightarrow> wf_store (sr_engine s) \<and> s_txn_ext (sr_snapshot s) = None \<and>
     key_inv (write_at (sr_engine s) (from_raw raw))"

lemma sr_load_lock_ok:
  "clean_reader s raw \<Longrightarrow> sr_load_lock s key = Ok (lock_at (sr_engine s) key)"
  by (simp add: clean_reader_def sr_load_lock_def load_lock_ok)

lemma sr_commit_record_ok:
  assumes "clean_reader s raw"
  obtains rec where "sr_get_txn_commit_record s (from_raw raw) = Ok rec"
    "commit_record_ok (write_at (sr_engine s) (from_raw raw)) (sr_start_ts s) rec"
  using assms get_txn_commit_record_ok [of "sr_reader s" raw "sr_start_ts s"]
  by (auto simp: clean_reader_def sr_get_txn_commit_record_def key_inv_ts_ordered)

lemma clean_reader_inv: "clean_reader s raw \<Longrightarrow> key_inv (write_at (sr_engine s) (from_raw raw))"
  by (simp add: clean_reader_def)

lemma clean_reader_wf: "clean_reader s raw \<Longrightarrow> wf_store (sr_engine s)"
  by (simp add: clean_reader_def)

lemma sr_collect_ok:
  "clean_reader s raw \<Longrightarrow> \<exists>info. collect_mvcc_info_for_debug (sr_snapshot s) (from_raw raw) = Ok info"
  by (rule collect_mvcc_info_ok) (simp add: clean_reader_def)

text \<open>The transaction has a commit record on the key that is not a rollback.\<close>

definition committed_at :: "(TimeStamp \<Rightarrow> write option) \<Rightarrow> TimeStamp \<Rightarrow> TimeStamp \<Rightarrow> bool" where
  "committed_at W s c \<longleftrightarrow> (\<exists>w. W c = Some w \<and> w_start_ts w = s \<and> w_type w \<noteq> WT_Rollback)"

lemma commit_record_info:
  assumes "commit_record_ok W s rec" "one_record W"
  shows "(case tcr_info rec of None \<Rightarrow> True | Some (_, tp) \<Rightarrow> tp = WT_Rollback) \<longleftrightarrow>
    (\<forall>c. \<not> committed_at W s c)"
proof (cases rec)
  case (TCR_None ow)
  then have "no_record W s" using assms(1) by (cases ow) auto
  with TCR_None show ?thesis by (auto simp: committed_at_def no_record_def)
next
  case (SingleRecord c w)
  then have w: "W c = Some w" "w_start_ts w = s" using assms(1) by auto
  have "committed_at W s c' \<Longrightarrow> w_type w \<noteq> WT_Rollback" for c'
    using assms(2) w unfolding committed_at_def one_record_def by (metis option.inject)
  moreover have "w_type w \<noteq> WT_Rollback \<Longrightarrow> committed_at W s c" using w by (simp add: committed_at_def)
  ultimately show ?thesis using SingleRecord by auto
next
  case (OverlappedRollback c)
  with assms(1) show ?thesis by (auto simp: committed_at_def no_record_def)
qed

section \<open>What commit does\<close>

lemma wf_commit_write:
  assumes "wf_lock l" "\<not> is_pessimistic_lock l"
  obtains w where "commit_write_of s l commit_ts = Ok w" "wf_write w" "w_start_ts w = s"
    "write_type_from_lock_type (l_type l) = Some (w_type w)" "w_type w \<noteq> WT_Rollback"
    "w_short_value w = l_short_value l" "w_last_change w = l_last_change l"
    "w_has_overlapped_rollback w \<longleftrightarrow> commit_ts \<in> set (l_rollback_ts l)" "w_gc_fence w = None"
proof -
  obtain tp where tp: "write_type_from_lock_type (l_type l) = Some tp" "tp \<noteq> WT_Rollback"
    using assms(2) by (cases "l_type l") (auto simp: is_pessimistic_lock_def)
  have "\<exists>w. commit_write_of s l commit_ts = Ok w \<and> wf_write w \<and> w_start_ts w = s \<and>
      tp = w_type w \<and> w_short_value w = l_short_value l \<and> w_last_change w = l_last_change l \<and>
      (w_has_overlapped_rollback w \<longleftrightarrow> commit_ts \<in> set (l_rollback_ts l)) \<and> w_gc_fence w = None"
    using tp assms(1)
    by (auto simp: commit_write_of_def wf_lock_def wf_write_def write_new_def write_set_last_change_def
        write_set_txn_source_def set_overlapped_rollback_def Let_def)
  with tp that show ?thesis by metis
qed

lemma commit_locked:
  assumes "clean_reader s raw" "lock_at (sr_engine s) (from_raw raw) = Some l"
    and "l_ts l = sr_start_ts s" "l_min_commit_ts l \<le> commit_ts" "\<not> is_pessimistic_lock l"
    and "commit_write_of (sr_start_ts s) l commit_ts = Ok w"
  shows "\<exists>txn'. commit txn s (from_raw raw) commit_ts role =
      Ok (Some \<lparr> rl_start_ts = t_start_ts txn, rl_commit_ts = commit_ts, rl_key = from_raw raw,
                 rl_pessimistic = is_pessimistic_txn l \<rparr>, txn') \<and>
    txn_adds txn [PutWrite (from_raw raw) commit_ts w, DelLock (from_raw raw)] txn'"
proof -
  let ?txn = "put_write (from_raw raw) commit_ts (write_to_bytes w) txn"
  obtain rl txn' where u: "unlock_key (from_raw raw) (is_pessimistic_txn l) commit_ts ?txn = (rl, txn')"
    by force
  have "txn_adds txn [PutWrite (from_raw raw) commit_ts w, DelLock (from_raw raw)] txn'"
    using txn_adds_trans [OF put_write_adds unlock_key_adds [OF u, THEN conjunct1]] by simp
  with u unlock_key_adds [OF u] assms txn_adds_start [OF put_write_adds] show ?thesis
    by (simp add: commit_def sr_load_lock_ok not_less)
qed

lemma commit_missing:
  assumes "clean_reader s raw"
    and "\<And>l. lock_at (sr_engine s) (from_raw raw) = Some l \<Longrightarrow> l_ts l \<noteq> sr_start_ts s"
  shows "if \<exists>c. committed_at (write_at (sr_engine s) (from_raw raw)) (sr_start_ts s) c
    then commit txn s (from_raw raw) commit_ts role = Ok (None, txn)
    else \<exists>info. commit txn s (from_raw raw) commit_ts role =
      Err (TxnLockNotFound (sr_start_ts s) commit_ts raw info)"
proof -
  obtain rec where rec: "sr_get_txn_commit_record s (from_raw raw) = Ok rec"
    "commit_record_ok (write_at (sr_engine s) (from_raw raw)) (sr_start_ts s) rec"
    by (rule sr_commit_record_ok [OF assms(1)])
  have "commit txn s (from_raw raw) commit_ts role =
      commit_lock_missing txn s (from_raw raw) commit_ts role"
    using assms by (auto simp: commit_def sr_load_lock_ok split: option.split)
  moreover obtain info where "collect_mvcc_info_for_debug (sr_snapshot s) (from_raw raw) = Ok info"
    using sr_collect_ok [OF assms(1)] by blast
  ultimately show ?thesis
    using rec(1) commit_record_info [OF rec(2) key_inv_one_record [OF clean_reader_inv [OF assms(1)]]]
    by (auto simp: commit_lock_missing_def)
qed

lemma commit_expired:
  assumes "clean_reader s raw" "lock_at (sr_engine s) (from_raw raw) = Some l"
    and "l_ts l = sr_start_ts s" "commit_ts < l_min_commit_ts l"
  shows "\<exists>info. commit txn s (from_raw raw) commit_ts role =
    Err (CommitTsExpired (sr_start_ts s) commit_ts raw (l_min_commit_ts l) info)"
proof -
  obtain info where "collect_mvcc_info_for_debug (sr_snapshot s) (from_raw raw) = Ok info"
    using sr_collect_ok [OF assms(1)] by blast
  with assms show ?thesis by (auto simp: commit_def sr_load_lock_ok)
qed

section \<open>What a rollback does to the records of a key\<close>

text \<open>
  The mark a rollback of \<open>s\<close> leaves at \<open>s\<close>: a rollback record, or a flag on the record of another
  transaction committed at \<open>s\<close>, with the fence garbage collection needs to keep that record alone.
  Besides the mark, an unprotected rollback record before \<open>s\<close> may be collapsed.
\<close>

definition rollback_mark :: "(TimeStamp \<Rightarrow> write option) \<Rightarrow> TimeStamp \<Rightarrow> write \<Rightarrow> bool" where
  "rollback_mark W s w' \<longleftrightarrow>
     (case W s of
        None \<Rightarrow> \<exists>p. w' = new_rollback s p
      | Some w \<Rightarrow> w_start_ts w \<noteq> s \<and>
          (\<exists>g. w' = set_overlapped_rollback w True (Some g) \<and> fence_above W s g))"

definition rolled_back ::
    "(TimeStamp \<Rightarrow> write option) \<Rightarrow> TimeStamp \<Rightarrow> (TimeStamp \<Rightarrow> write option) \<Rightarrow> bool" where
  "rolled_back W s W' \<longleftrightarrow>
     (\<forall>c. W' c = W c \<or> c = s \<and> (\<exists>w'. W' s = Some w' \<and> rollback_mark W s w') \<or>
       c < s \<and> W' c = None \<and> (\<exists>w. W c = Some w \<and> w_type w = WT_Rollback \<and> \<not> is_protected w))"

text \<open>A record a later prewrite or commit of the transaction cannot miss.\<close>

definition rollback_recorded :: "(TimeStamp \<Rightarrow> write option) \<Rightarrow> TimeStamp \<Rightarrow> bool" where
  "rollback_recorded W s \<longleftrightarrow>
     (\<exists>w. W s = Some w \<and> (w_start_ts w = s \<and> w_type w = WT_Rollback \<or> w_has_overlapped_rollback w))"

lemma rolled_back_refl [simp]: "rolled_back W s W"
  by (simp add: rolled_back_def)

lemma rolled_back_mark: "rollback_mark W s w' \<Longrightarrow> rolled_back W s (W(s \<mapsto> w'))"
  by (auto simp: rolled_back_def)

lemma rolled_back_collapse:
  assumes "rolled_back W s W'" "c < s" "W c = Some w" "w_type w = WT_Rollback" "\<not> is_protected w"
  shows "rolled_back W s (W'(c := None))"
  using assms unfolding rolled_back_def by (metis fun_upd_apply order.strict_implies_not_eq)

lemma rollback_mark_recorded: "rollback_mark W s w' \<Longrightarrow> W' s = Some w' \<Longrightarrow> rollback_recorded W' s"
  by (auto simp: rollback_mark_def rollback_recorded_def new_rollback_def set_overlapped_rollback_def
      split: option.splits)

lemma rollback_mark_type:
  assumes "rollback_mark W s w'"
  shows "(W s = None \<and> w_type w' = WT_Rollback \<and> w_start_ts w' = s) \<or>
    (\<exists>w. W s = Some w \<and> w_start_ts w \<noteq> s \<and> w_start_ts w' = w_start_ts w \<and> w_type w' = w_type w \<and>
      w_short_value w' = w_short_value w)"
  using assms by (auto simp: rollback_mark_def new_rollback_def set_overlapped_rollback_def
      split: option.splits)

lemma key_invD:
  "key_inv W \<Longrightarrow> W c = Some w \<Longrightarrow>
     if w_type w = WT_Rollback then w_start_ts w = c else w_start_ts w < c"
  by (simp add: key_inv_def)

lemma rolled_back_committed:
  assumes "rolled_back W s W'"
  shows "committed_at W' s' c \<longleftrightarrow> committed_at W s' c"
proof -
  consider "W' c = W c" | w' where "c = s" "W' s = Some w'" "rollback_mark W s w'"
    | w where "W' c = None" "W c = Some w" "w_type w = WT_Rollback"
    using assms unfolding rolled_back_def by metis
  then show ?thesis
  proof cases
    case 2
    then show ?thesis using rollback_mark_type [OF 2(3)] by (auto simp: committed_at_def)
  qed (auto simp: committed_at_def)
qed

lemma rolled_back_record:
  assumes "rolled_back W s W'" "key_inv W" "W' c = Some w'"
  shows "(if w_type w' = WT_Rollback then w_start_ts w' = c else w_start_ts w' < c) \<and>
    ((\<exists>w. W c = Some w \<and> w_start_ts w = w_start_ts w') \<or> c = s \<and> w_start_ts w' = s)"
proof -
  consider "W c = Some w'" | "c = s" "rollback_mark W s w'"
    using assms(1,3) unfolding rolled_back_def by (metis option.distinct(1) option.inject)
  then show ?thesis
  proof cases
    case 1
    then show ?thesis using key_invD [OF assms(2), of c w'] by auto
  next
    case 2
    then show ?thesis using rollback_mark_type [OF 2(2)] key_invD [OF assms(2), of c] by fastforce
  qed
qed

lemma uncommitted_record:
  assumes "key_inv W" "\<And>c. \<not> committed_at W s c" "W c = Some w" "w_start_ts w = s"
  shows "c = s"
  using key_invD [OF assms(1,3)] assms(2-4) by (auto simp: committed_at_def split: if_splits)

lemma rolled_back_inv:
  assumes "rolled_back W s W'" "key_inv W" "\<And>c. \<not> committed_at W s c"
  shows "key_inv W'"
proof -
  have "c = c'" if "W' c = Some w" "W' c' = Some w'" "w_start_ts w = w_start_ts w'" for c c' w w'
  proof -
    from that have "(\<exists>w\<^sub>0. W c = Some w\<^sub>0 \<and> w_start_ts w\<^sub>0 = w_start_ts w) \<or> c = s \<and> w_start_ts w = s"
      "(\<exists>w\<^sub>0. W c' = Some w\<^sub>0 \<and> w_start_ts w\<^sub>0 = w_start_ts w) \<or> c' = s \<and> w_start_ts w = s"
      using rolled_back_record [OF assms(1,2)] by metis+
    then show ?thesis
      using uncommitted_record [OF assms(2,3)] key_inv_one_record [OF assms(2)]
      unfolding one_record_def by metis
  qed
  with rolled_back_record [OF assms(1,2)] show ?thesis unfolding key_inv_def one_record_def by metis
qed

lemma make_rollback_ok:
  assumes rec: "commit_record_ok W s (TCR_None ov)" and inv: "key_inv W"
  shows "\<exists>wo. make_rollback s protect ov = Ok wo \<and> (protect \<longrightarrow> wo \<noteq> None) \<and>
    (\<forall>w'. wo = Some w' \<longrightarrow> rollback_mark W s w')"
proof (cases ov)
  case None
  then show ?thesis using rec by (auto simp: make_rollback_def rollback_mark_def)
next
  case (Some ow)
  then have "W s = Some (o_write ow)" "w_start_ts (o_write ow) \<noteq> s" "w_start_ts (o_write ow) \<le> s"
    using rec key_inv_ts_ordered [OF inv] by (auto simp: no_record_def ts_ordered_def)
  with Some rec show ?thesis by (auto simp: make_rollback_def rollback_mark_def)
qed

lemma rollback_mark_wf:
  assumes "rollback_mark (write_at e key) s w'" "wf_store e"
  shows "wf_write w'"
proof (cases "write_at e key s")
  case None
  then show ?thesis using assms by (auto simp: rollback_mark_def)
next
  case (Some w)
  then have "wf_write w" using write_at_entry [OF assms(2)] by blast
  then show ?thesis
    using assms Some by (auto simp: rollback_mark_def set_overlapped_rollback_def wf_write_def)
qed

lemma collapse_prev_rollback_ok:
  assumes "clean_reader s raw" "no_record (write_at (sr_engine s) (from_raw raw)) (sr_start_ts s)"
  shows "\<exists>co txn'. collapse_prev_rollback txn s (from_raw raw) = Ok txn' \<and>
    txn_adds txn (map (DelWrite (from_raw raw)) co) txn' \<and>
    (co = [] \<or> (\<exists>c w. co = [c] \<and> c < sr_start_ts s \<and>
      write_at (sr_engine s) (from_raw raw) c = Some w \<and> w_type w = WT_Rollback \<and> \<not> is_protected w))"
proof (rule seek_write_cases [OF clean_reader_wf [OF assms(1)], of raw "sr_start_ts s"], goal_cases)
  case (1 c w)
  then have w: "write_at (sr_engine s) (from_raw raw) c = Some w" "c \<le> sr_start_ts s"
    by (auto simp: is_latest_def)
  show ?case
  proof (cases "w_type w = WT_Rollback \<and> \<not> is_protected w")
    case True
    then have "w_start_ts w = c" "w_start_ts w \<noteq> sr_start_ts s"
      using key_invD [OF clean_reader_inv [OF assms(1)] w(1)] assms(2) w by (auto simp: no_record_def)
    then have "c < sr_start_ts s" using w(2) by simp
    with 1 w True delete_write_adds [of txn "from_raw raw" c] show ?thesis
      by (intro exI [of _ "[c]"]) (auto simp: collapse_prev_rollback_def sr_seek_write_def)
  next
    case False
    with 1 show ?thesis
      by (intro exI [of _ "[]"]) (auto simp: collapse_prev_rollback_def sr_seek_write_def)
  qed
next
  case 2
  then show ?case
    by (intro exI [of _ "[]"]) (auto simp: collapse_prev_rollback_def sr_seek_write_def)
qed

lemma put_write_opt_adds:
  "txn_adds txn (case w of None \<Rightarrow> [] | Some w \<Rightarrow> [PutWrite key ts w]) (put_write_opt key ts w txn)"
  by (cases w) (simp_all add: put_write_opt_def put_write_adds)
section \<open>Rollback of a lock and of a missing lock\<close>

text \<open>The updates of a rollback of \<open>s\<close> on one key: its records, and at most its own value.\<close>

definition rollback_ops ::
    "Key \<Rightarrow> TimeStamp \<Rightarrow> (TimeStamp \<Rightarrow> write option) \<Rightarrow> (TimeStamp \<Rightarrow> write option) \<Rightarrow> store_op list \<Rightarrow> bool" where
  "rollback_ops key s W W' ops \<longleftrightarrow>
     list_all wf_op ops \<and> rolled_back W s W' \<and> (\<forall>f. f key = W \<longrightarrow> ops_write ops f = f(key := W')) \<and>
     (\<forall>d k t. (k, t) \<noteq> (key, s) \<longrightarrow> ops_data ops d k t = d k t)"

lemma ops_append [simp]:
  "ops_write (xs @ ys) f = ops_write ys (ops_write xs f)"
  "ops_lock (xs @ ys) g = ops_lock ys (ops_lock xs g)"
  "ops_data (xs @ ys) h = ops_data ys (ops_data xs h)"
  by (simp_all add: ops_write_def ops_lock_def ops_data_def)

lemma rollback_ops_refl: "rollback_ops key s W W []"
  by (auto simp: rollback_ops_def)

lemma rollback_ops_write:
  assumes "rollback_mark (write_at e (from_raw raw)) s w'" "wf_store e"
  shows "rollback_ops (from_raw raw) s (write_at e (from_raw raw)) ((write_at e (from_raw raw))(s \<mapsto> w'))
    [PutWrite (from_raw raw) s w']"
  using assms by (auto simp: rollback_ops_def rolled_back_mark rollback_mark_wf)

lemma rollback_ops_collapse:
  assumes "rollback_ops key s W W' ops" "co = [] \<or>
      (\<exists>c w. co = [c] \<and> c < s \<and> W c = Some w \<and> w_type w = WT_Rollback \<and> \<not> is_protected w)"
  shows "rollback_ops key s W (fold (\<lambda>c W. W(c := None)) co W') (ops @ map (DelWrite key) co)"
  using assms by (auto simp: rollback_ops_def intro: rolled_back_collapse)

lemma rollback_ops_collapse_first:
  assumes "rollback_ops key s W W' ops" "co = [] \<or>
      (\<exists>c w. co = [c] \<and> c < s \<and> W c = Some w \<and> w_type w = WT_Rollback \<and> \<not> is_protected w)"
    and "ops = [] \<or> (\<exists>w. ops = [PutWrite key s w])"
  shows "rollback_ops key s W (fold (\<lambda>c W. W(c := None)) co W') (map (DelWrite key) co @ ops)"
proof -
  have "ops_write (map (DelWrite key) co @ ops) f = ops_write (ops @ map (DelWrite key) co) f" for f
    using assms(2,3) by (auto simp: fun_upd_twist)
  moreover have "ops_data (map (DelWrite key) co @ ops) d = ops_data (ops @ map (DelWrite key) co) d" for d
    using assms(2,3) by auto
  ultimately show ?thesis
    using rollback_ops_collapse [OF assms(1,2)] unfolding rollback_ops_def
    by (auto simp del: ops_append simp: list_all_append)
qed

lemma rollback_ops_data:
  "rollback_ops key s W W' ops \<Longrightarrow> rollback_ops key s W W' (DelData key s # ops)"
  by (auto simp: rollback_ops_def)

lemma rollback_ops_lock:
  "rollback_ops key s W W' ops \<Longrightarrow> rollback_ops key s W W' (ops @ [DelLock key])"
  by (auto simp: rollback_ops_def)

lemma rollback_ops_recorded:
  assumes "rollback_mark W s w'" "co = [] \<or> (\<exists>c. co = [c] \<and> c < s)"
  shows "rollback_recorded (fold (\<lambda>c W. W(c := None)) co (W(s \<mapsto> w'))) s"
  using assms by (auto intro: rollback_mark_recorded)

lemma commit_record_TCR_None: "commit_record_ok W s (TCR_None ov) \<Longrightarrow> no_record W s"
  by (cases ov) auto

lemma commit_record_not_committed:
  assumes "commit_record_ok W s rec" "key_inv W" "\<And>c. \<not> committed_at W s c"
  obtains (none) ov where "rec = TCR_None ov" "no_record W s"
    | (rollback) w where "rec = SingleRecord s w" "w_type w = WT_Rollback" "rollback_recorded W s"
    | (overlapped) "rec = OverlappedRollback s" "no_record W s" "rollback_recorded W s"
proof (cases rec)
  case (SingleRecord c w)
  then have w: "W c = Some w" "w_start_ts w = s" "w_type w = WT_Rollback"
    using assms(1,3) by (auto simp: committed_at_def)
  then have "c = s" using key_invD [OF assms(2) w(1)] by simp
  with w SingleRecord rollback show thesis by (auto simp: rollback_recorded_def)
qed (use assms(1) none overlapped commit_record_TCR_None in \<open>auto simp: rollback_recorded_def\<close>)

lemma unlock_key_obtain:
  obtains txn' where "unlock_key key pess commit_ts txn =
      (Some \<lparr> rl_start_ts = t_start_ts txn, rl_commit_ts = commit_ts, rl_key = key, rl_pessimistic = pess \<rparr>, txn')"
    "txn_adds txn [DelLock key] txn'"
  using unlock_key_adds [of key pess commit_ts txn] by (metis surj_pair)

text \<open>The record of a rollback, and the earlier one it may collapse.\<close>

definition collapsible :: "(TimeStamp \<Rightarrow> write option) \<Rightarrow> TimeStamp \<Rightarrow> TimeStamp list \<Rightarrow> bool" where
  "collapsible W s co \<longleftrightarrow> co = [] \<or>
     (\<exists>c w. co = [c] \<and> c < s \<and> W c = Some w \<and> w_type w = WT_Rollback \<and> \<not> is_protected w)"

lemma rollback_record:
  assumes "wf_store e" "W = write_at e (from_raw raw)" "commit_record_ok W s (TCR_None ov)" "key_inv W"
  obtains wo pw W\<^sub>1 where "make_rollback s protect ov = Ok wo"
    "\<And>txn. txn_adds txn pw (put_write_opt (from_raw raw) s wo txn)"
    "\<And>L. ops_lock pw L = L"
    "\<And>co. collapsible W s co \<Longrightarrow>
       rollback_ops (from_raw raw) s W (fold (\<lambda>c W. W(c := None)) co W\<^sub>1) (pw @ map (DelWrite (from_raw raw)) co)"
    "\<And>co. collapsible W s co \<Longrightarrow>
       rollback_ops (from_raw raw) s W (fold (\<lambda>c W. W(c := None)) co W\<^sub>1) (map (DelWrite (from_raw raw)) co @ pw)"
    "\<And>co. collapsible W s co \<Longrightarrow> protect \<Longrightarrow> rollback_recorded (fold (\<lambda>c W. W(c := None)) co W\<^sub>1) s"
proof -
  let ?key = "from_raw raw"
  obtain wo where wo: "make_rollback s protect ov = Ok wo" "protect \<longrightarrow> wo \<noteq> None"
    "\<forall>w'. wo = Some w' \<longrightarrow> rollback_mark W s w'"
    using make_rollback_ok [OF assms(3,4)] by blast
  define pw where "pw = (case wo of None \<Rightarrow> [] | Some w \<Rightarrow> [PutWrite ?key s w])"
  define W\<^sub>1 where "W\<^sub>1 = (case wo of None \<Rightarrow> W | Some w \<Rightarrow> W(s \<mapsto> w))"
  have ops: "rollback_ops ?key s W W\<^sub>1 pw"
    using wo(3) rollback_ops_refl rollback_ops_write [OF _ assms(1), of raw s] assms(2)
    by (auto simp: W\<^sub>1_def pw_def split: option.split)
  have shape: "pw = [] \<or> (\<exists>w. pw = [PutWrite ?key s w])" by (auto simp: pw_def split: option.split)
  show thesis
  proof (rule that [of wo pw W\<^sub>1])
    fix txn co
    assume co: "collapsible W s co"
    show "rollback_ops ?key s W (fold (\<lambda>c W. W(c := None)) co W\<^sub>1) (pw @ map (DelWrite ?key) co)"
      by (rule rollback_ops_collapse [OF ops co [unfolded collapsible_def]])
    show "rollback_ops ?key s W (fold (\<lambda>c W. W(c := None)) co W\<^sub>1) (map (DelWrite ?key) co @ pw)"
      by (rule rollback_ops_collapse_first [OF ops co [unfolded collapsible_def] shape])
    assume protect
    then obtain w' where "wo = Some w'" "rollback_mark W s w'" using wo(2,3) by auto
    then show "rollback_recorded (fold (\<lambda>c W. W(c := None)) co W\<^sub>1) s"
      using rollback_ops_recorded [of W s w' co] co by (auto simp: W\<^sub>1_def collapsible_def)
  qed (use wo(1) shape put_write_opt_adds in \<open>auto simp: pw_def\<close>)
qed

lemma collapse_if_ok:
  assumes "clean_reader s raw" "W = write_at (sr_engine s) (from_raw raw)" "no_record W (sr_start_ts s)"
  obtains co txn' where
    "(if collapse then collapse_prev_rollback txn s (from_raw raw) else Ok txn) = Ok txn'"
    "txn_adds txn (map (DelWrite (from_raw raw)) co) txn'" "collapsible W (sr_start_ts s) co"
proof (cases collapse)
  case True
  then show thesis
    using collapse_prev_rollback_ok [OF assms(1), folded assms(2), OF assms(3), of txn] that
    by (auto simp: collapsible_def)
qed (use that [of txn "[]"] in \<open>auto simp: collapsible_def\<close>)

lemma ops_lock_DelWrite [simp]: "ops_lock (map (DelWrite key) co) L = L"
  by (induction co arbitrary: L) auto

lemma rollback_lock_ok:
  assumes clean: "clean_reader s raw" and ts: "l_ts l = sr_start_ts s"
    and W: "W = write_at (sr_engine s) (from_raw raw)"
    and uncommitted: "\<And>c. \<not> committed_at W (sr_start_ts s) c"
  shows "\<exists>txn' ops W'. rollback_lock txn s (from_raw raw) l pess collapse =
      Ok (Some \<lparr> rl_start_ts = t_start_ts txn, rl_commit_ts = 0, rl_key = from_raw raw,
                 rl_pessimistic = pess \<rparr>, txn') \<and>
    txn_adds txn ops txn' \<and> rollback_ops (from_raw raw) (sr_start_ts s) W W' ops \<and>
    (\<forall>L. ops_lock ops L = L(from_raw raw := None)) \<and>
    (key_is_encoded_from (from_raw raw) (l_primary l) \<longrightarrow> rollback_recorded W' (sr_start_ts s))"
proof -
  let ?key = "from_raw raw" and ?s = "sr_start_ts s"
  note wf = clean_reader_wf [OF clean] and inv = clean_reader_inv [OF clean, folded W]
  obtain rec where rec: "sr_get_txn_commit_record s ?key = Ok rec" "commit_record_ok W ?s rec"
    by (rule sr_commit_record_ok [OF clean, folded W])
  have unlock: ?thesis if "rollback_lock txn s ?key l pess collapse = Ok (unlock_key ?key pess ts_zero txn\<^sub>1)"
    "txn_adds txn ops txn\<^sub>1" "rollback_ops ?key ?s W W' ops" "\<forall>L. ops_lock ops L = L"
    "key_is_encoded_from ?key (l_primary l) \<longrightarrow> rollback_recorded W' ?s" for txn\<^sub>1 ops W'
  proof -
    obtain txn' where "unlock_key ?key pess ts_zero txn\<^sub>1 =
      (Some \<lparr> rl_start_ts = t_start_ts txn\<^sub>1, rl_commit_ts = ts_zero, rl_key = ?key, rl_pessimistic = pess \<rparr>, txn')"
      "txn_adds txn\<^sub>1 [DelLock ?key] txn'" by (rule unlock_key_obtain)
    with that show ?thesis
      using rollback_ops_lock [OF that(3)] txn_adds_trans [OF that(2)] txn_adds_start [OF that(2)]
      by (intro exI [of _ txn'] exI [of _ "ops @ [DelLock ?key]"] exI [of _ W']) (auto simp: ts_zero_def)
  qed
  from rec(2) inv uncommitted show ?thesis
  proof (cases rule: commit_record_not_committed [consumes 3, case_names none rollback overlapped])
    case (none ov)
    let ?protect = "key_is_encoded_from ?key (l_primary l) \<or> l_generation l > 0"
    define dv where "dv = (if l_short_value l = None \<and> l_type l = LT_Put then [DelData ?key ?s] else [])"
    define txn\<^sub>0 where "txn\<^sub>0 = (if l_short_value l = None \<and> l_type l = LT_Put then delete_value ?key (l_ts l) txn else txn)"
    have dv: "txn_adds txn dv txn\<^sub>0" using delete_value_adds ts by (simp add: dv_def txn\<^sub>0_def)
    obtain wo pw W\<^sub>1 where pw: "make_rollback ?s ?protect ov = Ok wo"
      "\<And>txn. txn_adds txn pw (put_write_opt ?key ?s wo txn)" "\<And>L. ops_lock pw L = L"
      "\<And>co. collapsible W ?s co \<Longrightarrow>
         rollback_ops ?key ?s W (fold (\<lambda>c W. W(c := None)) co W\<^sub>1) (pw @ map (DelWrite ?key) co)"
      "\<And>co. collapsible W ?s co \<Longrightarrow>
         rollback_ops ?key ?s W (fold (\<lambda>c W. W(c := None)) co W\<^sub>1) (map (DelWrite ?key) co @ pw)"
      "\<And>co. collapsible W ?s co \<Longrightarrow> ?protect \<Longrightarrow> rollback_recorded (fold (\<lambda>c W. W(c := None)) co W\<^sub>1) ?s"
      by (rule rollback_record [OF wf W rec(2) [unfolded none(1)] inv, of ?protect]) (rule that)
    obtain co txn\<^sub>2 where co:
      "(if collapse then collapse_prev_rollback (put_write_opt ?key ?s wo txn\<^sub>0) s ?key
        else Ok (put_write_opt ?key ?s wo txn\<^sub>0)) = Ok txn\<^sub>2"
      "txn_adds (put_write_opt ?key ?s wo txn\<^sub>0) (map (DelWrite ?key) co) txn\<^sub>2" "collapsible W ?s co"
      by (rule collapse_if_ok [OF clean W none(2)])
    show ?thesis
    proof (rule unlock)
      show "rollback_lock txn s ?key l pess collapse = Ok (unlock_key ?key pess ts_zero txn\<^sub>2)"
        using rec(1) none(1) pw(1) co(1) unfolding txn\<^sub>0_def by (simp add: rollback_lock_def Let_def)
      show "txn_adds txn (dv @ pw @ map (DelWrite ?key) co) txn\<^sub>2"
        by (rule txn_adds_trans [OF dv txn_adds_trans [OF pw(2) co(2)]])
      show "rollback_ops ?key ?s W (fold (\<lambda>c W. W(c := None)) co W\<^sub>1) (dv @ pw @ map (DelWrite ?key) co)"
        using pw(4) [OF co(3)] rollback_ops_data by (auto simp: dv_def)
      show "\<forall>L. ops_lock (dv @ pw @ map (DelWrite ?key) co) L = L" using pw(3) by (auto simp: dv_def)
    qed (use pw(6) [OF co(3)] in blast)
  qed (use unlock [OF _ txn_adds_refl rollback_ops_refl] rec(1) in \<open>auto simp: rollback_lock_def\<close>)
qed
text \<open>
  A protected rollback leaves its timestamp in the lock of another transaction whose commit
  timestamp may turn out to be the same.
\<close>

definition remember_rollback :: "missing_lock_action \<Rightarrow> TimeStamp \<Rightarrow> lock \<Rightarrow> lock" where
  "remember_rollback action s l =
     (if action = ProtectedRollback \<and> l_min_commit_ts l \<le> s \<and> l_use_async_commit l
      then l\<lparr>l_rollback_ts := l_rollback_ts l @ [s]\<rparr> else l)"

definition rollback_room :: "lock option \<Rightarrow> bool" where
  "rollback_room lo \<longleftrightarrow> (case lo of None \<Rightarrow> True | Some l \<Rightarrow> (length (l_rollback_ts l) + 2) * 8 \<le> ISIZE_MAX)"

lemma wf_remember_rollback:
  "wf_lock l \<Longrightarrow> rollback_room (Some l) \<Longrightarrow> wf_lock (remember_rollback action s l)"
  by (auto simp: remember_rollback_def wf_lock_def rollback_room_def)

lemma mark_rollback_ok:
  assumes "l_ts l \<noteq> t_start_ts txn"
  shows "\<exists>txn' ops.
    mark_rollback_on_mismatching_lock (from_raw raw) l (action = ProtectedRollback) txn = Ok txn' \<and>
    txn_adds txn ops txn' \<and> (ops = [] \<and> remember_rollback action (t_start_ts txn) l = l \<or>
      ops = [PutLock (from_raw raw) (remember_rollback action (t_start_ts txn) l)])"
proof (cases "action = ProtectedRollback \<and> l_min_commit_ts l \<le> t_start_ts txn \<and> l_use_async_commit l")
  case True
  then have "mark_rollback_on_mismatching_lock (from_raw raw) l (action = ProtectedRollback) txn =
      put_lock (from_raw raw) (remember_rollback action (t_start_ts txn) l) False txn"
    using assms by (auto simp: mark_rollback_on_mismatching_lock_def remember_rollback_def)
  then show ?thesis using put_lock_adds [OF refl] by metis
next
  case False
  then have "mark_rollback_on_mismatching_lock (from_raw raw) l (action = ProtectedRollback) txn = Ok txn"
    using assms by (auto simp: mark_rollback_on_mismatching_lock_def)
  moreover have "remember_rollback action (t_start_ts txn) l = l"
    using False by (auto simp: remember_rollback_def)
  ultimately show ?thesis by (metis txn_adds_refl)
qed

lemma mismatch_mark_ok:
  assumes txn: "t_start_ts txn = s"
    and mismatch: "\<forall>l. mismatch = Some l \<longrightarrow> wf_lock l \<and> rollback_room (Some l) \<and> l_ts l \<noteq> s"
  obtains ml txn' where "(case (mismatch, ov) of
          (Some l, None) \<Rightarrow> mark_rollback_on_mismatching_lock (from_raw raw) l (action = ProtectedRollback) txn
        | _ \<Rightarrow> Ok txn) = Ok txn'" "txn_adds txn ml txn'"
    "ml = [] \<or> (\<exists>l. ml = [PutLock (from_raw raw) l] \<and> wf_op (PutLock (from_raw raw) l))"
    "\<And>L. L (from_raw raw) = mismatch \<Longrightarrow> ops_lock ml L =
      (if ov = None then L(from_raw raw := map_option (remember_rollback action s) mismatch) else L)"
proof (cases "mismatch = None \<or> ov \<noteq> None")
  case True
  then show thesis
    by (intro that [of txn "[]"]) (auto split: option.split)
next
  case False
  then obtain l where l: "mismatch = Some l" "ov = None" by auto
  obtain txn' ops where mark:
    "mark_rollback_on_mismatching_lock (from_raw raw) l (action = ProtectedRollback) txn = Ok txn'"
    "txn_adds txn ops txn'"
    "ops = [] \<and> remember_rollback action s l = l \<or> ops = [PutLock (from_raw raw) (remember_rollback action s l)]"
    using mark_rollback_ok [of l txn raw action] mismatch l(1) unfolding txn by metis
  have "wf_lock (remember_rollback action s l)"
    using mismatch l(1) by (simp add: wf_remember_rollback)
  show thesis
  proof (rule that [of txn' ops])
    show "ops = [] \<or> (\<exists>l. ops = [PutLock (from_raw raw) l] \<and> wf_op (PutLock (from_raw raw) l))"
      using mark(3) \<open>wf_lock (remember_rollback action s l)\<close> by auto
    show "ops_lock ops L =
      (if ov = None then L(from_raw raw := map_option (remember_rollback action s) mismatch) else L)"
      if "L (from_raw raw) = mismatch" for L
      using mark(3) l that by (auto simp: fun_upd_idem)
  qed (use mark(1,2) l in simp_all)
qed

lemma rollback_ops_insert_lock:
  "rollback_ops key s W W' (xs @ ys) \<Longrightarrow> ops = [] \<or> (\<exists>l. ops = [PutLock key l] \<and> wf_op (PutLock key l)) \<Longrightarrow>
   rollback_ops key s W W' (xs @ ops @ ys)"
  by (auto simp: rollback_ops_def)

lemma missing_lock_ok:
  assumes clean: "clean_reader s raw" and txn: "t_start_ts txn = sr_start_ts s"
    and W: "W = write_at (sr_engine s) (from_raw raw)"
    and uncommitted: "\<And>c. \<not> committed_at W (sr_start_ts s) c"
    and action: "action \<noteq> ReturnError"
    and mismatch: "\<forall>l. mismatch = Some l \<longrightarrow> wf_lock l \<and> rollback_room (Some l) \<and> l_ts l \<noteq> sr_start_ts s"
  shows "\<exists>status txn' ops W'.
    check_txn_status_missing_lock txn s (from_raw raw) mismatch action False = Ok (status, txn') \<and>
    txn_adds txn ops txn' \<and> rollback_ops (from_raw raw) (sr_start_ts s) W W' ops \<and>
    (status = RolledBack \<and> ops = [] \<and> rollback_recorded W (sr_start_ts s) \<or>
     status = LockNotExist \<and> no_record W (sr_start_ts s) \<and>
     (action = ProtectedRollback \<longrightarrow> rollback_recorded W' (sr_start_ts s)) \<and>
     (\<forall>L. L (from_raw raw) = mismatch \<longrightarrow> ops_lock ops L =
        (if W (sr_start_ts s) = None
         then L(from_raw raw := map_option (remember_rollback action (sr_start_ts s)) mismatch) else L)))"
proof -
  let ?key = "from_raw raw" and ?s = "sr_start_ts s"
  note wf = clean_reader_wf [OF clean] and inv = clean_reader_inv [OF clean, folded W]
  obtain rec where rec: "sr_get_txn_commit_record s ?key = Ok rec" "commit_record_ok W ?s rec"
    by (rule sr_commit_record_ok [OF clean, folded W])
  from rec(2) inv uncommitted show ?thesis
  proof (cases rule: commit_record_not_committed [consumes 3, case_names none rollback overlapped])
    case (none ov)
    obtain collapse where collapse: "collapse_rollback action = Ok collapse" "\<not> collapse \<longleftrightarrow> action = ProtectedRollback"
      using action by (cases action) auto
    obtain co txn\<^sub>1 where co: "(if collapse then collapse_prev_rollback txn s ?key else Ok txn) = Ok txn\<^sub>1"
      "txn_adds txn (map (DelWrite ?key) co) txn\<^sub>1" "collapsible W ?s co"
      by (rule collapse_if_ok [OF clean W none(2)])
    obtain wo pw W\<^sub>1 where pw: "make_rollback ?s (\<not> collapse) ov = Ok wo"
      "\<And>txn. txn_adds txn pw (put_write_opt ?key ?s wo txn)" "\<And>L. ops_lock pw L = L"
      "\<And>co. collapsible W ?s co \<Longrightarrow>
         rollback_ops ?key ?s W (fold (\<lambda>c W. W(c := None)) co W\<^sub>1) (pw @ map (DelWrite ?key) co)"
      "\<And>co. collapsible W ?s co \<Longrightarrow>
         rollback_ops ?key ?s W (fold (\<lambda>c W. W(c := None)) co W\<^sub>1) (map (DelWrite ?key) co @ pw)"
      "\<And>co. collapsible W ?s co \<Longrightarrow> \<not> collapse \<Longrightarrow> rollback_recorded (fold (\<lambda>c W. W(c := None)) co W\<^sub>1) ?s"
      by (rule rollback_record [OF wf W rec(2) [unfolded none(1)] inv, of "\<not> collapse"]) (rule that)
    obtain ml txn\<^sub>2 where ml: "(case (mismatch, ov) of
          (Some l, None) \<Rightarrow> mark_rollback_on_mismatching_lock ?key l (action = ProtectedRollback) txn\<^sub>1
        | _ \<Rightarrow> Ok txn\<^sub>1) = Ok txn\<^sub>2" "txn_adds txn\<^sub>1 ml txn\<^sub>2"
      "ml = [] \<or> (\<exists>l. ml = [PutLock ?key l] \<and> wf_op (PutLock ?key l))"
      "\<And>L. L ?key = mismatch \<Longrightarrow> ops_lock ml L =
        (if ov = None then L(?key := map_option (remember_rollback action ?s) mismatch) else L)"
      by (rule mismatch_mark_ok [OF trans [OF txn_adds_start [OF co(2)] txn] mismatch, where ov = ov])
        (rule that)
    have ov: "ov = None \<longleftrightarrow> W ?s = None" using rec(2) none(1) by (cases ov) auto
    have "check_txn_status_missing_lock txn s ?key mismatch action False =
        Ok (LockNotExist, put_write_opt ?key ?s wo txn\<^sub>2)"
      using rec(1) none(1) action collapse(1) co(1) ml(1) pw(1)
      by (simp add: check_txn_status_missing_lock_def construct_write_def)
    moreover have "txn_adds txn (map (DelWrite ?key) co @ ml @ pw) (put_write_opt ?key ?s wo txn\<^sub>2)"
      by (rule txn_adds_trans [OF co(2) txn_adds_trans [OF ml(2) pw(2)]])
    moreover have "rollback_ops ?key ?s W (fold (\<lambda>c W. W(c := None)) co W\<^sub>1) (map (DelWrite ?key) co @ ml @ pw)"
      by (rule rollback_ops_insert_lock [OF pw(5) [OF co(3)] ml(3)])
    moreover have "action = ProtectedRollback \<longrightarrow> rollback_recorded (fold (\<lambda>c W. W(c := None)) co W\<^sub>1) ?s"
      using pw(6) [OF co(3)] collapse(2) by blast
    moreover have "ops_lock (map (DelWrite ?key) co @ ml @ pw) L =
        (if W ?s = None then L(?key := map_option (remember_rollback action ?s) mismatch) else L)"
      if "L ?key = mismatch" for L
      using ml(4) [of L, OF that] pw(3) by (simp add: ov)
    ultimately show ?thesis using none(2) by blast
  next
    case (rollback w)
    then have "check_txn_status_missing_lock txn s ?key mismatch action False = Ok (RolledBack, txn)"
      using rec(1) by (simp add: check_txn_status_missing_lock_def)
    then show ?thesis using rollback(3) rollback_ops_refl txn_adds_refl by blast
  next
    case overlapped
    then have "check_txn_status_missing_lock txn s ?key mismatch action False = Ok (RolledBack, txn)"
      using rec(1) by (simp add: check_txn_status_missing_lock_def)
    then show ?thesis using overlapped(3) rollback_ops_refl txn_adds_refl by blast
  qed
qed
end
