(* ===== verification/TxnProtocol.thy ===== *)
theory TxnProtocol
  imports TxnActions
begin

text \<open>
  The actions of a transaction applied to the store: an action reads a snapshot of the store, its
  buffer is written back, and the view of the store changes as the protocol demands. The contract the
  rolling-back actions share is a locale; what holds after any of them is proved once from it.
\<close>

section \<open>From a buffer to the store\<close>

definition apply_txn :: "engine \<Rightarrow> mvcc_txn \<Rightarrow> engine mvcc_result" where
  "apply_txn e txn = rbind (into_modifies txn) (write_modifies e)"

definition reader_at :: "engine \<Rightarrow> TimeStamp \<Rightarrow> snapshot_reader" where
  "reader_at e s = snapshot_reader_new s \<lparr> s_engine = e, s_txn_ext = None \<rparr>"

lemma reader_at_simps [simp]:
  "sr_engine (reader_at e s) = e" "sr_start_ts (reader_at e s) = s" "s_txn_ext (sr_snapshot (reader_at e s)) = None"
  by (simp_all add: reader_at_def snapshot_reader_new_def reader_new_def)

lemma txn_new_simps [simp]: "t_start_ts (txn_new s cm) = s" "t_modifies (txn_new s cm) = []"
  "t_locks_for_1pc (txn_new s cm) = []" "t_cm (txn_new s cm) = cm"
  by (simp_all add: txn_new_def)

lemma apply_txn_ok:
  assumes "wf_store e" "list_all wf_op ops" "txn_adds (txn_new s cm) ops txn'"
  obtains e' where "apply_txn e txn' = Ok e'" "wf_store e'" "write_at e' = ops_write ops (write_at e)"
    "lock_at e' = ops_lock ops (lock_at e)" "data_at e' = ops_data ops (data_at e)"
proof -
  have "apply_txn e txn' = write_modifies e (map op_modify ops)"
    using assms(3) by (simp add: apply_txn_def into_modifies_def txn_adds_def)
  then show thesis using ops_refine [OF assms(1,2)] that by metis
qed

text \<open>
  What the protocol keeps of a key: its records are in order, and a transaction that still holds the
  lock has not committed.
\<close>

definition key_ok :: "engine \<Rightarrow> bytes \<Rightarrow> bool" where
  "key_ok e raw \<longleftrightarrow> wf_store e \<and> key_inv (write_at e (from_raw raw)) \<and>
     (\<forall>l c. lock_at e (from_raw raw) = Some l \<longrightarrow> \<not> committed_at (write_at e (from_raw raw)) (l_ts l) c)"

lemma key_ok_clean: "key_ok e raw \<Longrightarrow> clean_reader (reader_at e s) raw"
  by (simp add: key_ok_def clean_reader_def)

lemma key_ok_wf: "key_ok e raw \<Longrightarrow> wf_store e"
  by (simp add: key_ok_def)

lemma key_ok_lock: "key_ok e raw \<Longrightarrow> lock_at e (from_raw raw) = Some l \<Longrightarrow> wf_lock l"
  using lock_at_entry [of e] by (metis key_ok_def)

section \<open>Stores built from updates\<close>

definition store_of :: "store_op list \<Rightarrow> engine" where
  "store_of ops = (case write_modifies engine_new (map op_modify ops) :: engine mvcc_result of
      Ok e \<Rightarrow> e | _ \<Rightarrow> engine_new)"

lemma store_of_view:
  assumes "list_all wf_op ops"
  shows "wf_store (store_of ops)" "write_at (store_of ops) = ops_write ops (\<lambda>_ _. None)"
    "lock_at (store_of ops) = ops_lock ops (\<lambda>_. None)" "data_at (store_of ops) = ops_data ops (\<lambda>_ _. None)"
proof -
  obtain e where "write_modifies engine_new (map op_modify ops) = (Ok e :: engine mvcc_result)"
    "wf_store e" "write_at e = ops_write ops (write_at engine_new)"
    "lock_at e = ops_lock ops (lock_at engine_new)" "data_at e = ops_data ops (data_at engine_new)"
    using ops_refine [OF wf_engine_new assms] by metis
  moreover have "write_at engine_new = (\<lambda>_ _. None)" "lock_at engine_new = (\<lambda>_. None)"
    "data_at engine_new = (\<lambda>_ _. None)" by (simp_all add: fun_eq_iff)
  ultimately show "wf_store (store_of ops)" "write_at (store_of ops) = ops_write ops (\<lambda>_ _. None)"
    "lock_at (store_of ops) = ops_lock ops (\<lambda>_. None)" "data_at (store_of ops) = ops_data ops (\<lambda>_ _. None)"
    by (simp_all add: store_of_def)
qed

section \<open>Cleanup\<close>

text \<open>The store after a rollback of \<open>s\<close> on a key.\<close>

definition rollback_store :: "engine \<Rightarrow> TimeStamp \<Rightarrow> bytes \<Rightarrow> engine \<Rightarrow> bool" where
  "rollback_store e s raw e' \<longleftrightarrow> wf_store e' \<and>
     (\<exists>W'. write_at e' = (write_at e)(from_raw raw := W') \<and> rolled_back (write_at e (from_raw raw)) s W') \<and>
     (\<forall>k \<noteq> from_raw raw. lock_at e' k = lock_at e k) \<and>
     (\<forall>l. lock_at e' (from_raw raw) = Some l \<longrightarrow> l_ts l \<noteq> s \<and>
       (\<exists>l\<^sub>0. lock_at e (from_raw raw) = Some l\<^sub>0 \<and> (l = l\<^sub>0 \<or> l = l\<^sub>0\<lparr>l_rollback_ts := l_rollback_ts l\<^sub>0 @ [s]\<rparr>))) \<and>
     (\<forall>k t. (k, t) \<noteq> (from_raw raw, s) \<longrightarrow> data_at e' k t = data_at e k t)"

lemma rollback_ops_store:
  assumes "wf_store e" "rollback_ops (from_raw raw) s (write_at e (from_raw raw)) W' ops"
    and "txn_adds (txn_new s cm) ops txn'"
    and "ops_lock ops (lock_at e) = (lock_at e)(from_raw raw := lo)"
    and "\<forall>l. lo = Some l \<longrightarrow> l_ts l \<noteq> s \<and>
       (\<exists>l\<^sub>0. lock_at e (from_raw raw) = Some l\<^sub>0 \<and> (l = l\<^sub>0 \<or> l = l\<^sub>0\<lparr>l_rollback_ts := l_rollback_ts l\<^sub>0 @ [s]\<rparr>))"
  obtains e' where "apply_txn e txn' = Ok e'" "rollback_store e s raw e'"
    "write_at e' (from_raw raw) = W'" "lock_at e' (from_raw raw) = lo"
proof -
  have wf: "list_all wf_op ops" using assms(2) by (simp add: rollback_ops_def)
  obtain e' where e': "apply_txn e txn' = Ok e'" "wf_store e'" "write_at e' = ops_write ops (write_at e)"
    "lock_at e' = ops_lock ops (lock_at e)" "data_at e' = ops_data ops (data_at e)"
    by (rule apply_txn_ok [OF assms(1) wf assms(3)])
  have W': "write_at e' = (write_at e)(from_raw raw := W')" "rolled_back (write_at e (from_raw raw)) s W'"
    using e'(3) assms(2) by (auto simp: rollback_ops_def)
  have "\<forall>k t. (k, t) \<noteq> (from_raw raw, s) \<longrightarrow> data_at e' k t = data_at e k t"
    using e'(5) assms(2) by (auto simp: rollback_ops_def)
  then have "rollback_store e s raw e'"
    using e'(2,4) assms(4,5) W' by (auto simp: rollback_store_def)
  with e'(1,4) assms(4) W'(1) show thesis by (intro that [of e']) simp_all
qed

lemma committed_missing_lock:
  assumes clean: "clean_reader s raw" and committed: "committed_at (write_at (sr_engine s) (from_raw raw)) (sr_start_ts s) c"
  shows "check_txn_status_missing_lock txn s (from_raw raw) mismatch action resolving = Ok (StatusCommitted c, txn)"
proof -
  let ?W = "write_at (sr_engine s) (from_raw raw)"
  obtain rec where rec: "sr_get_txn_commit_record s (from_raw raw) = Ok rec"
    "commit_record_ok ?W (sr_start_ts s) rec" by (rule sr_commit_record_ok [OF clean])
  obtain w where w: "?W c = Some w" "w_start_ts w = sr_start_ts s" "w_type w \<noteq> WT_Rollback"
    using committed by (auto simp: committed_at_def)
  have "\<not> no_record ?W (sr_start_ts s)" using w by (auto simp: no_record_def)
  with rec(2) obtain c' w' where r: "rec = SingleRecord c' w'" "?W c' = Some w'" "w_start_ts w' = sr_start_ts s"
    by (cases rec) (auto dest: commit_record_TCR_None)
  then have "c' = c" using w key_inv_one_record [OF clean_reader_inv [OF clean]]
    unfolding one_record_def by metis
  then show ?thesis using rec(1) r w by (auto simp: check_txn_status_missing_lock_def)
qed

lemma cleanup_committed:
  assumes ok: "key_ok e raw" and committed: "committed_at (write_at e (from_raw raw)) s c"
  shows "cleanup txn (reader_at e s) (from_raw raw) current_ts protect = Err (Committed s c raw)"
proof -
  have "cleanup_missing txn (reader_at e s) (from_raw raw) lo protect = Err (Committed s c raw)" for lo
    using committed_missing_lock [OF key_ok_clean [OF ok], of s c] committed by (simp add: cleanup_missing_def)
  moreover have "l_ts l \<noteq> s" if "lock_at e (from_raw raw) = Some l" for l
    using ok committed that by (auto simp: key_ok_def)
  ultimately show ?thesis
    using sr_load_lock_ok [OF key_ok_clean [OF ok], of s]
    by (auto simp: cleanup_def split: option.split)
qed

lemma remember_rollback_ts [simp]: "l_ts (remember_rollback action s l) = l_ts l"
  by (simp add: remember_rollback_def)

lemma missing_lock_store:
  assumes ok: "key_ok e raw" and W: "W = write_at e (from_raw raw)"
    and uncommitted: "\<And>c. \<not> committed_at W s c" and action: "action \<noteq> ReturnError"
    and room: "rollback_room (lock_at e (from_raw raw))"
    and missing: "\<forall>l. lock_at e (from_raw raw) = Some l \<longrightarrow> l_ts l \<noteq> s"
  shows "\<exists>status txn' e'. check_txn_status_missing_lock (txn_new s cm) (reader_at e s) (from_raw raw)
      (lock_at e (from_raw raw)) action False = Ok (status, txn') \<and>
    status \<in> {RolledBack, LockNotExist} \<and> apply_txn e txn' = Ok e' \<and> rollback_store e s raw e' \<and>
    (action = ProtectedRollback \<or> status = RolledBack \<longrightarrow> rollback_recorded (write_at e' (from_raw raw)) s) \<and>
    lock_at e' (from_raw raw) =
      (if status = LockNotExist \<and> W s = None then map_option (remember_rollback action s) (lock_at e (from_raw raw))
       else lock_at e (from_raw raw))"
proof -
  let ?key = "from_raw raw"
  have "\<forall>l. lock_at e ?key = Some l \<longrightarrow> wf_lock l \<and> rollback_room (Some l) \<and> l_ts l \<noteq> sr_start_ts (reader_at e s)"
    using key_ok_lock [OF ok] missing room by (cases "lock_at e ?key") auto
  from missing_lock_ok [OF key_ok_clean [OF ok, of s] _ _ _ action this, of "txn_new s cm" W,
      unfolded reader_at_simps txn_new_simps, OF refl W uncommitted]
  obtain status txn' ops W' where r:
    "check_txn_status_missing_lock (txn_new s cm) (reader_at e s) ?key (lock_at e ?key) action False =
      Ok (status, txn')" "txn_adds (txn_new s cm) ops txn'" "rollback_ops ?key s W W' ops"
    and st: "status = RolledBack \<and> ops = [] \<and> rollback_recorded W s \<or>
     status = LockNotExist \<and> no_record W s \<and> (action = ProtectedRollback \<longrightarrow> rollback_recorded W' s) \<and>
     (\<forall>L. L ?key = lock_at e ?key \<longrightarrow> ops_lock ops L =
        (if W s = None then L(?key := map_option (remember_rollback action s) (lock_at e ?key)) else L))"
    by blast
  define lo where "lo = (if status = LockNotExist \<and> W s = None
    then map_option (remember_rollback action s) (lock_at e ?key) else lock_at e ?key)"
  have lo: "ops_lock ops (lock_at e) = (lock_at e)(?key := lo)" using st by (auto simp: lo_def)
  have lo_ts: "\<forall>l. lo = Some l \<longrightarrow> l_ts l \<noteq> s \<and>
      (\<exists>l\<^sub>0. lock_at e ?key = Some l\<^sub>0 \<and> (l = l\<^sub>0 \<or> l = l\<^sub>0\<lparr>l_rollback_ts := l_rollback_ts l\<^sub>0 @ [s]\<rparr>))"
    using missing by (auto simp: lo_def remember_rollback_def)
  obtain e' where e': "apply_txn e txn' = Ok e'" "rollback_store e s raw e'"
    "write_at e' ?key = W'" "lock_at e' ?key = lo"
    by (rule rollback_ops_store [OF key_ok_wf [OF ok] r(3) [unfolded W] r(2) lo lo_ts])
  have "rollback_recorded W' s" if "action = ProtectedRollback \<or> status = RolledBack"
  proof (cases "status = RolledBack")
    case True
    then have "W = W'" using st r(3) W unfolding rollback_ops_def by (metis fun_upd_same ops_simps(1) txn_status.distinct(3))
    with True st show ?thesis by auto
  qed (use st that in auto)
  with r(1) st e' show ?thesis unfolding lo_def by auto
qed

lemma rollback_lock_store:
  assumes ok: "key_ok e raw" and l: "lock_at e (from_raw raw) = Some l" "l_ts l = s"
  shows "\<exists>txn' e'. rollback_lock (txn_new s cm) (reader_at e s) (from_raw raw) l pess collapse =
      Ok (Some \<lparr> rl_start_ts = s, rl_commit_ts = 0, rl_key = from_raw raw, rl_pessimistic = pess \<rparr>, txn') \<and>
    apply_txn e txn' = Ok e' \<and> rollback_store e s raw e' \<and> lock_at e' (from_raw raw) = None \<and>
    (key_is_encoded_from (from_raw raw) (l_primary l) \<longrightarrow> rollback_recorded (write_at e' (from_raw raw)) s)"
proof -
  let ?key = "from_raw raw" and ?W = "write_at e (from_raw raw)"
  have "\<not> committed_at ?W s c" for c using ok l by (auto simp: key_ok_def)
  with rollback_lock_ok [OF key_ok_clean [OF ok, of s], of l ?W "txn_new s cm" pess collapse] l(2)
  obtain txn' ops W' where r: "rollback_lock (txn_new s cm) (reader_at e s) ?key l pess collapse =
      Ok (Some \<lparr> rl_start_ts = s, rl_commit_ts = 0, rl_key = ?key, rl_pessimistic = pess \<rparr>, txn')"
    "txn_adds (txn_new s cm) ops txn'" "rollback_ops ?key s ?W W' ops"
    "ops_lock ops (lock_at e) = (lock_at e)(?key := None)"
    "key_is_encoded_from ?key (l_primary l) \<longrightarrow> rollback_recorded W' s" by auto
  obtain e' where "apply_txn e txn' = Ok e'" "rollback_store e s raw e'" "write_at e' ?key = W'"
    "lock_at e' ?key = None"
    by (rule rollback_ops_store [OF key_ok_wf [OF ok] r(3,2,4)]) auto
  with r(1,5) show ?thesis by auto
qed

lemma cleanup_rolls_back:
  assumes ok: "key_ok e raw" and room: "rollback_room (lock_at e (from_raw raw))"
    and uncommitted: "\<And>c. \<not> committed_at (write_at e (from_raw raw)) s c"
    and dead: "\<And>l. lock_at e (from_raw raw) = Some l \<Longrightarrow> l_ts l = s \<Longrightarrow>
      is_zero current_ts \<or> physical (l_ts l) + l_ttl l < physical current_ts"
  shows "\<exists>rl txn' e'. cleanup (txn_new s cm) (reader_at e s) (from_raw raw) current_ts protect = Ok (rl, txn') \<and>
    apply_txn e txn' = Ok e' \<and> rollback_store e s raw e' \<and>
    (protect \<and> rl = None \<longrightarrow> rollback_recorded (write_at e' (from_raw raw)) s)"
proof (cases "\<exists>l. lock_at e (from_raw raw) = Some l \<and> l_ts l = s")
  case True
  then obtain l where l: "lock_at e (from_raw raw) = Some l" "l_ts l = s" by blast
  have "cleanup (txn_new s cm) (reader_at e s) (from_raw raw) current_ts protect =
      rollback_lock (txn_new s cm) (reader_at e s) (from_raw raw) l (is_pessimistic_txn l) (\<not> protect)"
    using sr_load_lock_ok [OF key_ok_clean [OF ok, of s]] l dead [OF l] by (auto simp: cleanup_def)
  with rollback_lock_store [OF ok l, of cm "is_pessimistic_txn l" "\<not> protect"] show ?thesis by force
next
  case False
  have "cleanup (txn_new s cm) (reader_at e s) (from_raw raw) current_ts protect =
      cleanup_missing (txn_new s cm) (reader_at e s) (from_raw raw) (lock_at e (from_raw raw)) protect"
    using sr_load_lock_ok [OF key_ok_clean [OF ok, of s]] False by (auto simp: cleanup_def split: option.split)
  moreover obtain status txn' e' where "check_txn_status_missing_lock (txn_new s cm) (reader_at e s) (from_raw raw)
      (lock_at e (from_raw raw)) (rollback_protect protect) False = Ok (status, txn')"
    "status \<in> {RolledBack, LockNotExist}" "apply_txn e txn' = Ok e'" "rollback_store e s raw e'"
    "rollback_protect protect = ProtectedRollback \<or> status = RolledBack \<longrightarrow> rollback_recorded (write_at e' (from_raw raw)) s"
  proof -
    have "rollback_protect protect \<noteq> ReturnError" by (simp add: rollback_protect_def)
    with missing_lock_store [OF ok refl uncommitted _ room, of "rollback_protect protect" cm] False that
    show thesis by blast
  qed
  ultimately show ?thesis by (auto simp: cleanup_missing_def rollback_protect_def)
qed

section \<open>After a rollback\<close>

text \<open>The values a reader at a timestamp finds.\<close>

definition reads :: "engine \<Rightarrow> bytes \<Rightarrow> TimeStamp \<Rightarrow> Value \<Rightarrow> bool" where
  "reads e raw ts v \<longleftrightarrow>
     (\<exists>c w. latest_data (write_at e (from_raw raw)) ts c w \<and> w_type w = WT_Put \<and>
       (case w_short_value w of Some v' \<Rightarrow> v = v' | None \<Rightarrow> data_at e (from_raw raw) (w_start_ts w) = Some v))"

lemma is_data_not_rollback: "is_data w \<Longrightarrow> w_type w \<noteq> WT_Rollback"
  by (auto simp: is_data_def)

lemma is_data_cong: "w_type w = w_type w' \<Longrightarrow> is_data w \<longleftrightarrow> is_data w'"
  by (simp add: is_data_def)

text \<open>Two records a reader cannot tell apart.\<close>

definition same_data :: "write \<Rightarrow> write \<Rightarrow> bool" where
  "same_data w w' \<longleftrightarrow> w_type w = w_type w' \<and> w_start_ts w = w_start_ts w' \<and> w_short_value w = w_short_value w'"

lemma rolled_back_data:
  assumes "rolled_back W s W'"
  shows "W' c = Some w' \<Longrightarrow> is_data w' \<Longrightarrow> \<exists>w. W c = Some w \<and> same_data w w'"
    and "W c = Some w \<Longrightarrow> is_data w \<Longrightarrow> \<exists>w'. W' c = Some w' \<and> same_data w w'"
proof -
  assume w': "W' c = Some w'" "is_data w'"
  consider "W c = Some w'" | "c = s" "rollback_mark W s w'"
    using assms w'(1) unfolding rolled_back_def by (metis option.distinct(1) option.inject)
  then show "\<exists>w. W c = Some w \<and> same_data w w'"
    using w'(2) by cases (auto dest!: rollback_mark_type simp: is_data_def same_data_def)
next
  assume w: "W c = Some w" "is_data w"
  consider "W' c = W c" | w' where "c = s" "W' s = Some w'" "rollback_mark W s w'"
    using assms w(1) is_data_not_rollback [OF w(2)] unfolding rolled_back_def by (metis option.inject)
  then show "\<exists>w'. W' c = Some w' \<and> same_data w w'"
    using w by cases (auto dest!: rollback_mark_type simp: same_data_def)
qed

lemma same_data_is_data: "same_data w w' \<Longrightarrow> is_data w \<longleftrightarrow> is_data w'"
  by (simp add: same_data_def is_data_def)

lemma latest_data_transfer:
  assumes "latest_data W ts c w"
    and "\<And>c w. W c = Some w \<Longrightarrow> is_data w \<Longrightarrow> \<exists>w'. W' c = Some w' \<and> same_data w w'"
    and "\<And>c w. W' c = Some w \<Longrightarrow> is_data w \<Longrightarrow> \<exists>w'. W c = Some w' \<and> same_data w' w"
  shows "\<exists>w'. latest_data W' ts c w' \<and> same_data w w'"
proof -
  obtain w' where w': "W' c = Some w'" "same_data w w'"
    using assms(1,2) unfolding latest_data_def by blast
  then have "latest_data W' ts c w'"
    using assms(1,3) same_data_is_data unfolding latest_data_def by metis
  with w' show ?thesis by blast
qed

lemma rolled_back_latest:
  assumes "rolled_back W s W'"
  shows "latest_data W ts c w \<Longrightarrow> \<exists>w'. latest_data W' ts c w' \<and> same_data w w'"
    and "latest_data W' ts c w' \<Longrightarrow> \<exists>w. latest_data W ts c w \<and> same_data w w'"
proof -
  have sym: "same_data w w' \<longleftrightarrow> same_data w' w" for w w' by (auto simp: same_data_def)
  show "latest_data W ts c w \<Longrightarrow> \<exists>w'. latest_data W' ts c w' \<and> same_data w w'"
    by (rule latest_data_transfer [of W], assumption) (use rolled_back_data [OF assms] in auto)
  assume "latest_data W' ts c w'"
  from latest_data_transfer [OF this, of W] show "\<exists>w. latest_data W ts c w \<and> same_data w w'"
    using rolled_back_data [OF assms] sym by metis
qed

lemma reads_transfer:
  assumes "\<And>c w. latest_data (write_at e (from_raw raw)) ts c w \<Longrightarrow>
      (\<exists>w'. latest_data (write_at e' (from_raw raw)) ts c w' \<and> same_data w w') \<and>
      data_at e' (from_raw raw) (w_start_ts w) = data_at e (from_raw raw) (w_start_ts w)"
    and "reads e raw ts v"
  shows "reads e' raw ts v"
proof -
  obtain c w where w: "latest_data (write_at e (from_raw raw)) ts c w" "w_type w = WT_Put"
    "case w_short_value w of Some v' \<Rightarrow> v = v' | None \<Rightarrow> data_at e (from_raw raw) (w_start_ts w) = Some v"
    using assms(2) unfolding reads_def by blast
  obtain w' where "latest_data (write_at e' (from_raw raw)) ts c w'" "same_data w w'"
    "data_at e' (from_raw raw) (w_start_ts w) = data_at e (from_raw raw) (w_start_ts w)"
    using assms(1) [OF w(1)] by blast
  with w(2,3) show ?thesis
    unfolding reads_def same_data_def by (intro exI [of _ c] exI [of _ w']) (auto split: option.splits)
qed

lemma key_ok_inv: "key_ok e raw \<Longrightarrow> key_inv (write_at e (from_raw raw))"
  by (simp add: key_ok_def)

text \<open>
  The contract of the actions that roll a transaction back on a key. Whatever they are, the
  transaction can no longer commit there and no reader sees a difference.
\<close>

locale rollback_action =
  fixes act :: "engine \<Rightarrow> TimeStamp \<Rightarrow> bytes \<Rightarrow> engine \<Rightarrow> bool"
  assumes act_store: "key_ok e raw \<Longrightarrow> act e s raw e' \<Longrightarrow> rollback_store e s raw e'"
    and act_uncommitted: "key_ok e raw \<Longrightarrow> act e s raw e' \<Longrightarrow> \<not> committed_at (write_at e (from_raw raw)) s c"
begin

lemma act_records:
  assumes "key_ok e raw" "act e s raw e'"
  obtains W' where "write_at e' = (write_at e)(from_raw raw := W')"
    "rolled_back (write_at e (from_raw raw)) s W'" "key_inv W'" "\<forall>c. \<not> committed_at W' s c"
proof -
  from act_store [OF assms] obtain W' where W': "write_at e' = (write_at e)(from_raw raw := W')"
    "rolled_back (write_at e (from_raw raw)) s W'" by (auto simp: rollback_store_def)
  moreover have "key_inv W'"
    by (rule rolled_back_inv [OF W'(2) key_ok_inv [OF assms(1)] act_uncommitted [OF assms]])
  moreover have "\<forall>c. \<not> committed_at W' s c"
    using rolled_back_committed [OF W'(2)] act_uncommitted [OF assms] by blast
  ultimately show thesis by (rule that)
qed

lemma act_key_ok:
  assumes "key_ok e raw" "act e s raw e'"
  shows "key_ok e' raw"
proof -
  obtain W' where W': "write_at e' = (write_at e)(from_raw raw := W')"
    "rolled_back (write_at e (from_raw raw)) s W'" "key_inv W'" by (rule act_records [OF assms])
  have "\<not> committed_at W' (l_ts l) c" if l: "lock_at e' (from_raw raw) = Some l" for l c
  proof -
    obtain l\<^sub>0 where "lock_at e (from_raw raw) = Some l\<^sub>0" "l_ts l = l_ts l\<^sub>0"
      using act_store [OF assms] l unfolding rollback_store_def by force
    then show ?thesis
      using rolled_back_committed [OF W'(2), of "l_ts l" c] assms(1) by (auto simp: key_ok_def)
  qed
  with W' act_store [OF assms] show ?thesis by (auto simp: key_ok_def rollback_store_def)
qed

lemma act_commit_fails:
  assumes "key_ok e raw" "act e s raw e'"
  shows "\<exists>info. commit txn (reader_at e' s) (from_raw raw) commit_ts role =
    Err (TxnLockNotFound s commit_ts raw info)"
proof -
  obtain W' where W': "write_at e' = (write_at e)(from_raw raw := W')" "\<forall>c. \<not> committed_at W' s c"
    by (rule act_records [OF assms])
  have "l_ts l \<noteq> s" if "lock_at e' (from_raw raw) = Some l" for l
    using act_store [OF assms] that by (auto simp: rollback_store_def)
  then show ?thesis
    using commit_missing [OF key_ok_clean [OF act_key_ok [OF assms]], of s txn commit_ts role] W' by simp
qed

lemma act_reads:
  assumes "key_ok e raw" "act e s raw e'"
  shows "reads e' raw' ts v \<longleftrightarrow> reads e raw' ts v"
proof -
  obtain W' where W': "write_at e' = (write_at e)(from_raw raw := W')"
    "rolled_back (write_at e (from_raw raw)) s W'" by (rule act_records [OF assms])
  have data: "data_at e' k t = data_at e k t" if "(k, t) \<noteq> (from_raw raw, s)" for k t
    using act_store [OF assms] that by (auto simp: rollback_store_def)
  show ?thesis
  proof (cases "raw' = raw")
    case True
    have start: "w_start_ts w \<noteq> s" if "latest_data (write_at e (from_raw raw)) ts c w" for c w
      using act_uncommitted [OF assms, of c] that is_data_not_rollback
      by (auto simp: committed_at_def latest_data_def)
    have W: "write_at e' (from_raw raw) = W'" using W'(1) by simp
    have "reads e raw ts v" if "reads e' raw ts v"
    proof (rule reads_transfer [OF _ that])
      fix c w'
      assume w': "latest_data (write_at e' (from_raw raw)) ts c w'"
      obtain w where w: "latest_data (write_at e (from_raw raw)) ts c w" "same_data w w'"
        using rolled_back_latest(2) [OF W'(2) w' [unfolded W]] by blast
      have "w_start_ts w' \<noteq> s" using start [OF w(1)] w(2) by (simp add: same_data_def)
      with w data show "(\<exists>w. latest_data (write_at e (from_raw raw)) ts c w \<and> same_data w' w) \<and>
          data_at e (from_raw raw) (w_start_ts w') = data_at e' (from_raw raw) (w_start_ts w')"
        by (auto simp: same_data_def)
    qed
    moreover have "reads e' raw ts v" if "reads e raw ts v"
    proof (rule reads_transfer [OF _ that])
      fix c w
      assume w: "latest_data (write_at e (from_raw raw)) ts c w"
      show "(\<exists>w'. latest_data (write_at e' (from_raw raw)) ts c w' \<and> same_data w w') \<and>
          data_at e' (from_raw raw) (w_start_ts w) = data_at e (from_raw raw) (w_start_ts w)"
        using rolled_back_latest(1) [OF W'(2) w] data start [OF w] W by auto
    qed
    ultimately show ?thesis using True by blast
  next
    case False
    then have d: "data_at e' (from_raw raw') = data_at e (from_raw raw')" using data by auto
    show ?thesis unfolding reads_def d using W'(1) False by simp
  qed
qed

end
subsection \<open>The actions that roll back\<close>

definition cleanup_store ::
    "concurrency_manager \<Rightarrow> TimeStamp \<Rightarrow> bool \<Rightarrow> engine \<Rightarrow> TimeStamp \<Rightarrow> bytes \<Rightarrow> engine \<Rightarrow> bool" where
  "cleanup_store cm current_ts protect e s raw e' \<longleftrightarrow> rollback_room (lock_at e (from_raw raw)) \<and>
     (\<exists>rl txn'. cleanup (txn_new s cm) (reader_at e s) (from_raw raw) current_ts protect = Ok (rl, txn') \<and>
       apply_txn e txn' = Ok e')"

definition missing_store ::
    "concurrency_manager \<Rightarrow> missing_lock_action \<Rightarrow> engine \<Rightarrow> TimeStamp \<Rightarrow> bytes \<Rightarrow> engine \<Rightarrow> bool" where
  "missing_store cm action e s raw e' \<longleftrightarrow> rollback_room (lock_at e (from_raw raw)) \<and>
     (\<forall>l. lock_at e (from_raw raw) = Some l \<longrightarrow> l_ts l \<noteq> s) \<and>
     (\<exists>status txn'. check_txn_status_missing_lock (txn_new s cm) (reader_at e s) (from_raw raw)
         (lock_at e (from_raw raw)) action False = Ok (status, txn') \<and>
       (status = RolledBack \<or> status = LockNotExist) \<and> apply_txn e txn' = Ok e')"

definition expired_store ::
    "concurrency_manager \<Rightarrow> TimeStamp \<Rightarrow> TimeStamp \<Rightarrow> bool \<Rightarrow> bool \<Rightarrow> bool \<Rightarrow> bool \<Rightarrow>
     engine \<Rightarrow> TimeStamp \<Rightarrow> bytes \<Rightarrow> engine \<Rightarrow> bool" where
  "expired_store cm current_ts caller force_sync resolving verify rollback_if_not_exist e s raw e' \<longleftrightarrow>
     (\<exists>l rl txn'. lock_at e (from_raw raw) = Some l \<and> l_ts l = s \<and>
       check_txn_status_lock_exists (txn_new s cm) (reader_at e s) (from_raw raw) l current_ts caller
         force_sync resolving verify rollback_if_not_exist = Ok ((TtlExpire, rl), txn') \<and>
       apply_txn e txn' = Ok e')"

lemma cleanup_store_ok:
  assumes "key_ok e raw" "cleanup_store cm current_ts protect e s raw e'"
  shows "rollback_store e s raw e' \<and> (\<forall>c. \<not> committed_at (write_at e (from_raw raw)) s c)"
proof -
  obtain rl txn' where r: "cleanup (txn_new s cm) (reader_at e s) (from_raw raw) current_ts protect = Ok (rl, txn')"
    "apply_txn e txn' = Ok e'" "rollback_room (lock_at e (from_raw raw))"
    using assms(2) by (auto simp: cleanup_store_def)
  have uncommitted: "\<not> committed_at (write_at e (from_raw raw)) s c" for c
    using cleanup_committed [OF assms(1), of s c] r(1) by auto
  have "is_zero current_ts \<or> physical (l_ts l) + l_ttl l < physical current_ts"
    if "lock_at e (from_raw raw) = Some l" "l_ts l = s" for l
    using sr_load_lock_ok [OF key_ok_clean [OF assms(1), of s]] that r(1)
    by (auto simp: cleanup_def not_less split: if_splits)
  from cleanup_rolls_back [OF assms(1) r(3) uncommitted this, of cm protect] r(1,2) uncommitted
  show ?thesis by auto
qed

interpretation cl: rollback_action "cleanup_store cm current_ts protect" for cm current_ts protect
  by unfold_locales (use cleanup_store_ok in blast)+

lemma missing_store_ok:
  assumes "key_ok e raw" "missing_store cm action e s raw e'"
  shows "rollback_store e s raw e' \<and> (\<forall>c. \<not> committed_at (write_at e (from_raw raw)) s c)"
proof -
  obtain status txn' where r: "check_txn_status_missing_lock (txn_new s cm) (reader_at e s) (from_raw raw)
      (lock_at e (from_raw raw)) action False = Ok (status, txn')" "status = RolledBack \<or> status = LockNotExist"
    "apply_txn e txn' = Ok e'" "rollback_room (lock_at e (from_raw raw))"
    "\<forall>l. lock_at e (from_raw raw) = Some l \<longrightarrow> l_ts l \<noteq> s"
    using assms(2) unfolding missing_store_def by blast
  have uncommitted: "\<not> committed_at (write_at e (from_raw raw)) s c" for c
    using committed_missing_lock [OF key_ok_clean [OF assms(1)], of s c] r(1,2) by auto
  show ?thesis
  proof (cases "action = ReturnError")
    case False
    from missing_lock_store [OF assms(1) refl uncommitted False r(4,5), of cm] r(1,3) uncommitted
    show ?thesis by auto
  next
    case True
    obtain rec where "sr_get_txn_commit_record (reader_at e s) (from_raw raw) = Ok rec"
      by (rule sr_commit_record_ok [OF key_ok_clean [OF assms(1)]])
    with True r(1) have "txn' = txn_new s cm"
      by (cases rec) (auto simp: check_txn_status_missing_lock_def)
    moreover have "apply_txn e (txn_new s cm) = Ok e" by (simp add: apply_txn_def into_modifies_def)
    ultimately show ?thesis using r(3,5) uncommitted key_ok_wf [OF assms(1)]
      by (auto simp: rollback_store_def intro!: exI [of _ "write_at e (from_raw raw)"])
  qed
qed

interpretation ms: rollback_action "missing_store cm action" for cm action
  by unfold_locales (use missing_store_ok in blast)+

lemma push_min_commit_ts_status:
  "push_min_commit_ts txn key l current_ts caller = Ok ((status, rl), txn') \<Longrightarrow> \<exists>l' b. status = Uncommitted l' b"
  by (auto simp: push_min_commit_ts_def Let_def split: if_splits)

lemma missing_lock_status:
  assumes "check_txn_status_missing_lock txn reader key lo action resolving = Ok (status, txn')"
  shows "status = RolledBack \<or> status = LockNotExist \<or> status = LockNotExistDoNothing \<or>
    (\<exists>c. status = StatusCommitted c)"
proof -
  obtain rec where "sr_get_txn_commit_record reader key = Ok rec"
    using assms by (auto simp: check_txn_status_missing_lock_def)
  with assms show ?thesis
    by (cases rec) (auto simp: check_txn_status_missing_lock_def split: if_splits)
qed

lemma determined_status:
  assumes "check_determined_txn_status reader key = Ok (Some status)"
  shows "status = RolledBack \<or> (\<exists>c. status = StatusCommitted c)"
proof -
  obtain rec where "sr_get_txn_commit_record reader key = Ok rec"
    using assms by (auto simp: check_determined_txn_status_def)
  with assms show ?thesis by (cases rec) (auto simp: check_determined_txn_status_def split: if_splits)
qed

lemma expired_pessimistic:
  assumes "check_txn_status_from_pessimistic_primary_lock txn reader key l current_ts resolving =
      Ok ((Some TtlExpire, rl), txn')"
  shows "physical (l_ts l) + l_ttl l < physical current_ts \<and> rollback_lock txn reader key l True True = Ok (rl, txn')"
proof -
  obtain det where det: "(if is_pessimistic_lock_with_conflict l then check_determined_txn_status reader key else Ok None) =
      Ok det" "is_pessimistic_lock l"
    using assms by (fastforce simp: check_txn_status_from_pessimistic_primary_lock_def split: if_splits)
  have "det \<noteq> Some TtlExpire"
    using det(1) determined_status by (fastforce split: if_splits)
  then show ?thesis
    using assms det
    by (cases det)
      (auto simp: check_txn_status_from_pessimistic_primary_lock_def unlock_key_def split: if_splits prod.splits)
qed

lemma expired_rolls_back:
  assumes "check_txn_status_lock_exists txn reader key l current_ts caller force_sync resolving verify
      rollback_if_not_exist = Ok ((TtlExpire, rl), txn')"
  shows "physical (l_ts l) + l_ttl l < physical current_ts \<and>
    (\<exists>pess. rollback_lock txn reader key l pess True = Ok (rl, txn'))"
proof -
  consider (mismatch) "verify" "\<not> key_is_encoded_from key (l_primary l)"
    | (pess) "\<not> (verify \<and> \<not> key_is_encoded_from key (l_primary l))" "\<not> (l_use_async_commit l \<and> \<not> force_sync)"
        "is_pessimistic_lock l"
    | (normal) "\<not> (verify \<and> \<not> key_is_encoded_from key (l_primary l))" "\<not> (l_use_async_commit l \<and> \<not> force_sync)"
        "\<not> is_pessimistic_lock l"
    using assms by (auto simp: check_txn_status_lock_exists_def split: if_splits)
  then show ?thesis
  proof cases
    case mismatch
    then show ?thesis using assms
      by (auto simp: check_txn_status_lock_exists_def unlock_key_def split: if_splits
          dest: missing_lock_status)
  next
    case pess
    obtain res txn\<^sub>1 where "check_txn_status_from_pessimistic_primary_lock txn reader key l current_ts resolving = Ok (res, txn\<^sub>1)"
      using assms pess by (auto simp: check_txn_status_lock_exists_def)
    with assms pess show ?thesis
      using expired_pessimistic [of txn reader key l current_ts resolving]
      by (cases res) (fastforce simp: check_txn_status_lock_exists_def
          dest: push_min_commit_ts_status split: option.splits)
  next
    case normal
    with assms show ?thesis
      by (auto simp: check_txn_status_lock_exists_def split: if_splits dest: push_min_commit_ts_status)
  qed
qed

lemma expired_store_ok:
  assumes "key_ok e raw"
    and "expired_store cm current_ts caller force_sync resolving verify rollback_if_not_exist e s raw e'"
  shows "rollback_store e s raw e' \<and> (\<forall>c. \<not> committed_at (write_at e (from_raw raw)) s c)"
proof -
  obtain l rl txn' where r: "lock_at e (from_raw raw) = Some l" "l_ts l = s" "apply_txn e txn' = Ok e'"
    "check_txn_status_lock_exists (txn_new s cm) (reader_at e s) (from_raw raw) l current_ts caller
       force_sync resolving verify rollback_if_not_exist = Ok ((TtlExpire, rl), txn')"
    using assms(2) unfolding expired_store_def by blast
  obtain pess where "rollback_lock (txn_new s cm) (reader_at e s) (from_raw raw) l pess True = Ok (rl, txn')"
    using expired_rolls_back [OF r(4)] by blast
  with rollback_lock_store [OF assms(1) r(1,2), of cm pess True] r(3) have "rollback_store e s raw e'"
    by auto
  then show ?thesis using assms(1) r(1,2) by (auto simp: key_ok_def)
qed

interpretation ex: rollback_action
    "expired_store cm current_ts caller force_sync resolving verify rollback_if_not_exist"
    for cm current_ts caller force_sync resolving verify rollback_if_not_exist
  by unfold_locales (use expired_store_ok in blast)+
end
