(* ===== verification/TxnSafety.thy ===== *)
theory TxnSafety
  imports TxnProtocol
begin

text \<open>
  What the protocol guarantees to its users: the outcomes of a commit, that commit and rollback
  exclude each other, that a rollback is invisible to readers and not forgotten, that a pushed lower
  bound holds, and what a snapshot read returns.
\<close>

section \<open>Commit as a function of the view\<close>

datatype commit_outcome =
    CommitWrite "write"
  | CommitUnlock
  | CommitDone
  | CommitMissing
  | CommitEarly TimeStamp

definition committed_write :: "TimeStamp \<Rightarrow> lock \<Rightarrow> TimeStamp \<Rightarrow> write_type \<Rightarrow> write" where
  "committed_write s l c tp =
     \<lparr> w_type = tp, w_start_ts = s, w_short_value = l_short_value l,
       w_has_overlapped_rollback = (c \<in> set (l_rollback_ts l)), w_gc_fence = None,
       w_last_change = l_last_change l, w_txn_source = l_txn_source l \<rparr>"

definition commit_spec ::
    "lock option \<Rightarrow> (TimeStamp \<Rightarrow> write option) \<Rightarrow> TimeStamp \<Rightarrow> TimeStamp \<Rightarrow> commit_outcome" where
  "commit_spec lo W s c =
     (case lo of
        Some l \<Rightarrow>
          if l_ts l = s
          then if c < l_min_commit_ts l then CommitEarly (l_min_commit_ts l)
               else case write_type_from_lock_type (l_type l) of
                 Some tp \<Rightarrow> CommitWrite (committed_write s l c tp)
               | None \<Rightarrow> CommitUnlock
          else if \<exists>c. committed_at W s c then CommitDone else CommitMissing
      | None \<Rightarrow> if \<exists>c. committed_at W s c then CommitDone else CommitMissing)"

lemma commit_write_of_spec:
  "write_type_from_lock_type (l_type l) = Some tp \<Longrightarrow> commit_write_of s l c = Ok (committed_write s l c tp)"
  by (simp add: commit_write_of_def committed_write_def write_new_def write_set_last_change_def
      write_set_txn_source_def set_overlapped_rollback_def Let_def)

lemma pessimistic_no_write: "write_type_from_lock_type (l_type l) = None \<longleftrightarrow> is_pessimistic_lock l"
  by (cases "l_type l") (auto simp: is_pessimistic_lock_def)

text \<open>The store after a successful commit.\<close>

definition commit_store ::
    "concurrency_manager \<Rightarrow> commit_role option \<Rightarrow> TimeStamp \<Rightarrow> engine \<Rightarrow> TimeStamp \<Rightarrow> bytes \<Rightarrow> engine \<Rightarrow> bool" where
  "commit_store cm role c e s raw e' \<longleftrightarrow>
     (\<exists>rl txn'. commit (txn_new s cm) (reader_at e s) (from_raw raw) c role = Ok (Some rl, txn') \<and>
       apply_txn e txn' = Ok e')"

lemma commit_write_ok:
  assumes ok: "key_ok e raw" and l: "lock_at e (from_raw raw) = Some l" "l_ts l = s" "l_min_commit_ts l \<le> c"
    and tp: "write_type_from_lock_type (l_type l) = Some tp"
  shows "\<exists>txn' e'. commit (txn_new s cm) (reader_at e s) (from_raw raw) c role =
      Ok (Some \<lparr> rl_start_ts = s, rl_commit_ts = c, rl_key = from_raw raw, rl_pessimistic = is_pessimistic_txn l \<rparr>, txn') \<and>
    apply_txn e txn' = Ok e' \<and> wf_store e' \<and>
    write_at e' = (write_at e)(from_raw raw := (write_at e (from_raw raw))(c \<mapsto> committed_write s l c tp)) \<and>
    lock_at e' = (lock_at e)(from_raw raw := None) \<and> data_at e' = data_at e"
proof -
  let ?w = "committed_write s l c tp"
  have "wf_lock l" by (rule key_ok_lock [OF ok l(1)])
  then have wf: "wf_write ?w" by (simp add: wf_lock_def wf_write_def committed_write_def)
  have np: "\<not> is_pessimistic_lock l" using tp pessimistic_no_write [of l] by simp
  obtain txn' where c: "commit (txn_new s cm) (reader_at e s) (from_raw raw) c role =
      Ok (Some \<lparr> rl_start_ts = s, rl_commit_ts = c, rl_key = from_raw raw, rl_pessimistic = is_pessimistic_txn l \<rparr>, txn')"
    "txn_adds (txn_new s cm) [PutWrite (from_raw raw) c ?w, DelLock (from_raw raw)] txn'"
    using commit_locked [OF key_ok_clean [OF ok, of s] _ _ l(3) np, of ?w "txn_new s cm" role] l
      commit_write_of_spec [OF tp] by auto
  obtain e' where "apply_txn e txn' = Ok e'" "wf_store e'"
    "write_at e' = ops_write [PutWrite (from_raw raw) c ?w, DelLock (from_raw raw)] (write_at e)"
    "lock_at e' = ops_lock [PutWrite (from_raw raw) c ?w, DelLock (from_raw raw)] (lock_at e)"
    "data_at e' = ops_data [PutWrite (from_raw raw) c ?w, DelLock (from_raw raw)] (data_at e)"
    by (rule apply_txn_ok [OF key_ok_wf [OF ok] _ c(2)]) (use wf in auto)
  with c(1) show ?thesis by auto
qed

lemma commit_unlock_ok:
  assumes ok: "key_ok e raw" and l: "lock_at e (from_raw raw) = Some l" "l_ts l = s" "l_min_commit_ts l \<le> c"
    and pess: "is_pessimistic_lock l"
  shows "\<exists>txn' e'. commit (txn_new s cm) (reader_at e s) (from_raw raw) c role =
      Ok (Some \<lparr> rl_start_ts = s, rl_commit_ts = 0, rl_key = from_raw raw, rl_pessimistic = is_pessimistic_txn l \<rparr>, txn') \<and>
    apply_txn e txn' = Ok e' \<and> wf_store e' \<and> write_at e' = write_at e \<and>
    lock_at e' = (lock_at e)(from_raw raw := None) \<and> data_at e' = data_at e"
proof -
  obtain txn' where u: "unlock_key (from_raw raw) (is_pessimistic_txn l) ts_zero (txn_new s cm) =
      (Some \<lparr> rl_start_ts = t_start_ts (txn_new s cm), rl_commit_ts = ts_zero, rl_key = from_raw raw,
              rl_pessimistic = is_pessimistic_txn l \<rparr>, txn')"
    "txn_adds (txn_new s cm) [DelLock (from_raw raw)] txn'" by (rule unlock_key_obtain)
  have "commit (txn_new s cm) (reader_at e s) (from_raw raw) c role =
      Ok (unlock_key (from_raw raw) (is_pessimistic_txn l) ts_zero (txn_new s cm))"
    using sr_load_lock_ok [OF key_ok_clean [OF ok, of s]] l pess by (simp add: commit_def not_less)
  moreover obtain e' where "apply_txn e txn' = Ok e'" "wf_store e'"
    "write_at e' = ops_write [DelLock (from_raw raw)] (write_at e)"
    "lock_at e' = ops_lock [DelLock (from_raw raw)] (lock_at e)"
    "data_at e' = ops_data [DelLock (from_raw raw)] (data_at e)"
    by (rule apply_txn_ok [OF key_ok_wf [OF ok] _ u(2)]) auto
  ultimately show ?thesis using u(1) by (auto simp: ts_zero_def)
qed

text \<open>A commit of a prewritten lock, as the store sees it.\<close>

lemma commit_store_cases:
  assumes ok: "key_ok e raw" and c: "commit_store cm role c e s raw e'"
  obtains (wrote) l tp where "lock_at e (from_raw raw) = Some l" "l_ts l = s" "l_min_commit_ts l \<le> c"
      "write_type_from_lock_type (l_type l) = Some tp" "wf_store e'"
      "write_at e' = (write_at e)(from_raw raw := (write_at e (from_raw raw))(c \<mapsto> committed_write s l c tp))"
      "lock_at e' = (lock_at e)(from_raw raw := None)" "data_at e' = data_at e"
    | (unlocked) l where "lock_at e (from_raw raw) = Some l" "l_ts l = s" "is_pessimistic_lock l" "wf_store e'"
      "write_at e' = write_at e" "lock_at e' = (lock_at e)(from_raw raw := None)" "data_at e' = data_at e"
proof -
  obtain rl txn' where r: "commit (txn_new s cm) (reader_at e s) (from_raw raw) c role = Ok (Some rl, txn')"
    "apply_txn e txn' = Ok e'" using c unfolding commit_store_def by blast
  note clean = key_ok_clean [OF ok, of s]
  obtain l where l: "lock_at e (from_raw raw) = Some l" "l_ts l = s"
  proof (rule ccontr)
    assume "\<not> thesis"
    then have "\<And>l. lock_at e (from_raw raw) = Some l \<Longrightarrow> l_ts l \<noteq> s" using that by blast
    then show False
      using commit_missing [OF clean, of "txn_new s cm" c role] r(1) by (auto split: if_splits)
  qed
  have early: "l_min_commit_ts l \<le> c"
    using commit_expired [OF clean, of l c "txn_new s cm" role] l r(1) by (cases "l_min_commit_ts l \<le> c") (auto simp: not_le)
  show thesis
  proof (cases "write_type_from_lock_type (l_type l)")
    case (Some tp)
    from commit_write_ok [OF ok l early Some, of cm role] r show thesis
      by (auto intro: wrote [OF l early Some])
  next
    case None
    then have "is_pessimistic_lock l" by (simp add: pessimistic_no_write)
    from commit_unlock_ok [OF ok l early this, of cm role] r show thesis
      by (auto intro: unlocked [OF l \<open>is_pessimistic_lock l\<close>])
  qed
qed

lemma write_type_not_rollback: "write_type_from_lock_type lt = Some tp \<Longrightarrow> tp \<noteq> WT_Rollback"
  by (cases lt) auto

lemma committed_write_simps [simp]:
  "w_type (committed_write s l c tp) = tp" "w_start_ts (committed_write s l c tp) = s"
  "w_short_value (committed_write s l c tp) = l_short_value l"
  "w_has_overlapped_rollback (committed_write s l c tp) \<longleftrightarrow> c \<in> set (l_rollback_ts l)"
  by (simp_all add: committed_write_def)

lemma no_recordD: "no_record W s \<Longrightarrow> W c = Some w \<Longrightarrow> w_start_ts w \<noteq> s"
  by (auto simp: no_record_def)

lemma commit_key_ok:
  assumes ok: "key_ok e raw" and fresh: "no_record (write_at e (from_raw raw)) s" and "s < c"
    and l: "lock_at e (from_raw raw) = Some l" "l_ts l = s"
    and tp: "tp \<noteq> WT_Rollback"
    and e': "wf_store e'" "lock_at e' = (lock_at e)(from_raw raw := None)"
      "write_at e' = (write_at e)(from_raw raw := (write_at e (from_raw raw))(c \<mapsto> committed_write s l c tp))"
  shows "key_ok e' raw"
proof -
  let ?W = "write_at e (from_raw raw)"
  have inv: "key_inv ?W" by (rule key_ok_inv [OF ok])
  have "key_inv (?W(c \<mapsto> committed_write s l c tp))"
    unfolding key_inv_def one_record_def
  proof (intro conjI allI impI)
    fix c\<^sub>1 w\<^sub>1
    assume "(?W(c \<mapsto> committed_write s l c tp)) c\<^sub>1 = Some w\<^sub>1"
    then show "if w_type w\<^sub>1 = WT_Rollback then w_start_ts w\<^sub>1 = c\<^sub>1 else w_start_ts w\<^sub>1 < c\<^sub>1"
      using key_invD [OF inv, of c\<^sub>1 w\<^sub>1] tp \<open>s < c\<close> by (auto split: if_splits)
  next
    fix c\<^sub>1 c\<^sub>2 w\<^sub>1 w\<^sub>2
    assume "(?W(c \<mapsto> committed_write s l c tp)) c\<^sub>1 = Some w\<^sub>1"
      "(?W(c \<mapsto> committed_write s l c tp)) c\<^sub>2 = Some w\<^sub>2" "w_start_ts w\<^sub>1 = w_start_ts w\<^sub>2"
    then show "c\<^sub>1 = c\<^sub>2"
      using key_inv_one_record [OF inv] no_recordD [OF fresh]
      by (cases "c\<^sub>1 = c"; cases "c\<^sub>2 = c") (fastforce simp: one_record_def)+
  qed
  with e' show ?thesis by (simp add: key_ok_def)
qed
section \<open>Pushed lower bounds\<close>

lemma ts_next_greater:
  assumes "\<not> is_max ts"
  shows "\<exists>t. ts_next ts = (Ok t :: ('e, _) result) \<and> ts < t"
proof -
  have "ts \<noteq> - 1" using assms by (simp add: is_max_def ts_max_def)
  then have "1 + ts \<noteq> 0" by (metis add.commute eq_neg_iff_add_eq_0)
  then have "unat (1 + ts) = Suc (unat ts)" by (rule unatSuc)
  moreover have "ts < ts_max" using \<open>ts \<noteq> - 1\<close> by (simp add: ts_max_def word_order.not_eq_extremum)
  ultimately show ?thesis by (simp add: ts_next_def word_less_nat_alt add.commute)
qed

lemma push_min_commit_ts_ok:
  assumes "push_min_commit_ts txn (from_raw raw) l current_ts caller = Ok ((Uncommitted l' True, rl), txn')"
    and caller: "\<not> is_zero caller" "\<not> is_max caller"
  shows "caller < l_min_commit_ts l' \<and>
    (l' = l \<and> txn' = txn \<or> (\<exists>m. l' = l\<lparr>l_min_commit_ts := m\<rparr>) \<and> txn_adds txn [PutLock (from_raw raw) l'] txn')"
proof (cases "\<not> is_zero (l_min_commit_ts l) \<and> caller \<ge> l_min_commit_ts l")
  case True
  obtain t where t: "ts_next caller = (Ok t :: TimeStamp mvcc_result)" "caller < t"
    using ts_next_greater [OF caller(2)] by blast
  define l\<^sub>1 where "l\<^sub>1 = l\<lparr>l_min_commit_ts := (if t < current_ts then current_ts else t)\<rparr>"
  obtain txn\<^sub>1 where "put_lock (from_raw raw) l\<^sub>1 False txn = Ok txn\<^sub>1" "txn_adds txn [PutLock (from_raw raw) l\<^sub>1] txn\<^sub>1"
    using put_lock_adds [OF refl] by blast
  moreover have "caller < l_min_commit_ts l\<^sub>1" using t(2) by (auto simp: l\<^sub>1_def)
  ultimately show ?thesis using assms True t(1)
    by (auto simp: push_min_commit_ts_def Let_def l\<^sub>1_def)
next
  case False
  with assms show ?thesis by (auto simp: push_min_commit_ts_def Let_def)
qed

lemma pessimistic_primary_result:
  assumes "check_txn_status_from_pessimistic_primary_lock txn reader key l current_ts resolving = Ok (res, txn')"
  shows "(\<exists>st rl. res = (Some st, rl) \<and> (\<forall>l b. st \<noteq> Uncommitted l b)) \<or> res = (None, None) \<and> txn' = txn"
proof -
  obtain det where det: "(if is_pessimistic_lock_with_conflict l then check_determined_txn_status reader key else Ok None) =
      Ok det" "is_pessimistic_lock l"
    using assms by (fastforce simp: check_txn_status_from_pessimistic_primary_lock_def split: if_splits)
  have "det = None \<or> (\<exists>st. det = Some st \<and> (\<forall>l b. st \<noteq> Uncommitted l b))"
    using det(1) determined_status [of reader key] by (cases det) (auto split: if_splits)
  then show ?thesis
    using assms det
    by (auto simp: check_txn_status_from_pessimistic_primary_lock_def unlock_key_def split: if_splits)
qed

lemma uncommitted_pushed:
  assumes "check_txn_status_lock_exists txn reader key l current_ts caller force_sync resolving verify
      rollback_if_not_exist = Ok ((Uncommitted l' True, rl), txn')"
  shows "push_min_commit_ts txn key l current_ts caller = Ok ((Uncommitted l' True, rl), txn')"
proof -
  consider (mismatch) "verify" "\<not> key_is_encoded_from key (l_primary l)"
    | (pess) "\<not> (verify \<and> \<not> key_is_encoded_from key (l_primary l))" "\<not> (l_use_async_commit l \<and> \<not> force_sync)"
        "is_pessimistic_lock l"
    | (normal) "\<not> (verify \<and> \<not> key_is_encoded_from key (l_primary l))" "\<not> (l_use_async_commit l \<and> \<not> force_sync)"
        "\<not> is_pessimistic_lock l"
    using assms by (auto simp: check_txn_status_lock_exists_def split: if_splits)
  then show ?thesis
  proof cases
    case mismatch
    then show ?thesis using assms
      by (auto simp: check_txn_status_lock_exists_def unlock_key_def split: if_splits
          dest: missing_lock_status)
  next
    case pess
    obtain res txn\<^sub>1 where res: "check_txn_status_from_pessimistic_primary_lock txn reader key l current_ts resolving = Ok (res, txn\<^sub>1)"
      using assms pess by (auto simp: check_txn_status_lock_exists_def)
    with assms pess show ?thesis using pessimistic_primary_result [OF res]
      by (auto simp: check_txn_status_lock_exists_def split: option.splits)
  next
    case normal
    with assms show ?thesis by (auto simp: check_txn_status_lock_exists_def split: if_splits)
  qed
qed

lemma pushed_lock:
  assumes ok: "key_ok e raw" and l: "lock_at e (from_raw raw) = Some l"
    and push: "check_txn_status_lock_exists (txn_new (l_ts l) cm) (reader_at e (l_ts l)) (from_raw raw) l current_ts
      caller force_sync resolving verify rollback_if_not_exist = Ok ((Uncommitted l' True, rl), txn')"
    and caller: "\<not> is_zero caller" "\<not> is_max caller"
  shows "\<exists>e'. apply_txn e txn' = Ok e' \<and> key_ok e' raw \<and> write_at e' = write_at e \<and> data_at e' = data_at e \<and>
    lock_at e' = (lock_at e)(from_raw raw := Some l') \<and> l_ts l' = l_ts l \<and> caller < l_min_commit_ts l'"
proof -
  let ?txn = "txn_new (l_ts l) cm"
  have "push_min_commit_ts ?txn (from_raw raw) l current_ts caller = Ok ((Uncommitted l' True, rl), txn')"
    by (rule uncommitted_pushed [OF push])
  from push_min_commit_ts_ok [OF this caller]
  obtain ops where ops: "txn_adds ?txn ops txn'" "ops = [] \<and> l' = l \<or> ops = [PutLock (from_raw raw) l']"
    and l': "caller < l_min_commit_ts l'" "l_ts l' = l_ts l" "l' = l \<or> (\<exists>m. l' = l\<lparr>l_min_commit_ts := m\<rparr>)"
    by (auto intro: that [of "[]"] that [of "[PutLock (from_raw raw) l']"])
  have "wf_lock l'" using key_ok_lock [OF ok l] l'(3) by (auto simp: wf_lock_def)
  obtain e' where e': "apply_txn e txn' = Ok e'" "wf_store e'" "write_at e' = ops_write ops (write_at e)"
    "lock_at e' = ops_lock ops (lock_at e)" "data_at e' = ops_data ops (data_at e)"
    by (rule apply_txn_ok [OF key_ok_wf [OF ok] _ ops(1)]) (use ops(2) \<open>wf_lock l'\<close> in auto)
  have "write_at e' = write_at e" "data_at e' = data_at e" "lock_at e' = (lock_at e)(from_raw raw := Some l')"
    using e'(3-5) ops(2) l by auto
  with e'(1,2) l'(1,2) ok l show ?thesis by (auto simp: key_ok_def)
qed
section \<open>A protected rollback is not overwritten\<close>

lemma cleanup_marks:
  assumes ok: "key_ok e raw" and l: "lock_at e (from_raw raw) = Some l" "l_ts l \<noteq> s"
    and fresh: "no_record (write_at e (from_raw raw)) s" "write_at e (from_raw raw) s = None"
    and act: "cleanup_store cm current_ts True e s raw e'"
  shows "rollback_recorded (write_at e' (from_raw raw)) s \<and>
    lock_at e' (from_raw raw) = Some (remember_rollback ProtectedRollback s l)"
proof -
  let ?key = "from_raw raw"
  obtain rl txn' where r: "cleanup (txn_new s cm) (reader_at e s) ?key current_ts True = Ok (rl, txn')"
    "apply_txn e txn' = Ok e'" "rollback_room (lock_at e ?key)"
    using act unfolding cleanup_store_def by blast
  have uncommitted: "\<not> committed_at (write_at e ?key) s c" for c
    using fresh(1) by (auto simp: committed_at_def no_record_def)
  have missing: "\<forall>l. lock_at e ?key = Some l \<longrightarrow> l_ts l \<noteq> s" using l by auto
  obtain status txn\<^sub>1 e\<^sub>1 where m: "check_txn_status_missing_lock (txn_new s cm) (reader_at e s) ?key
      (lock_at e ?key) ProtectedRollback False = Ok (status, txn\<^sub>1)"
    "status \<in> {RolledBack, LockNotExist}" "apply_txn e txn\<^sub>1 = Ok e\<^sub>1" "rollback_store e s raw e\<^sub>1"
    "rollback_recorded (write_at e\<^sub>1 ?key) s"
    "lock_at e\<^sub>1 ?key = (if status = LockNotExist \<and> write_at e ?key s = None
       then map_option (remember_rollback ProtectedRollback s) (lock_at e ?key) else lock_at e ?key)"
    using missing_lock_store [OF ok refl uncommitted missing_lock_action.distinct(5) r(3) missing, of cm] by blast
  have "cleanup (txn_new s cm) (reader_at e s) ?key current_ts True = Ok (None, txn\<^sub>1)"
    using sr_load_lock_ok [OF key_ok_clean [OF ok, of s]] l m(1,2)
    by (auto simp: cleanup_def cleanup_missing_def rollback_protect_def)
  then have "e\<^sub>1 = e'" using r m(3) by simp
  moreover have "status = LockNotExist"
  proof -
    have "status \<noteq> RolledBack" if rec: "sr_get_txn_commit_record (reader_at e s) ?key = Ok rec"
      "commit_record_ok (write_at e ?key) s rec" for rec
      using m(1) rec fresh
      by (cases rec) (auto simp: check_txn_status_missing_lock_def dest: no_recordD split: if_splits)
    then show ?thesis using m(2) sr_commit_record_ok [OF key_ok_clean [OF ok, of s]] by auto
  qed
  ultimately show ?thesis using m(5,6) l fresh(2) by simp
qed

section \<open>What a reader finds\<close>

text \<open>Values that do not fit the record are stored.\<close>

definition data_complete :: "engine \<Rightarrow> bytes \<Rightarrow> bool" where
  "data_complete e raw \<longleftrightarrow>
     (\<forall>c w. write_at e (from_raw raw) c = Some w \<longrightarrow> w_type w = WT_Put \<longrightarrow> w_short_value w = None \<longrightarrow>
       data_at e (from_raw raw) (w_start_ts w) \<noteq> None)"

lemma get_value_ok: "get_value r key ts = data_at (r_engine r) key ts"
  by (simp add: get_value_def data_at_def)

lemma reads_unique: "reads e raw ts v \<Longrightarrow> reads e raw ts v' \<Longrightarrow> v = v'"
  unfolding reads_def by (clarify, drule (1) latest_data_unique) (auto split: option.splits)

lemma reader_get_ok:
  assumes "wf_store (r_engine r)" "W = write_at (r_engine r) (from_raw raw)"
    and "last_change_ok W" "W 0 = None" "fence_free W lim ts" "data_complete (r_engine r) raw"
  shows "\<exists>res. reader_get r (from_raw raw) ts lim = Ok res \<and> (\<forall>v. res = Some v \<longleftrightarrow> reads (r_engine r) raw ts v)"
proof -
  obtain res where res: "get_write_with_commit_ts r (from_raw raw) ts lim = Ok res" "visible_put W ts res"
    by (rule get_write_with_commit_ts_ok [OF assms(1-5)])
  show ?thesis
  proof (cases res)
    case None
    then have "\<not> reads (r_engine r) raw ts v" for v
      using res(2) assms(2) by (auto simp: reads_def visible_put_def)
    with None res(1) show ?thesis by (simp add: reader_get_def get_write_def)
  next
    case (Some wc)
    then obtain w c where wc: "res = Some (w, c)" "latest_data W ts c w" "w_type w = WT_Put"
      using res(2) by (cases wc) (auto simp: visible_put_def)
    then have "W c = Some w" by (simp add: latest_data_def)
    then obtain v where v: "load_data r (from_raw raw) w = Ok v" "reads (r_engine r) raw ts v"
      using assms(2,6) wc unfolding reads_def data_complete_def
      by (cases "w_short_value w") (fastforce simp: load_data_def get_value_ok)+
    then have "reader_get r (from_raw raw) ts lim = Ok (Some v)"
      using res(1) wc(1) by (simp add: reader_get_def get_write_def)
    with v(2) show ?thesis using reads_unique by auto
  qed
qed
section \<open>Reads after a commit\<close>

definition lock_value :: "engine \<Rightarrow> bytes \<Rightarrow> lock \<Rightarrow> Value \<Rightarrow> bool" where
  "lock_value e raw l v \<longleftrightarrow>
     (case l_short_value l of Some v' \<Rightarrow> v = v' | None \<Rightarrow> data_at e (from_raw raw) (l_ts l) = Some v)"

definition changes :: "lock \<Rightarrow> bool" where
  "changes l \<longleftrightarrow> l_type l = LT_Put \<or> l_type l = LT_Delete"

definition newest_change :: "(TimeStamp \<Rightarrow> write option) \<Rightarrow> TimeStamp \<Rightarrow> TimeStamp \<Rightarrow> bool" where
  "newest_change W c ts \<longleftrightarrow> c \<le> ts \<and> (\<forall>c' w'. c < c' \<longrightarrow> c' \<le> ts \<longrightarrow> W c' = Some w' \<longrightarrow> \<not> is_data w')"

lemma latest_data_upd:
  assumes "\<forall>w'. W c = Some w' \<longrightarrow> \<not> is_data w'"
  shows "latest_data (W(c \<mapsto> w)) ts c' w' \<longleftrightarrow>
    (if is_data w \<and> newest_change W c ts then c' = c \<and> w' = w else latest_data W ts c' w')"
proof (cases "is_data w \<and> newest_change W c ts")
  case True
  then have "latest_data (W(c \<mapsto> w)) ts c w" by (auto simp: latest_data_def newest_change_def)
  with True show ?thesis using latest_data_unique by metis
next
  case False
  then consider "\<not> is_data w" | "ts < c"
    | c\<^sub>1 w\<^sub>1 where "c < c\<^sub>1" "c\<^sub>1 \<le> ts" "W c\<^sub>1 = Some w\<^sub>1" "is_data w\<^sub>1"
    by (auto simp: newest_change_def not_le)
  then have "latest_data (W(c \<mapsto> w)) ts c' w' \<longleftrightarrow> latest_data W ts c' w'"
  proof cases
    case 1
    then show ?thesis using assms unfolding latest_data_def by (metis fun_upd_apply option.inject)
  next
    case 2
    then show ?thesis by (auto simp: latest_data_def)
  next
    case 3
    have "\<not> c' \<le> c" if "latest_data (W(c \<mapsto> w)) ts c' w' \<or> latest_data W ts c' w'"
    proof
      assume "c' \<le> c"
      then have "c' < c\<^sub>1" using 3(1) by simp
      with that 3 show False by (auto simp: latest_data_def)
    qed
    moreover have "latest_data (W(c \<mapsto> w)) ts c' w' \<longleftrightarrow> latest_data W ts c' w'" if "c < c'"
      using that by (auto simp: latest_data_def)
    ultimately show ?thesis by (meson not_le)
  qed
  with False show ?thesis by auto
qed

lemma reads_after_commit:
  assumes "write_type_from_lock_type (l_type l) = Some tp" "l_ts l = s"
    and "write_at e' = (write_at e)(from_raw raw := (write_at e (from_raw raw))(c \<mapsto> committed_write s l c tp))"
    and "data_at e' = data_at e" "\<forall>w. write_at e (from_raw raw) c = Some w \<longrightarrow> \<not> is_data w"
  shows "reads e' raw ts v \<longleftrightarrow>
    (if changes l \<and> newest_change (write_at e (from_raw raw)) c ts
     then l_type l = LT_Put \<and> lock_value e raw l v else reads e raw ts v)"
proof -
  let ?W = "write_at e (from_raw raw)" and ?w = "committed_write s l c tp"
  have ch: "is_data ?w \<longleftrightarrow> changes l" "tp = WT_Put \<longleftrightarrow> l_type l = LT_Put"
    using assms(1) by (cases "l_type l"; auto simp: is_data_def changes_def)+
  have W': "write_at e' (from_raw raw) = ?W(c \<mapsto> ?w)" using assms(3) by simp
  note latest = latest_data_upd [of ?W c ?w, OF assms(5), unfolded ch(1)]
  show ?thesis
  proof (cases "changes l \<and> newest_change ?W c ts")
    case True
    then show ?thesis
      unfolding reads_def W' assms(4) latest using ch(2) assms(2) by (auto simp: lock_value_def split: option.splits)
  next
    case False
    then show ?thesis unfolding reads_def W' assms(4) latest by (simp only: if_False)
  qed
qed

lemma reads_other_key:
  assumes "write_at e' = (write_at e)(from_raw raw := W')" "data_at e' = data_at e" "raw' \<noteq> raw"
  shows "reads e' raw' ts v \<longleftrightarrow> reads e raw' ts v"
  using assms(1,3) unfolding reads_def assms(2) by simp

text \<open>A commit against its specification, for the property and for the commands.\<close>

lemma commit_by_spec:
  assumes "key_ok e raw"
  shows "case commit_spec (lock_at e (from_raw raw)) (write_at e (from_raw raw)) s c of
      CommitWrite w \<Rightarrow> \<exists>rl txn' e'. commit (txn_new s cm) (reader_at e s) (from_raw raw) c role = Ok (Some rl, txn') \<and>
        rl_commit_ts rl = c \<and> apply_txn e txn' = Ok e' \<and> wf_store e' \<and>
        write_at e' = (write_at e)(from_raw raw := (write_at e (from_raw raw))(c \<mapsto> w)) \<and>
        lock_at e' = (lock_at e)(from_raw raw := None) \<and> data_at e' = data_at e
    | CommitUnlock \<Rightarrow> \<exists>rl txn' e'. commit (txn_new s cm) (reader_at e s) (from_raw raw) c role = Ok (Some rl, txn') \<and>
        rl_commit_ts rl = 0 \<and> apply_txn e txn' = Ok e' \<and> wf_store e' \<and> write_at e' = write_at e \<and>
        lock_at e' = (lock_at e)(from_raw raw := None) \<and> data_at e' = data_at e
    | CommitDone \<Rightarrow> commit (txn_new s cm) (reader_at e s) (from_raw raw) c role = Ok (None, txn_new s cm)
    | CommitMissing \<Rightarrow> \<exists>info. commit (txn_new s cm) (reader_at e s) (from_raw raw) c role =
        Err (TxnLockNotFound s c raw info)
    | CommitEarly m \<Rightarrow> \<exists>info. commit (txn_new s cm) (reader_at e s) (from_raw raw) c role =
        Err (CommitTsExpired s c raw m info)"
proof (cases "\<exists>l. lock_at e (from_raw raw) = Some l \<and> l_ts l = s")
  case True
  then obtain l where l: "lock_at e (from_raw raw) = Some l" "l_ts l = s" by blast
  show ?thesis
  proof (cases "c < l_min_commit_ts l")
    case True
    then show ?thesis
      using l commit_expired [OF key_ok_clean [OF assms, of s], of l c "txn_new s cm" role]
      by (simp add: commit_spec_def)
  next
    case False
    then have c: "l_min_commit_ts l \<le> c" by simp
    show ?thesis
    proof (cases "write_type_from_lock_type (l_type l)")
      case None
      with l c show ?thesis
        using commit_unlock_ok [OF assms l c, of cm role] pessimistic_no_write [of l]
        by (fastforce simp: commit_spec_def not_less)
    next
      case (Some tp)
      with l c show ?thesis
        using commit_write_ok [OF assms l c Some, of cm role] by (fastforce simp: commit_spec_def not_less)
    qed
  qed
next
  case False
  then show ?thesis
    using commit_missing [OF key_ok_clean [OF assms, of s], of "txn_new s cm" c role]
    by (cases "lock_at e (from_raw raw)") (auto simp: commit_spec_def split: if_splits)
qed

section \<open>Properties of the commit protocol\<close>

text \<open>
  C1: A commit does what its specification on the view of the store says, on every branch: it turns a
  prewritten lock into a write record at the commit timestamp, which is marked when a protected
  rollback is remembered in the lock; it removes a pessimistic lock; it succeeds without effect when
  the transaction has committed before; it fails when the transaction was rolled back or never
  locked the key, and when the commit timestamp is below the lock's lower bound. It never panics.
\<close>

theorem commit_refines:
  assumes "key_ok e raw"
  shows "case commit_spec (lock_at e (from_raw raw)) (write_at e (from_raw raw)) s c of
      CommitWrite w \<Rightarrow> \<exists>rl txn' e'. commit (txn_new s cm) (reader_at e s) (from_raw raw) c role = Ok (Some rl, txn') \<and>
        rl_commit_ts rl = c \<and> apply_txn e txn' = Ok e' \<and> wf_store e' \<and>
        write_at e' = (write_at e)(from_raw raw := (write_at e (from_raw raw))(c \<mapsto> w)) \<and>
        lock_at e' = (lock_at e)(from_raw raw := None) \<and> data_at e' = data_at e
    | CommitUnlock \<Rightarrow> \<exists>rl txn' e'. commit (txn_new s cm) (reader_at e s) (from_raw raw) c role = Ok (Some rl, txn') \<and>
        rl_commit_ts rl = 0 \<and> apply_txn e txn' = Ok e' \<and> wf_store e' \<and> write_at e' = write_at e \<and>
        lock_at e' = (lock_at e)(from_raw raw := None) \<and> data_at e' = data_at e
    | CommitDone \<Rightarrow> commit (txn_new s cm) (reader_at e s) (from_raw raw) c role = Ok (None, txn_new s cm)
    | CommitMissing \<Rightarrow> \<exists>info. commit (txn_new s cm) (reader_at e s) (from_raw raw) c role =
        Err (TxnLockNotFound s c raw info)
    | CommitEarly m \<Rightarrow> \<exists>info. commit (txn_new s cm) (reader_at e s) (from_raw raw) c role =
        Err (CommitTsExpired s c raw m info)"
  by (rule commit_by_spec [OF assms])

text \<open>A store with a prewritten lock of transaction 5 on key 1, written at 3 before.\<close>

definition demo_lock :: lock where
  "demo_lock = lock_new LT_Put [1] 5 10 (Some [7]) 0 1 6 False"

definition demo_cm :: concurrency_manager where
  "demo_cm = cm_new 1 2 ActionError 0 0"

definition demo_store :: engine where
  "demo_store = store_of [PutWrite (from_raw [1]) 3 (write_new WT_Put 2 (Some [9])), PutLock (from_raw [1]) demo_lock]"

lemma demo_wf: "wf_lock demo_lock" "wf_write (write_new WT_Put 2 (Some [9]))"
  by (simp_all add: demo_lock_def lock_new_def wf_lock_def write_new_def wf_write_def is_short_value_def
      SHORT_VALUE_MAX_LEN_def wf_last_change_def ISIZE_MAX_def)

lemma demo_view:
  "wf_store demo_store" "write_at demo_store (from_raw [1]) = [3 \<mapsto> write_new WT_Put 2 (Some [9])]"
  "lock_at demo_store (from_raw [1]) = Some demo_lock" "data_at demo_store = (\<lambda>_ _. None)"
proof -
  have wf: "list_all wf_op [PutWrite (from_raw [1]) 3 (write_new WT_Put 2 (Some [9])), PutLock (from_raw [1]) demo_lock]"
    using demo_wf by auto
  show "wf_store demo_store" "write_at demo_store (from_raw [1]) = [3 \<mapsto> write_new WT_Put 2 (Some [9])]"
    "lock_at demo_store (from_raw [1]) = Some demo_lock" "data_at demo_store = (\<lambda>_ _. None)"
    unfolding demo_store_def using store_of_view [OF wf] by simp_all
qed

lemma demo_ok: "key_ok demo_store [1]"
  by (simp add: key_ok_def demo_view key_inv_def one_record_def committed_at_def write_new_def
      demo_lock_def lock_new_def)

theorem commit_refines_witness:
  "\<exists>rl txn' e'. commit (txn_new 5 demo_cm) (reader_at demo_store 5) (from_raw [1]) 8 None = Ok (Some rl, txn') \<and>
     apply_txn demo_store txn' = Ok e' \<and>
     write_at e' (from_raw [1]) 8 = Some (write_new WT_Put 5 (Some [7])) \<and> lock_at e' (from_raw [1]) = None"
  using commit_refines [OF demo_ok, where s = 5 and c = 8 and cm = demo_cm and role = None]
  by (auto simp: commit_spec_def demo_view demo_lock_def lock_new_def committed_write_def write_new_def)


lemma demo_room: "rollback_room (lock_at demo_store (from_raw [1]))"
  by (simp add: demo_view rollback_room_def demo_lock_def lock_new_def ISIZE_MAX_def)

lemma demo_cleanup: "\<exists>e'. cleanup_store demo_cm 0 False demo_store 5 [1] e'"
proof -
  have "\<not> committed_at (write_at demo_store (from_raw [1])) 5 c" for c
    by (simp add: demo_view committed_at_def write_new_def)
  from cleanup_rolls_back [OF demo_ok demo_room this, of 0 demo_cm False] show ?thesis
    by (auto simp: cleanup_store_def demo_room is_zero_def)
qed




text \<open>
  C4: Once a prewritten transaction has committed, a cleanup reports the commit and changes nothing,
  and a second commit succeeds without effect, whatever timestamp it names.
\<close>

theorem commit_excludes_rollback:
  assumes "key_ok e raw" "no_record (write_at e (from_raw raw)) s" "s < c"
    and "lock_at e (from_raw raw) = Some l" "\<not> is_pessimistic_lock l"
    and "commit_store cm role c e s raw e'"
  shows "cleanup txn (reader_at e' s) (from_raw raw) current_ts protect = Err (Committed s c raw) \<and>
    commit txn (reader_at e' s) (from_raw raw) c' role' = Ok (None, txn)"
  using assms(1,6)
proof (cases rule: commit_store_cases [consumes 2, case_names wrote unlocked])
  case (wrote l\<^sub>1 tp)
  have ok: "key_ok e' raw"
    by (rule commit_key_ok [OF assms(1-3) wrote(1,2) write_type_not_rollback [OF wrote(4)] wrote(5,7,6)])
  have committed: "committed_at (write_at e' (from_raw raw)) s c"
    using wrote(6) write_type_not_rollback [OF wrote(4)] by (simp add: committed_at_def)
  have "lock_at e' (from_raw raw) = None" using wrote(7) by simp
  then show ?thesis
    using cleanup_committed [OF ok committed] committed
      commit_missing [OF key_ok_clean [OF ok, of s], of txn c' role'] by (auto split: if_splits)
next
  case (unlocked l\<^sub>1)
  then show ?thesis using assms(4,5) by simp
qed

theorem commit_excludes_rollback_witness:
  "\<exists>e'. commit_store demo_cm None 8 demo_store 5 [1] e' \<and>
     cleanup (txn_new 5 demo_cm) (reader_at e' 5) (from_raw [1]) 0 True = Err (Committed 5 8 [1])"
proof -
  have tp: "write_type_from_lock_type (l_type demo_lock) = Some WT_Put" "l_ts demo_lock = 5"
    "l_min_commit_ts demo_lock \<le> 8" "\<not> is_pessimistic_lock demo_lock"
    by (simp_all add: demo_lock_def lock_new_def is_pessimistic_lock_def)
  from commit_write_ok [OF demo_ok demo_view(3) tp(2,3,1), of demo_cm None]
  obtain e' where e': "commit_store demo_cm None 8 demo_store 5 [1] e'" by (auto simp: commit_store_def)
  have "no_record (write_at demo_store (from_raw [1])) 5"
    by (simp add: demo_view no_record_def write_new_def)
  from commit_excludes_rollback [OF demo_ok this _ demo_view(3) tp(4) e'] e' show ?thesis by auto
qed
text \<open>
  C5: A protected rollback of a transaction on a key locked by another, asynchronously committing
  transaction is not lost when that transaction then commits, even at the very timestamp the rollback
  record stands at: the commit record then carries the mark.
\<close>

theorem protected_rollback_survives:
  assumes "key_ok e raw" "lock_at e (from_raw raw) = Some l" "l_ts l \<noteq> s"
    and "no_record (write_at e (from_raw raw)) s" "write_at e (from_raw raw) s = None"
    and "cleanup_store cm current_ts True e s raw e'"
    and "commit_store cm' role c e' (l_ts l) raw e''" "c = s \<longrightarrow> l_use_async_commit l"
  shows "rollback_recorded (write_at e'' (from_raw raw)) s"
proof -
  let ?l' = "remember_rollback ProtectedRollback s l"
  have rec: "rollback_recorded (write_at e' (from_raw raw)) s" and l': "lock_at e' (from_raw raw) = Some ?l'"
    using cleanup_marks [OF assms(1-6)] by auto
  have "key_ok e' raw" by (rule cl.act_key_ok [OF assms(1,6)])
  from this assms(7) show ?thesis
  proof (cases rule: commit_store_cases [consumes 2, case_names wrote unlocked])
    case (wrote l\<^sub>1 tp)
    then have l\<^sub>1: "l\<^sub>1 = ?l'" using l' by simp
    show ?thesis
    proof (cases "c = s")
      case True
      then have "c \<in> set (l_rollback_ts l\<^sub>1)"
        using assms(8) wrote(3) l\<^sub>1 by (auto simp: remember_rollback_def split: if_splits)
      with True wrote(6) show ?thesis by (simp add: rollback_recorded_def)
    next
      case False
      with rec wrote(6) show ?thesis by (simp add: rollback_recorded_def)
    qed
  next
    case unlocked
    with rec show ?thesis by simp
  qed
qed

definition async_lock :: lock where
  "async_lock = (lock_new LT_Put [1] 5 10 (Some [7]) 0 1 6 False)\<lparr>l_use_async_commit := True\<rparr>"

definition async_store :: engine where
  "async_store = store_of [PutLock (from_raw [1]) async_lock]"

lemma async_view:
  "wf_store async_store" "write_at async_store = (\<lambda>_ _. None)" "lock_at async_store (from_raw [1]) = Some async_lock"
proof -
  have wf: "list_all wf_op [PutLock (from_raw [1]) async_lock]"
    by (auto simp: async_lock_def lock_new_def wf_lock_def is_short_value_def SHORT_VALUE_MAX_LEN_def
        wf_last_change_def ISIZE_MAX_def)
  show "wf_store async_store" "write_at async_store = (\<lambda>_ _. None)"
    "lock_at async_store (from_raw [1]) = Some async_lock"
    unfolding async_store_def using store_of_view [OF wf] by simp_all
qed

theorem protected_rollback_survives_witness:
  "\<exists>e' e''. cleanup_store demo_cm 0 True async_store 8 [1] e' \<and> commit_store demo_cm None 8 e' 5 [1] e'' \<and>
     rollback_recorded (write_at e'' (from_raw [1])) 8"
proof -
  have l: "l_ts async_lock = 5" "l_min_commit_ts async_lock = 6" "l_use_async_commit async_lock"
    "l_type async_lock = LT_Put" by (simp_all add: async_lock_def lock_new_def)
  have ok: "key_ok async_store [1]"
    by (simp add: key_ok_def async_view key_inv_def one_record_def committed_at_def)
  have room: "rollback_room (lock_at async_store (from_raw [1]))"
    by (simp add: async_view rollback_room_def async_lock_def lock_new_def ISIZE_MAX_def)
  have fresh: "no_record (write_at async_store (from_raw [1])) 8" "write_at async_store (from_raw [1]) 8 = None"
    by (simp_all add: async_view no_record_def)
  obtain e' where e': "cleanup_store demo_cm 0 True async_store 8 [1] e'"
    using cleanup_rolls_back [OF ok room, of 8 0 demo_cm True] room l
    by (auto simp: cleanup_store_def async_view committed_at_def)
  have l8: "l_ts async_lock \<noteq> 8" using l by simp
  have ok': "key_ok e' [1]" by (rule cl.act_key_ok [OF ok e'])
  have lock': "lock_at e' (from_raw [1]) = Some (remember_rollback ProtectedRollback 8 async_lock)"
    using cleanup_marks [OF ok async_view(3) l8 fresh e'] by blast
  obtain e'' where e'': "commit_store demo_cm None 8 e' (l_ts async_lock) [1] e''"
    using commit_write_ok [OF ok' lock', of 5 8 WT_Put demo_cm None] l
    by (auto simp: commit_store_def remember_rollback_def)
  from protected_rollback_survives [OF ok async_view(3) l8 fresh e' e''] e' e'' l show ?thesis by auto
qed

text \<open>
  C6: When the check of a live lock reports that its lower bound was pushed above the caller's
  timestamp, the transaction can no longer commit at or below that timestamp: the reader may ignore
  the lock.
\<close>

theorem pushed_commit_refused:
  assumes "key_ok e raw" "lock_at e (from_raw raw) = Some l"
    and "check_txn_status_lock_exists (txn_new (l_ts l) cm) (reader_at e (l_ts l)) (from_raw raw) l current_ts
      caller force_sync resolving verify rollback_if_not_exist = Ok ((Uncommitted l' True, rl), txn')"
    and "\<not> is_zero caller" "\<not> is_max caller" "c \<le> caller"
  shows "\<exists>e' info. apply_txn e txn' = Ok e' \<and> key_ok e' raw \<and> write_at e' = write_at e \<and> data_at e' = data_at e \<and>
    commit txn (reader_at e' (l_ts l)) (from_raw raw) c role =
      Err (CommitTsExpired (l_ts l) c raw (l_min_commit_ts l') info)"
proof -
  obtain e' where e': "apply_txn e txn' = Ok e'" "key_ok e' raw" "write_at e' = write_at e" "data_at e' = data_at e"
    "lock_at e' = (lock_at e)(from_raw raw := Some l')" "l_ts l' = l_ts l" "caller < l_min_commit_ts l'"
    using pushed_lock [OF assms(1-5)] by blast
  then have "\<exists>info. commit txn (reader_at e' (l_ts l)) (from_raw raw) c role =
      Err (CommitTsExpired (l_ts l) c raw (l_min_commit_ts l') info)"
    using commit_expired [OF key_ok_clean [OF e'(2), of "l_ts l"], of l' c txn role] assms(6) by auto
  with e' show ?thesis by blast
qed

lemma demo_push:
  "\<exists>l' rl txn'. check_txn_status_lock_exists (txn_new (l_ts demo_lock) demo_cm) (reader_at demo_store (l_ts demo_lock))
     (from_raw [1]) demo_lock 0 7 False False False False = Ok ((Uncommitted l' True, rl), txn')"
proof -
  have "\<not> physical (l_ts demo_lock) + l_ttl demo_lock < physical 0" by (simp add: physical_def)
  moreover have "ts_next 7 = (Ok 8 :: TimeStamp mvcc_result)" by (simp add: ts_next_def ts_max_def)
  moreover have "\<not> is_pessimistic_lock demo_lock" "\<not> l_use_async_commit demo_lock" "l_min_commit_ts demo_lock = 6"
    by (simp_all add: demo_lock_def lock_new_def is_pessimistic_lock_def)
  ultimately show ?thesis
    by (simp add: check_txn_status_lock_exists_def push_min_commit_ts_def is_zero_def is_max_def ts_max_def
        put_lock_def push_new_lock_def Let_def)
qed

theorem pushed_commit_refused_witness:
  "\<exists>l' rl txn' e' info. check_txn_status_lock_exists (txn_new (l_ts demo_lock) demo_cm)
       (reader_at demo_store (l_ts demo_lock)) (from_raw [1]) demo_lock 0 7 False False False False =
       Ok ((Uncommitted l' True, rl), txn') \<and> apply_txn demo_store txn' = Ok e' \<and>
     commit (txn_new 5 demo_cm) (reader_at e' (l_ts demo_lock)) (from_raw [1]) 6 None =
       Err (CommitTsExpired (l_ts demo_lock) 6 [1] (l_min_commit_ts l') info)"
proof -
  obtain l' rl txn' where push: "check_txn_status_lock_exists (txn_new (l_ts demo_lock) demo_cm)
      (reader_at demo_store (l_ts demo_lock)) (from_raw [1]) demo_lock 0 7 False False False False =
      Ok ((Uncommitted l' True, rl), txn')" using demo_push by blast
  have "\<not> is_zero 7" "\<not> is_max 7" "(6 :: TimeStamp) \<le> 7" by (simp_all add: is_zero_def is_max_def ts_max_def)
  from pushed_commit_refused [OF demo_ok demo_view(3) push this, of "txn_new 5 demo_cm" None] push
  show ?thesis by blast
qed

text \<open>
  C7: A commit makes the transaction's change visible to exactly the readers at or after the commit
  timestamp that see no newer change: they read the prewritten value, or nothing after a deletion;
  every other read of this and of other keys is as before.
\<close>

theorem committed_value_read:
  assumes "key_ok e raw" "lock_at e (from_raw raw) = Some l" "\<not> is_pessimistic_lock l"
    and "\<forall>w. write_at e (from_raw raw) c = Some w \<longrightarrow> \<not> is_data w"
    and "commit_store cm role c e (l_ts l) raw e'"
  shows "reads e' raw' ts v \<longleftrightarrow>
    (if raw' = raw \<and> changes l \<and> newest_change (write_at e (from_raw raw)) c ts
     then l_type l = LT_Put \<and> lock_value e raw l v else reads e raw' ts v)"
  using assms(1,5)
proof (cases rule: commit_store_cases [consumes 2, case_names wrote unlocked])
  case (wrote l\<^sub>1 tp)
  then have l\<^sub>1: "l\<^sub>1 = l" using assms(2) by simp
  show ?thesis
  proof (cases "raw' = raw")
    case True
    then show ?thesis
      using reads_after_commit [OF wrote(4,2,6,8) assms(4)] l\<^sub>1 by simp
  next
    case False
    then show ?thesis using reads_other_key [OF wrote(6,8)] by simp
  qed
next
  case (unlocked l\<^sub>1)
  then show ?thesis using assms(2,3) by simp
qed

theorem committed_value_read_witness:
  "\<exists>e'. commit_store demo_cm None 8 demo_store (l_ts demo_lock) [1] e' \<and> reads e' [1] 9 [7] \<and> reads e' [1] 7 [9]"
proof -
  have l: "write_type_from_lock_type (l_type demo_lock) = Some WT_Put" "l_min_commit_ts demo_lock \<le> 8"
    "\<not> is_pessimistic_lock demo_lock" "l_type demo_lock = LT_Put" "l_short_value demo_lock = Some [7]"
    by (simp_all add: demo_lock_def lock_new_def is_pessimistic_lock_def)
  obtain e' where e': "commit_store demo_cm None 8 demo_store (l_ts demo_lock) [1] e'"
    using commit_write_ok [OF demo_ok demo_view(3) refl l(2,1), of demo_cm None] by (auto simp: commit_store_def)
  have free: "\<forall>w. write_at demo_store (from_raw [1]) 8 = Some w \<longrightarrow> \<not> is_data w" by (simp add: demo_view)
  have "newest_change (write_at demo_store (from_raw [1])) 8 9" "\<not> newest_change (write_at demo_store (from_raw [1])) 8 7"
    by (simp_all add: newest_change_def demo_view)
  moreover have "reads demo_store [1] 7 [9]"
    by (simp add: reads_def demo_view latest_data_def is_data_def write_new_def)
  ultimately show ?thesis
    using committed_value_read [OF demo_ok demo_view(3) l(3) free e'] e' l(4,5)
    by (auto simp: changes_def lock_value_def)
qed

text \<open>
  C21: A point read of the reader returns the value of the newest change at or below the timestamp if
  that is a put, and nothing otherwise; it takes the shortcuts of the last-change information and the
  GC fence and never fails on a store whose long values are present.
\<close>

theorem snapshot_get_correct:
  assumes "wf_store (r_engine r)" "last_change_ok (write_at (r_engine r) (from_raw raw))"
    and "write_at (r_engine r) (from_raw raw) 0 = None" "fence_free (write_at (r_engine r) (from_raw raw)) lim ts"
    and "data_complete (r_engine r) raw"
  shows "\<exists>res. reader_get r (from_raw raw) ts lim = Ok res \<and> (\<forall>v. res = Some v \<longleftrightarrow> reads (r_engine r) raw ts v)"
  by (rule reader_get_ok [OF assms(1) refl assms(2-5)])

theorem snapshot_get_correct_witness:
  "reader_get (reader_new \<lparr> s_engine = demo_store, s_txn_ext = None \<rparr> None) (from_raw [1]) 4 (Some 4) = Ok (Some [9])"
proof -
  define r where "r = reader_new \<lparr> s_engine = demo_store, s_txn_ext = None \<rparr> None"
  have e: "r_engine r = demo_store" by (simp add: r_def reader_new_def)
  have put: "is_data (write_new WT_Put 2 (Some [9]))" by (simp add: is_data_def write_new_def)
  have "reads demo_store [1] 4 [9]"
    using put by (simp add: reads_def demo_view latest_data_def write_new_def)
  moreover have "\<exists>res. reader_get r (from_raw [1]) 4 (Some 4) = Ok res \<and> (\<forall>v. res = Some v \<longleftrightarrow> reads (r_engine r) [1] 4 v)"
    by (rule snapshot_get_correct; simp add: e demo_view last_change_ok_def fence_free_def data_complete_def put;
        simp add: gc_fence_passed_def check_gc_fence_as_latest_version_def write_new_def)
  ultimately have "reader_get r (from_raw [1]) 4 (Some 4) = Ok (Some [9])" unfolding e by auto
  then show ?thesis by (simp add: r_def)
qed
end
