(* ===== verification/TxnPrewrite.thy ===== *)
theory TxnPrewrite
  imports TxnSafety
begin

text \<open>
  The first phase of a commit (\<open>src/storage/txn/actions/prewrite.rs\<close>) with the checks it shares with
  other actions (\<open>common.rs\<close>, \<open>check_data_constraint.rs\<close>): a mutation is checked against the lock and
  the records of its key and turned into a lock. An error can leave the buffer changed (the maximal
  timestamp is updated first, and a lock is written although its commit timestamp would be too
  large), so a call returns its result beside the buffer. The clock, the timestamp oracle and the
  feature gate are the arguments \<open>env\<close>.
\<close>

section \<open>Checks of the records of a key\<close>

record env =
  env_now :: nat
  env_tso :: "TimeStamp option"
  env_last_change :: bool

definition next_last_change_info ::
    "Key \<Rightarrow> write \<Rightarrow> TimeStamp \<Rightarrow> snapshot_reader \<Rightarrow> TimeStamp \<Rightarrow> last_change mvcc_result" where
  "next_last_change_info key w start_ts original_reader commit_ts =
     (if w_type w = WT_Put \<or> w_type w = WT_Delete then make_exist commit_ts 1
      else case w_last_change w of
        LC_Exist last_change_ts versions \<Rightarrow> make_exist last_change_ts (versions + 1)
      | LC_NotExist \<Rightarrow> Ok LC_NotExist
      | LC_Unknown \<Rightarrow>
          let reader = snapshot_reader_new start_ts (sr_snapshot original_reader) in
          rbind (get_write_scan (sr_reader reader) key (Some start_ts) commit_ts 0) (\<lambda>(res, n).
            case res of
              None \<Rightarrow> Ok LC_NotExist
            | Some (w, last_change_ts) \<Rightarrow>
                if w_type w \<noteq> WT_Put then Panic else make_exist last_change_ts (of_nat n + 1)))"

definition write_is_invalid :: "write \<Rightarrow> bool" where
  "write_is_invalid w = (case w_gc_fence w of Some ts \<Rightarrow> \<not> is_zero ts | None \<Rightarrow> False)"

definition check_data_constraint ::
    "snapshot_reader \<Rightarrow> bool \<Rightarrow> write \<Rightarrow> TimeStamp \<Rightarrow> Key \<Rightarrow> unit mvcc_result" where
  "check_data_constraint reader should_not_exist w write_commit_ts key =
     (if \<not> should_not_exist \<or> w_type w = WT_Delete \<or> write_is_invalid w then Ok ()
      else
        rbind (if w_type w = WT_Put then Ok (Some (w_start_ts w))
               else rbind (ts_prev write_commit_ts) (\<lambda>prev.
                 rbind (sr_get_write reader key prev) (\<lambda>prev_write.
                   Ok (map_option w_start_ts prev_write)))) (\<lambda>existing_start_ts.
          case existing_start_ts of
            Some existing_start_ts \<Rightarrow>
              rbind (of_codec (to_raw key)) (\<lambda>raw. Err (AlreadyExist raw existing_start_ts))
          | None \<Rightarrow> Ok ()))"

text \<open>A prewrite that failed may be a duplicate of one that has been committed since.\<close>

definition check_committed_record_on_err ::
    "'a mvcc_result \<Rightarrow> mvcc_txn \<Rightarrow> snapshot_reader \<Rightarrow> Key \<Rightarrow> TimeStamp mvcc_result \<times> mvcc_txn" where
  "check_committed_record_on_err prewrite_result txn reader key =
     (case sr_get_txn_commit_record reader key of
        Ok (SingleRecord commit_ts w) \<Rightarrow>
          if w_type w \<noteq> WT_Rollback then (Ok commit_ts, txn_clear txn)
          else (case prewrite_result of Err e \<Rightarrow> (Err e, txn) | _ \<Rightarrow> (Panic, txn))
      | Ok _ \<Rightarrow> (case prewrite_result of Err e \<Rightarrow> (Err e, txn) | _ \<Rightarrow> (Panic, txn))
      | Err e \<Rightarrow> (Err e, txn)
      | Panic \<Rightarrow> (Panic, txn))"

section \<open>The mutation\<close>

datatype commit_kind = TwoPc | OnePc TimeStamp | Async TimeStamp

datatype transaction_kind = OptimisticTxn bool | PessimisticTxn TimeStamp

datatype assertion_level = LevelOff | LevelFast | LevelStrict

datatype pessimistic_action = SkipPessimisticCheck | DoPessimisticCheck | DoConstraintCheck

record transaction_properties =
  tp_start_ts :: TimeStamp
  tp_kind :: transaction_kind
  tp_commit_kind :: commit_kind
  tp_primary :: bytes
  tp_txn_size :: u64
  tp_lock_ttl :: u64
  tp_min_commit_ts :: TimeStamp
  tp_need_old_value :: bool
  tp_is_retry_request :: bool
  tp_assertion_level :: assertion_level
  tp_txn_source :: u64

fun max_commit_ts :: "commit_kind \<Rightarrow> TimeStamp mvcc_result" where
  "max_commit_ts TwoPc = Panic"
| "max_commit_ts (OnePc ts) = Ok ts"
| "max_commit_ts (Async ts) = Ok ts"

fun txn_is_pessimistic :: "transaction_kind \<Rightarrow> bool" where
  "txn_is_pessimistic (OptimisticTxn _) = False"
| "txn_is_pessimistic (PessimisticTxn _) = True"

fun txn_for_update_ts :: "transaction_kind \<Rightarrow> TimeStamp" where
  "txn_for_update_ts (OptimisticTxn _) = ts_zero"
| "txn_for_update_ts (PessimisticTxn ts) = ts"

datatype lock_status = LS_Locked TimeStamp | LS_Pessimistic TimeStamp | LS_None

fun has_pessimistic_lock :: "lock_status \<Rightarrow> bool" where
  "has_pessimistic_lock (LS_Pessimistic _) = True"
| "has_pessimistic_lock _ = False"

record prewrite_mutation =
  pm_key :: Key
  pm_value :: "Value option"
  pm_mutation_type :: mutation_type
  pm_secondary_keys :: "bytes list option"
  pm_min_commit_ts :: TimeStamp
  pm_pessimistic_action :: pessimistic_action
  pm_lock_type :: "lock_type option"
  pm_lock_ttl :: u64
  pm_last_change :: last_change
  pm_should_not_exist :: bool
  pm_should_not_write :: bool
  pm_assertion :: assertion
  pm_txn_props :: transaction_properties

definition from_mutation ::
    "mutation \<Rightarrow> bytes list option \<Rightarrow> pessimistic_action \<Rightarrow> transaction_properties \<Rightarrow>
     prewrite_mutation mvcc_result" where
  "from_mutation m secondary_keys pessimistic_action txn_props =
     (if txn_is_pessimistic (tp_kind txn_props) \<and> should_not_write m then Err ME_Other
      else
        let (key, value) = into_key_value m in
        Ok \<lparr> pm_key = key, pm_value = value, pm_mutation_type = mutation_type_of m,
             pm_secondary_keys = secondary_keys, pm_min_commit_ts = tp_min_commit_ts txn_props,
             pm_pessimistic_action = pessimistic_action, pm_lock_type = lock_type_from_mutation m,
             pm_lock_ttl = tp_lock_ttl txn_props, pm_last_change = LC_Unknown,
             pm_should_not_exist = should_not_exists m, pm_should_not_write = should_not_write m,
             pm_assertion = get_assertion m, pm_txn_props = txn_props \<rparr>)"

abbreviation pm_start_ts :: "prewrite_mutation \<Rightarrow> TimeStamp" where
  "pm_start_ts pm \<equiv> tp_start_ts (pm_txn_props pm)"

abbreviation pm_kind :: "prewrite_mutation \<Rightarrow> transaction_kind" where
  "pm_kind pm \<equiv> tp_kind (pm_txn_props pm)"

definition pm_lock_info :: "prewrite_mutation \<Rightarrow> lock \<Rightarrow> lock_info mvcc_result" where
  "pm_lock_info pm l =
     rbind (of_codec (to_raw (pm_key pm))) (\<lambda>raw.
       let info = into_lock_info l raw in
       Ok (if txn_is_pessimistic (pm_kind pm) then info\<lparr>i_lock_ttl := 0\<rparr> else info))"

definition skip_constraint_check :: "prewrite_mutation \<Rightarrow> bool" where
  "skip_constraint_check pm =
     (case pm_kind pm of
        OptimisticTxn s \<Rightarrow> s
      | PessimisticTxn _ \<Rightarrow>
          (case pm_pessimistic_action pm of
             DoPessimisticCheck \<Rightarrow> True
           | SkipPessimisticCheck \<Rightarrow> \<not> tp_is_retry_request (pm_txn_props pm)
           | DoConstraintCheck \<Rightarrow> False))"

fun need_min_commit_ts :: "commit_kind \<Rightarrow> bool" where
  "need_min_commit_ts TwoPc = False"
| "need_min_commit_ts _ = True"

fun try_one_pc :: "commit_kind \<Rightarrow> bool" where
  "try_one_pc (OnePc _) = True"
| "try_one_pc _ = False"

section \<open>The checks of a prewrite\<close>

definition check_lock ::
    "prewrite_mutation \<Rightarrow> lock \<Rightarrow> pessimistic_action \<Rightarrow> TimeStamp option \<Rightarrow> u64 \<Rightarrow>
     (lock_status \<times> prewrite_mutation) mvcc_result" where
  "check_lock pm l pessimistic_action expected_for_update_ts generation_to_write =
     (if l_ts l \<noteq> pm_start_ts pm
      then
        if pessimistic_action = DoPessimisticCheck
        then rbind (of_codec (to_raw (pm_key pm))) (\<lambda>raw.
          Err (PessimisticLockNotFound (pm_start_ts pm) raw LockTsMismatch))
        else rbind (pm_lock_info pm l) (\<lambda>info. Err (KeyIsLocked info))
      else
        let pm = pm\<lparr>pm_last_change := l_last_change l\<rparr> in
        if is_pessimistic_lock l
        then
          if \<not> txn_is_pessimistic (pm_kind pm)
          then rbind (of_codec (to_raw (pm_key pm))) (\<lambda>raw. Err (LockTypeNotMatch (pm_start_ts pm) raw True))
          else if (case expected_for_update_ts of Some ts \<Rightarrow> l_for_update_ts l \<noteq> ts | None \<Rightarrow> False)
          then rbind (of_codec (to_raw (pm_key pm))) (\<lambda>raw.
            Err (PessimisticLockNotFound (pm_start_ts pm) raw LockForUpdateTsMismatch))
          else
            Ok (LS_Pessimistic (l_for_update_ts l),
                pm\<lparr>pm_lock_ttl := max (pm_lock_ttl pm) (l_ttl l),
                   pm_min_commit_ts := max (pm_min_commit_ts pm) (l_min_commit_ts l)\<rparr>)
        else if generation_to_write > 0 \<and> l_generation l \<ge> generation_to_write
        then Err (GenerationOutOfOrder generation_to_write (pm_key pm) l)
        else if l_generation l > 0 \<and> pm_should_not_exist pm \<and> l_type l = LT_Put
        then rbind (of_codec (to_raw (pm_key pm))) (\<lambda>raw. Err (AlreadyExist raw (l_ts l)))
        else Ok (LS_Locked (if l_use_async_commit l then l_min_commit_ts l else ts_zero), pm))"

definition write_conflict_error ::
    "prewrite_mutation \<Rightarrow> write \<Rightarrow> TimeStamp \<Rightarrow> write_conflict_reason \<Rightarrow> 'a mvcc_result" where
  "write_conflict_error pm w commit_ts reason =
     rbind (of_codec (to_raw (pm_key pm))) (\<lambda>raw.
       Err (WriteConflict (pm_start_ts pm) (w_start_ts w) commit_ts raw (tp_primary (pm_txn_props pm)) reason))"

text \<open>One record the loop meets: it ends the check, or, for a newer rollback, moves on below it.\<close>

definition check_newer_record ::
    "prewrite_mutation \<Rightarrow> snapshot_reader \<Rightarrow> TimeStamp \<Rightarrow> write \<Rightarrow> (write \<times> TimeStamp) option mvcc_result" where
  "check_newer_record pm reader commit_ts w =
     (let ok = rbind (check_data_constraint reader (pm_should_not_exist pm) w commit_ts (pm_key pm))
                 (\<lambda>_. Ok (Some (w, commit_ts))) in
      case pm_kind pm of
        OptimisticTxn _ \<Rightarrow>
          if commit_ts > pm_start_ts pm then write_conflict_error pm w commit_ts Optimistic else ok
      | PessimisticTxn for_update_ts \<Rightarrow>
          if pm_pessimistic_action pm = DoConstraintCheck \<and> commit_ts > pm_start_ts pm
          then write_conflict_error pm w commit_ts LazyUniquenessCheck
          else if commit_ts > for_update_ts
          then
            if w_type w = WT_Rollback then Ok None
            else rbind (of_codec (into_raw (pm_key pm))) (\<lambda>raw.
              Err (PessimisticLockNotFound (pm_start_ts pm) raw NonLockKeyConflict))
          else ok)"

function check_newer_loop ::
    "prewrite_mutation \<Rightarrow> snapshot_reader \<Rightarrow> TimeStamp \<Rightarrow>
     ((write \<times> TimeStamp) option \<times> prewrite_mutation) mvcc_result" where
  "check_newer_loop pm reader ts =
     rbind (sr_seek_write reader (pm_key pm) ts) (\<lambda>res.
       case res of
         None \<Rightarrow> Ok (None, if ts = ts_max then pm\<lparr>pm_last_change := LC_NotExist\<rparr> else pm)
       | Some (commit_ts, w) \<Rightarrow>
           if commit_ts = pm_start_ts pm \<and> (w_type w = WT_Rollback \<or> w_has_overlapped_rollback w)
           then write_conflict_error pm w commit_ts SelfRolledBack
           else
             rbind (if ts = ts_max
                    then rbind (next_last_change_info (pm_key pm) w (sr_start_ts reader) reader commit_ts)
                      (\<lambda>lc. Ok (pm\<lparr>pm_last_change := lc\<rparr>))
                    else Ok pm) (\<lambda>pm.
             rbind (check_newer_record pm reader commit_ts w) (\<lambda>found.
               case found of
                 Some wc \<Rightarrow> Ok (Some wc, pm)
               | None \<Rightarrow> rbind (ts_prev commit_ts) (\<lambda>prev. check_newer_loop pm reader prev))))"
  by pat_completeness auto
termination
  by (relation "measure (\<lambda>(pm, reader, ts). unat ts)")
    (auto simp: sr_seek_write_def word_less_nat_alt word_le_nat_alt dest!: seek_write_le ts_prev_less)

declare check_newer_loop.simps [simp del]

definition check_for_newer_version ::
    "prewrite_mutation \<Rightarrow> snapshot_reader \<Rightarrow>
     ((write \<times> TimeStamp) option \<times> prewrite_mutation) mvcc_result" where
  "check_for_newer_version pm reader = check_newer_loop pm reader ts_max"

definition assertion_failed_error :: "prewrite_mutation \<Rightarrow> TimeStamp \<Rightarrow> TimeStamp \<Rightarrow> unit mvcc_result" where
  "assertion_failed_error pm existing_start_ts existing_commit_ts =
     rbind (of_codec (to_raw (pm_key pm))) (\<lambda>raw.
       Err (AssertionFailed (pm_start_ts pm) raw (pm_assertion pm) existing_start_ts existing_commit_ts))"

text \<open>The two branches of an assertion's check once the version to check it on is known.\<close>

definition assertion_err :: "prewrite_mutation \<Rightarrow> (write \<times> TimeStamp) option \<Rightarrow> unit mvcc_result" where
  "assertion_err pm w =
     (case (pm_assertion pm, w) of
        (AssertExist, None) \<Rightarrow> assertion_failed_error pm ts_zero ts_zero
      | (AssertExist, Some (w, commit_ts)) \<Rightarrow>
          if w_type w = WT_Delete then assertion_failed_error pm (w_start_ts w) commit_ts else Ok ()
      | (AssertNotExist, Some (w, commit_ts)) \<Rightarrow>
          if w_type w = WT_Put then assertion_failed_error pm (w_start_ts w) commit_ts else Ok ()
      | _ \<Rightarrow> Ok ())"

definition check_assertion ::
    "prewrite_mutation \<Rightarrow> snapshot_reader \<Rightarrow> (write \<times> TimeStamp) option \<Rightarrow> bool \<Rightarrow>
     ((write \<times> TimeStamp) option \<times> bool) mvcc_result" where
  "check_assertion pm reader w write_loaded =
     (if pm_assertion pm = AssertNone \<or> tp_assertion_level (pm_txn_props pm) = LevelOff then Ok (None, False)
      else if tp_assertion_level (pm_txn_props pm) \<noteq> LevelStrict \<and> \<not> write_loaded then Ok (None, False)
      else
        let w = (if write_loaded \<and> (case w of Some (x, _) \<Rightarrow> write_is_invalid x | None \<Rightarrow> False)
                 then None else w);
            need_reload = (\<not> write_loaded \<or>
              (case w of Some (x, _) \<Rightarrow> w_type x \<noteq> WT_Put \<and> w_type x \<noteq> WT_Delete | None \<Rightarrow> False)) in
        rbind (if need_reload
               then rbind (sr_get_write_with_commit_ts reader (pm_key pm)
                        (case w of Some (_, ts) \<Rightarrow> ts | None \<Rightarrow> ts_max)) (\<lambda>reloaded.
                      Ok (reloaded, reloaded, True))
               else Ok (w, None, False)) (\<lambda>(w, reloaded_write, reloaded).
          case assertion_err pm w of
            Ok _ \<Rightarrow> Ok (reloaded_write, reloaded)
          | e \<Rightarrow>
              rbind (if skip_constraint_check pm
                     then rbind (check_for_newer_version pm reader) (\<lambda>_. Ok ()) else Ok ()) (\<lambda>_.
              rbind e (\<lambda>_. Ok (reloaded_write, reloaded)))))"

definition amend_pessimistic_lock ::
    "prewrite_mutation \<Rightarrow> snapshot_reader \<Rightarrow> prewrite_mutation mvcc_result" where
  "amend_pessimistic_lock pm reader =
     rbind (sr_seek_write reader (pm_key pm) ts_max) (\<lambda>res.
     rbind (case res of
              Some (commit_ts, w) \<Rightarrow>
                if commit_ts \<ge> sr_start_ts reader
                then rbind (of_codec (into_raw (pm_key pm))) (\<lambda>raw.
                  Err (PessimisticLockNotFound (sr_start_ts reader) raw LockMissingAmendFail))
                else next_last_change_info (pm_key pm) w (sr_start_ts reader) reader commit_ts
            | None \<Rightarrow> Ok LC_NotExist) (\<lambda>lc.
       let pm = pm\<lparr>pm_last_change := lc\<rparr> in
       rbind (check_assertion pm reader (map_option (\<lambda>(ts, w). (w, ts)) res) True) (\<lambda>_. Ok pm)))"

section \<open>Writing the lock\<close>

text \<open>
  The in-memory lock is set while its handle is locked; the guard is kept in the buffer until the
  write is done, and dropped at once when the timestamp is too large.
\<close>

definition async_commit_timestamps ::
    "Key \<Rightarrow> lock \<Rightarrow> TimeStamp \<Rightarrow> TimeStamp \<Rightarrow> TimeStamp \<Rightarrow> mvcc_txn \<Rightarrow>
     (TimeStamp \<times> lock) mvcc_result \<times> mvcc_txn" where
  "async_commit_timestamps key l start_ts for_update_ts limit_ts txn =
     (let cm = lock_key key (t_cm txn) in
      case ts_next (max (max (cm_max_ts cm) start_ts) for_update_ts) :: TimeStamp mvcc_result of
        Ok next \<Rightarrow>
          let min_commit_ts = max (l_min_commit_ts l) next in
          if \<not> is_zero limit_ts \<and> min_commit_ts > limit_ts
          then (Err (CommitTsTooLarge start_ts min_commit_ts limit_ts),
                txn\<lparr>t_cm := guard_drop key cm\<rparr>)
          else
            let l = l\<lparr>l_min_commit_ts := min_commit_ts\<rparr> in
            (Ok (min_commit_ts, l),
             txn\<lparr>t_cm := guard_set_lock key (Some l) cm, t_guards := t_guards txn @ [key]\<rparr>)
      | _ \<Rightarrow> (Panic, txn))"

definition prewrite_lock :: "env \<Rightarrow> prewrite_mutation \<Rightarrow> lock_type \<Rightarrow> lock_status \<Rightarrow> u64 \<Rightarrow> lock" where
  "prewrite_lock env pm tp lock_status generation =
     (let for_update_ts_to_write = (case lock_status of
            LS_Pessimistic from_pessimistic_lock \<Rightarrow> max (txn_for_update_ts (pm_kind pm)) from_pessimistic_lock
          | _ \<Rightarrow> txn_for_update_ts (pm_kind pm));
          l = lock_with_generation (lock_set_txn_source
                (lock_new tp (tp_primary (pm_txn_props pm)) (pm_start_ts pm) (pm_lock_ttl pm) None
                   for_update_ts_to_write (tp_txn_size (pm_txn_props pm)) (pm_min_commit_ts pm) False)
                (tp_txn_source (pm_txn_props pm))) generation;
          l = (if env_last_change env \<and> tp = LT_Lock then lock_set_last_change l (pm_last_change pm) else l);
          l = (case pm_value pm of
                 Some value \<Rightarrow> if is_short_value value then l\<lparr>l_short_value := Some value\<rparr> else l
               | None \<Rightarrow> l)
      in case pm_secondary_keys pm of
           Some secondary_keys \<Rightarrow> l\<lparr>l_use_async_commit := True, l_secondaries := secondary_keys\<rparr>
         | None \<Rightarrow> if try_one_pc (tp_commit_kind (pm_txn_props pm)) then l\<lparr>l_use_one_pc := True\<rparr> else l)"

definition put_long_value :: "prewrite_mutation \<Rightarrow> mvcc_txn \<Rightarrow> mvcc_txn" where
  "put_long_value pm txn =
     (case pm_value pm of
        Some value \<Rightarrow>
          if is_short_value value then txn else put_value (pm_key pm) (pm_start_ts pm) value txn
      | None \<Rightarrow> txn)"

text \<open>The lock is put into the buffer in any case, with the result calculated before.\<close>

definition put_prewrite_lock ::
    "prewrite_mutation \<Rightarrow> lock \<Rightarrow> lock_status \<Rightarrow> bool \<Rightarrow> bool \<Rightarrow> TimeStamp mvcc_result \<Rightarrow> mvcc_txn \<Rightarrow>
     TimeStamp mvcc_result \<times> mvcc_txn" where
  "put_prewrite_lock pm l lock_status one_pc is_new_lock res txn =
     (if one_pc then (res, put_locks_for_1pc (pm_key pm) l (has_pessimistic_lock lock_status) txn)
      else case put_lock (pm_key pm) l is_new_lock txn of
        Ok txn \<Rightarrow> (res, txn)
      | _ \<Rightarrow> (Panic, txn))"

definition write_lock ::
    "env \<Rightarrow> prewrite_mutation \<Rightarrow> lock_status \<Rightarrow> mvcc_txn \<Rightarrow> bool \<Rightarrow> u64 \<Rightarrow>
     TimeStamp mvcc_result \<times> mvcc_txn" where
  "write_lock env pm lock_status txn is_new_lock generation =
     (case pm_lock_type pm of
        None \<Rightarrow> (Panic, txn)
      | Some tp \<Rightarrow>
          let l = prewrite_lock env pm tp lock_status generation;
              one_pc = try_one_pc (tp_commit_kind (pm_txn_props pm));
              txn = put_long_value pm txn in
          if l_use_async_commit l \<or> one_pc
          then case max_commit_ts (tp_commit_kind (pm_txn_props pm)) of
              Ok max_ts \<Rightarrow>
                (case async_commit_timestamps (pm_key pm) l (pm_start_ts pm)
                    (txn_for_update_ts (pm_kind pm)) max_ts txn of
                   (Ok (ts, l), txn) \<Rightarrow> put_prewrite_lock pm l lock_status one_pc is_new_lock (Ok ts) txn
                 | (Err e, txn) \<Rightarrow>
                     put_prewrite_lock pm
                       (l\<lparr>l_use_one_pc := False, l_use_async_commit := False, l_secondaries := []\<rparr>)
                       lock_status False is_new_lock (Err e) txn
                 | (Panic, txn) \<Rightarrow> (Panic, txn))
            | _ \<Rightarrow> (Panic, txn)
          else put_prewrite_lock pm l lock_status False is_new_lock (Ok ts_zero) txn)"

section \<open>Prewrite\<close>

definition txn_update_max_ts :: "env \<Rightarrow> TimeStamp \<Rightarrow> mvcc_txn \<Rightarrow> unit mvcc_result \<times> mvcc_txn" where
  "txn_update_max_ts env ts txn =
     (case update_max_ts (env_now env) (env_tso env) ts (t_cm txn) of
        (res, cm) \<Rightarrow> (map_error (\<lambda>(ts, limit). InvalidMaxTsUpdate ts limit) res, txn\<lparr>t_cm := cm\<rparr>))"

definition prewrite_old_value ::
    "prewrite_mutation \<Rightarrow> snapshot_reader \<Rightarrow> bool \<Rightarrow> write option \<Rightarrow> old_value mvcc_result" where
  "prewrite_old_value pm reader prev_write_loaded prev_write =
     (if tp_need_old_value (pm_txn_props pm) \<and> pm_mutation_type pm \<in> {MT_Put, MT_Delete, MT_Insert}
      then
        if pm_mutation_type pm = MT_Insert then Ok OV_None
        else if skip_constraint_check pm
        then Ok (if txn_is_pessimistic (pm_kind pm) then OV_Unspecified else OV_None)
        else
          sr_get_old_value reader (pm_key pm)
            (case pm_kind pm of OptimisticTxn _ \<Rightarrow> pm_start_ts pm | PessimisticTxn for_update_ts \<Rightarrow> for_update_ts)
            prev_write_loaded prev_write
      else Ok OV_Unspecified)"

text \<open>The lock on the key, if any; without one a pessimistic transaction amends the lock it lost.\<close>

definition prewrite_lock_status ::
    "prewrite_mutation \<Rightarrow> snapshot_reader \<Rightarrow> pessimistic_action \<Rightarrow> TimeStamp option \<Rightarrow> u64 \<Rightarrow>
     (lock_status \<times> bool \<times> prewrite_mutation) mvcc_result" where
  "prewrite_lock_status pm reader pessimistic_action expected_for_update_ts generation =
     rbind (sr_load_lock reader (pm_key pm)) (\<lambda>lock_opt.
       case lock_opt of
         Some l \<Rightarrow>
           rbind (check_lock pm l pessimistic_action expected_for_update_ts generation)
             (\<lambda>(status, pm). Ok (status, False, pm))
       | None \<Rightarrow>
           if pessimistic_action = DoPessimisticCheck
           then
             if generation \<noteq> 0 then Panic
             else rbind (amend_pessimistic_lock pm reader) (\<lambda>pm. Ok (LS_None, True, pm))
           else Ok (LS_None, False, pm))"

text \<open>The checks of the records, down to the write that precedes the mutation.\<close>

definition prewrite_prev_write ::
    "prewrite_mutation \<Rightarrow> snapshot_reader \<Rightarrow> bool \<Rightarrow> (write option \<times> bool \<times> prewrite_mutation) mvcc_result" where
  "prewrite_prev_write pm reader check_assertions =
     rbind (if \<not> skip_constraint_check pm
            then rbind (check_for_newer_version pm reader) (\<lambda>(prev, pm). Ok (prev, True, pm))
            else Ok (None, False, pm)) (\<lambda>(prev_write, loaded, pm).
     rbind (if check_assertions then check_assertion pm reader prev_write loaded else Ok (None, False))
       (\<lambda>(reloaded_prev_write, reloaded).
         if reloaded then Ok (map_option fst reloaded_prev_write, True, pm)
         else Ok (map_option fst prev_write, loaded, pm)))"

fun lift_result :: "'a mvcc_result \<Rightarrow> mvcc_txn \<Rightarrow> ('a \<Rightarrow> 'b mvcc_result \<times> mvcc_txn) \<Rightarrow> 'b mvcc_result \<times> mvcc_txn" where
  "lift_result (Ok a) txn f = f a"
| "lift_result (Err e) txn f = (Err e, txn)"
| "lift_result Panic txn f = (Panic, txn)"

definition prewrite_not_write ::
    "env \<Rightarrow> prewrite_mutation \<Rightarrow> mvcc_txn \<Rightarrow> (TimeStamp \<times> old_value) mvcc_result \<times> mvcc_txn" where
  "prewrite_not_write env pm txn =
     (case txn_update_max_ts env (pm_start_ts pm) txn of
        (res, txn) \<Rightarrow>
          lift_result res txn (\<lambda>_.
            if need_min_commit_ts (tp_commit_kind (pm_txn_props pm))
            then lift_result (ts_next (pm_start_ts pm)) txn (\<lambda>next.
              (Ok (max (tp_min_commit_ts (pm_txn_props pm)) next, OV_Unspecified), txn))
            else (Ok (ts_zero, OV_Unspecified), txn)))"

fun is_locked_status :: "lock_status \<Rightarrow> bool" where
  "is_locked_status (LS_Locked _) = True"
| "is_locked_status _ = False"

text \<open>What follows once the key is known not to be locked by another transaction.\<close>

definition prewrite_checked ::
    "env \<Rightarrow> mvcc_txn \<Rightarrow> snapshot_reader \<Rightarrow> prewrite_mutation \<Rightarrow> lock_status \<Rightarrow> bool \<Rightarrow>
     pessimistic_action \<Rightarrow> u64 \<Rightarrow> (TimeStamp \<times> old_value) mvcc_result \<times> mvcc_txn" where
  "prewrite_checked env txn reader pm lock_status lock_amended pessimistic_action generation =
     (let is_subsequent_flush = (generation > 0 \<and> is_locked_status lock_status) in
      lift_result (prewrite_prev_write pm reader (\<not> lock_amended \<and> \<not> is_subsequent_flush)) txn
        (\<lambda>(prev_write, prev_write_loaded, pm).
          if pm_should_not_write pm then prewrite_not_write env pm txn
          else
            lift_result (prewrite_old_value pm reader prev_write_loaded prev_write) txn (\<lambda>old_value.
              let is_new_lock = (pessimistic_action \<noteq> DoPessimisticCheck \<or> lock_amended) in
              case write_lock env pm lock_status txn is_new_lock generation of
                (res, txn) \<Rightarrow> lift_result res txn (\<lambda>ts. (Ok (ts, old_value), txn)))))"

definition prewrite_with_generation ::
    "env \<Rightarrow> mvcc_txn \<Rightarrow> snapshot_reader \<Rightarrow> transaction_properties \<Rightarrow> mutation \<Rightarrow> bytes list option \<Rightarrow>
     pessimistic_action \<Rightarrow> TimeStamp option \<Rightarrow> u64 \<Rightarrow> (TimeStamp \<times> old_value) mvcc_result \<times> mvcc_txn" where
  "prewrite_with_generation env txn reader txn_props m secondary_keys pessimistic_action
       expected_for_update_ts generation =
     lift_result (from_mutation m secondary_keys pessimistic_action txn_props) txn (\<lambda>pm.
       case (if pm_should_not_exist pm then txn_update_max_ts env (tp_start_ts txn_props) txn
             else (Ok (), txn)) of
         (res, txn) \<Rightarrow>
           lift_result res txn (\<lambda>_.
           lift_result (prewrite_lock_status pm reader pessimistic_action expected_for_update_ts generation) txn
             (\<lambda>(lock_status, lock_amended, pm).
               case (generation = 0, lock_status) of
                 (True, LS_Locked ts) \<Rightarrow> (Ok (ts, OV_Unspecified), txn)
               | _ \<Rightarrow> prewrite_checked env txn reader pm lock_status lock_amended pessimistic_action generation)))"

definition prewrite ::
    "env \<Rightarrow> mvcc_txn \<Rightarrow> snapshot_reader \<Rightarrow> transaction_properties \<Rightarrow> mutation \<Rightarrow> bytes list option \<Rightarrow>
     pessimistic_action \<Rightarrow> TimeStamp option \<Rightarrow> (TimeStamp \<times> old_value) mvcc_result \<times> mvcc_txn" where
  "prewrite env txn reader txn_props m secondary_keys pessimistic_action expected_for_update_ts =
     prewrite_with_generation env txn reader txn_props m secondary_keys pessimistic_action
       expected_for_update_ts 0"

section \<open>The newest record\<close>

text \<open>
  What the checks of a prewrite rely on: the hints of the records are right, the newest record is
  not one a garbage collection would have removed, and the counters in the hints do not overflow.
\<close>

definition checkable :: "(TimeStamp \<Rightarrow> write option) \<Rightarrow> TimeStamp \<Rightarrow> bool" where
  "checkable W s \<longleftrightarrow> last_change_ok W \<and> W 0 = None \<and> fence_free W (Some s) ts_max \<and>
     (\<forall>c w. is_latest W ts_max c w \<longrightarrow> \<not> write_is_invalid w) \<and>
     (\<forall>c w t v. W c = Some w \<longrightarrow> w_last_change w = LC_Exist t v \<longrightarrow> v + 1 \<noteq> 0)"

lemma le_ts_max [simp]: "(c :: TimeStamp) \<le> ts_max"
  by (simp add: ts_max_def)

lemma newest_ge: "is_latest W ts_max c w \<Longrightarrow> W d = Some p \<Longrightarrow> d \<le> c"
  unfolding is_latest_def by (metis le_ts_max not_le option.distinct(1))

lemma newest_positive: "checkable W s \<Longrightarrow> is_latest W ts_max c w \<Longrightarrow> 0 < c"
  by (auto simp: checkable_def is_latest_def word_gt_0)

lemma newest_latest_data:
  assumes "is_latest W ts_max c w" "c \<le> ts"
  shows "latest_data W ts t p \<longleftrightarrow> latest_data W ts_max t p"
proof -
  have "W d = Some q \<Longrightarrow> d \<le> ts" for d q using newest_ge [OF assms(1)] assms(2) order_trans by blast
  then show ?thesis unfolding latest_data_def by (metis le_ts_max)
qed

lemma newest_change_below:
  assumes "is_latest W ts_max c w" "c < d"
  shows "change_below W d t p \<longleftrightarrow> latest_data W ts_max t p"
proof -
  have "W b = Some q \<Longrightarrow> b < d" for b q using newest_ge [OF assms(1)] assms(2) by (meson le_less_trans)
  then show ?thesis unfolding change_below_def latest_data_def by (metis le_ts_max)
qed

lemma newest_fence_free:
  assumes "fence_free W lim ts_max" "is_latest W ts_max c w" "c \<le> ts"
  shows "fence_free W lim ts"
proof -
  have le: "W d = Some q \<Longrightarrow> d \<le> ts" for d q using newest_ge [OF assms(2)] assms(3) order_trans by blast
  show ?thesis
    unfolding fence_free_def
  proof (intro allI impI)
    fix d q
    assume d: "W d = Some q" "\<forall>c' w'. d < c' \<longrightarrow> c' \<le> ts \<longrightarrow> W c' = Some w' \<longrightarrow> \<not> is_data w'"
    then have "\<forall>c' w'. d < c' \<longrightarrow> c' \<le> ts_max \<longrightarrow> W c' = Some w' \<longrightarrow> \<not> is_data w'" using le by blast
    with d(1) assms(1) show "gc_fence_passed lim q" by (simp add: fence_free_def)
  qed
qed

lemma get_write_scan_count:
  fixes t :: TimeStamp
  assumes "get_write_scan r key lim t n = Ok (Some wc, m)" "\<And>w. write_at (r_engine r) key 0 = Some w \<Longrightarrow> False"
    "wf_store (r_engine r)" "key = from_raw raw"
  shows "m < n + unat t"
  using assms(1)
proof (induction "unat t" arbitrary: t n rule: less_induct)
  case less
  show ?case
  proof (rule seek_write_cases [OF assms(3), of raw t], goal_cases)
    case (1 c w)
    have c: "0 < c" "c \<le> t" using 1(2) assms(2,4) by (auto simp: is_latest_def word_gt_0)
    then have u: "unat c \<le> unat t" "unat (c - 1) = unat c - 1" "0 < unat c"
      using unat_prev [of c] by (simp_all add: word_le_nat_alt)
    show ?case
    proof (cases "m = n")
      case False
      then have "get_write_scan r key lim (c - 1) (n + 1) = Ok (Some wc, m)"
        using less.prems 1(1) c
        by (subst (asm) get_write_scan.simps)
          (auto simp: assms(4) ts_prev_pos split: option.splits if_splits)
      then have "m < n + 1 + unat (c - 1)" by (rule less.hyps [rotated]) (use u in simp)
      with u show ?thesis by simp
    qed (use u in simp)
  next
    case 2
    with less.prems show ?case by (subst (asm) get_write_scan.simps) (simp add: assms(4))
  qed
qed

lemma next_last_change_ok:
  assumes wf: "wf_store (sr_engine s)" and W: "W = write_at (sr_engine s) (from_raw raw)"
    and ok: "checkable W start" and latest: "is_latest W ts_max c w" and "wf_write w"
  obtains lc where "next_last_change_info (from_raw raw) w start s c = Ok lc" "wf_last_change lc"
    "\<And>d. c < d \<Longrightarrow> last_change_right W d lc"
proof -
  have c0: "0 < c" by (rule newest_positive [OF ok latest])
  have below: "change_below W d t p \<longleftrightarrow> latest_data W ts_max t p" if "c < d" for d t p
    by (rule newest_change_below [OF latest that])
  show thesis
  proof (cases "is_data w")
    case True
    have "latest_data W ts_max c w" by (rule latest_is_latest_data [OF latest True])
    then show ?thesis
      using True c0 by (intro that [of "LC_Exist c 1"])
        (auto simp: next_last_change_info_def is_data_def make_exist_def is_zero_def wf_last_change_def
          last_change_right_def below)
  next
    case False
    then have nd: "w_type w \<noteq> WT_Put" "w_type w \<noteq> WT_Delete" by (auto simp: is_data_def)
    have same: "change_below W d t p \<longleftrightarrow> change_below W c t p" if "c < d" for d t p
      unfolding below [OF that] by (rule latest_data_skip [OF latest False])
    have Wc: "W c = Some w" using latest by (simp add: is_latest_def)
    have right: "last_change_right W d lc" if "last_change_right W c lc" "c < d" for d lc
      using that unfolding last_change_right_def same [OF that(2)] by (auto split: last_change.splits)
    have hint: "last_change_right W c (w_last_change w)"
      using ok Wc False by (auto simp: checkable_def last_change_ok_def)
    show ?thesis
    proof (cases "w_last_change w")
      case (LC_Exist t v)
      have "t \<noteq> 0" using \<open>wf_write w\<close> LC_Exist by (auto simp: wf_write_def wf_last_change_def)
      moreover have "v + 1 \<noteq> 0" using ok Wc LC_Exist unfolding checkable_def by blast
      moreover have "last_change_right W c (LC_Exist t (v + 1))"
        using hint LC_Exist by (simp add: last_change_right_def)
      ultimately show ?thesis
        using nd LC_Exist right by (intro that [of "LC_Exist t (v + 1)"])
          (auto simp: next_last_change_info_def make_exist_def is_zero_def wf_last_change_def word_gt_0)
    next
      case LC_NotExist
      then show ?thesis
        using nd hint right by (intro that [of LC_NotExist])
          (auto simp: next_last_change_info_def wf_last_change_def)
    next
      case LC_Unknown
      let ?r = "sr_reader (snapshot_reader_new start (sr_snapshot s))"
      have e: "r_engine ?r = sr_engine s" by (simp add: snapshot_reader_new_def reader_new_def)
      obtain res m where scan: "get_write_scan ?r (from_raw raw) (Some start) c 0 = Ok (res, m)" "visible_put W c res"
        using get_write_scan_ok [of ?r W raw "Some start" c 0] wf W ok e newest_fence_free [OF _ latest order.refl]
        by (auto simp: checkable_def)
      have info: "next_last_change_info (from_raw raw) w start s c =
          (case res of None \<Rightarrow> Ok LC_NotExist
           | Some (w, t) \<Rightarrow> if w_type w \<noteq> WT_Put then Panic else make_exist t (of_nat m + 1))"
        using nd LC_Unknown scan(1) by (simp add: next_last_change_info_def split: option.split)
      show ?thesis
      proof (cases res)
        case None
        have "last_change_right W c LC_NotExist"
          using scan(2) None latest_data_skip [OF latest False]
            newest_latest_data [OF latest order.refl]
          by (auto simp: last_change_right_def visible_put_def)
        then show ?thesis using info None right by (intro that [of LC_NotExist]) (auto simp: wf_last_change_def)
      next
        case (Some wt)
        then obtain p t where pt: "res = Some (p, t)" "latest_data W c t p" "w_type p = WT_Put"
          using scan(2) by (cases wt) (auto simp: visible_put_def)
        have "t \<noteq> 0" using pt(2) ok by (auto simp: latest_data_def checkable_def)
        moreover have "m < unat c"
          using get_write_scan_count [of ?r "from_raw raw" "Some start" c 0 "(p, t)" m raw] scan(1) pt(1) e wf W ok
          by (auto simp: checkable_def)
        then have "m + 1 < 2 ^ 64" using unsigned_less [of c, where ?'a = nat] by simp
        then have "(of_nat (m + 1) :: u64) \<noteq> 0" by (simp only: word_of_nat_eq_0_iff) (auto dest: dvd_imp_le)
        then have "(of_nat m + 1 :: u64) \<noteq> 0" by (simp add: add.commute)
        moreover have "last_change_right W c (LC_Exist t v)" for v
          using pt(2) latest_data_skip [OF latest False] newest_latest_data [OF latest order.refl]
          by (auto simp: last_change_right_def)
        ultimately show ?thesis
          using info pt(1,3) right by (intro that [of "LC_Exist t (of_nat m + 1)"])
            (auto simp: make_exist_def is_zero_def wf_last_change_def word_gt_0)
      qed
    qed
  qed
qed

section \<open>The outcome of the checks\<close>

lemma check_data_constraint_ok:
  assumes wf: "wf_store (sr_engine r)" and W: "W = write_at (sr_engine r) (from_raw raw)"
    and ok: "checkable W (sr_start_ts r)" and latest: "is_latest W ts_max c w"
  shows "(\<exists>t p. latest_data W ts_max t p \<and> w_type p = WT_Put \<and>
      check_data_constraint r b w c (from_raw raw) = (if b then Err (AlreadyExist raw (w_start_ts p)) else Ok ())) \<or>
    (\<forall>t p. latest_data W ts_max t p \<longrightarrow> w_type p \<noteq> WT_Put) \<and> check_data_constraint r b w c (from_raw raw) = Ok ()"
proof (cases "is_data w")
  case True
  have l: "latest_data W ts_max c w" by (rule latest_is_latest_data [OF latest True])
  have inv: "\<not> write_is_invalid w" using ok latest by (auto simp: checkable_def)
  show ?thesis
  proof (cases "w_type w = WT_Put")
    case True
    with l inv show ?thesis by (intro disjI1 exI [of _ c] exI [of _ w]) (auto simp: check_data_constraint_def)
  next
    case False
    then have del: "w_type w = WT_Delete" using True by (simp add: is_data_def)
    then have "w_type p \<noteq> WT_Put" if "latest_data W ts_max t p" for t p using latest_data_unique [OF l that] by auto
    with del show ?thesis by (intro disjI2) (auto simp: check_data_constraint_def)
  qed
next
  case False
  have c0: "0 < c" by (rule newest_positive [OF ok latest])
  have "fence_free W (Some (sr_start_ts r)) (c - 1)"
    using fence_free_skip [OF _ latest False c0] ok by (auto simp: checkable_def)
  then obtain res where res: "get_write_with_commit_ts (sr_reader r) (from_raw raw) (c - 1) (Some (sr_start_ts r)) = Ok res"
    "visible_put W (c - 1) res"
    using get_write_with_commit_ts_ok [OF wf W] ok unfolding checkable_def by metis
  have "latest_data W (c - 1) t p \<longleftrightarrow> latest_data W ts_max t p" for t p
    using change_below_prev [OF c0] latest_data_skip [OF latest False] by blast
  then have vis: "visible_put W ts_max res" using res(2) by (simp add: visible_put_def)
  have inv: "\<not> write_is_invalid w" using ok latest by (auto simp: checkable_def)
  have eq: "check_data_constraint r b w c (from_raw raw) =
      (if b then case res of Some (p, _) \<Rightarrow> Err (AlreadyExist raw (w_start_ts p)) | None \<Rightarrow> Ok () else Ok ())"
    using False inv c0 res(1)
    by (cases res) (auto simp: check_data_constraint_def is_data_def ts_prev_pos sr_get_write_def get_write_def)
  show ?thesis
  proof (cases res)
    case None
    then show ?thesis using vis eq by (auto simp: visible_put_def)
  next
    case (Some pt)
    then show ?thesis using vis eq by (cases pt) (auto simp: visible_put_def)
  qed
qed

text \<open>The conflicts of an optimistic transaction with the newest record of its key.\<close>

definition self_rolled_back :: "(TimeStamp \<Rightarrow> write option) \<Rightarrow> TimeStamp \<Rightarrow> bool" where
  "self_rolled_back W s \<longleftrightarrow>
     (\<exists>w. is_latest W ts_max s w \<and> (w_type w = WT_Rollback \<or> w_has_overlapped_rollback w))"

definition newer_record :: "(TimeStamp \<Rightarrow> write option) \<Rightarrow> TimeStamp \<Rightarrow> bool" where
  "newer_record W s \<longleftrightarrow> (\<exists>c > s. W c \<noteq> None)"

definition put_exists :: "(TimeStamp \<Rightarrow> write option) \<Rightarrow> bool" where
  "put_exists W \<longleftrightarrow> (\<exists>t p. latest_data W ts_max t p \<and> w_type p = WT_Put)"

lemma newer_record_iff: "is_latest W ts_max c w \<Longrightarrow> newer_record W s \<longleftrightarrow> s < c"
  using newest_ge [of W c w] unfolding newer_record_def by (auto simp: is_latest_def intro: less_le_trans)

lemma newest_unique: "is_latest W ts_max c w \<Longrightarrow> is_latest W ts_max c' w' \<Longrightarrow> c = c' \<and> w = w'"
  by (rule is_latest_unique)

definition hint_right :: "(TimeStamp \<Rightarrow> write option) \<Rightarrow> TimeStamp \<Rightarrow> last_change \<Rightarrow> bool" where
  "hint_right W s lc \<longleftrightarrow> wf_last_change lc \<and> (\<forall>d > s. last_change_right W d lc)"

lemma newest_or_none:
  assumes "wf_store (sr_engine r)"
  obtains (newest) c w where "sr_seek_write r (from_raw raw) ts_max = Ok (Some (c, w))"
      "is_latest (write_at (sr_engine r) (from_raw raw)) ts_max c w" "wf_write w"
    | (none) "sr_seek_write r (from_raw raw) ts_max = Ok None" "\<And>c. write_at (sr_engine r) (from_raw raw) c = None"
proof (cases rule: seek_write_cases [OF assms, where raw = raw and ts = ts_max])
  case (1 c w)
  have "wf_write w" using 1(2) write_at_entry [OF assms, of "from_raw raw" c w] by (simp add: is_latest_def)
  with 1 show ?thesis by (intro newest) (simp_all add: sr_seek_write_def)
next
  case 2
  then show ?thesis by (intro none) (simp_all add: sr_seek_write_def no_version_def)
qed

lemma check_newer_optimistic:
  assumes wf: "wf_store (sr_engine r)" and W: "W = write_at (sr_engine r) (from_raw raw)"
    and ok: "checkable W s" and pm: "pm_key pm = from_raw raw" "pm_kind pm = OptimisticTxn b" "pm_start_ts pm = s"
    and s: "sr_start_ts r = s"
  shows "if self_rolled_back W s then \<exists>t. check_for_newer_version pm r =
        Err (WriteConflict s t s raw (tp_primary (pm_txn_props pm)) SelfRolledBack)
    else if newer_record W s then \<exists>c w. is_latest W ts_max c w \<and> check_for_newer_version pm r =
        Err (WriteConflict s (w_start_ts w) c raw (tp_primary (pm_txn_props pm)) Optimistic)
    else if pm_should_not_exist pm \<and> put_exists W then \<exists>t. check_for_newer_version pm r = Err (AlreadyExist raw t)
    else \<exists>prev lc. check_for_newer_version pm r = Ok (prev, pm\<lparr>pm_last_change := lc\<rparr>) \<and> hint_right W s lc \<and>
      (case prev of None \<Rightarrow> \<forall>c. W c = None | Some (w, c) \<Rightarrow> is_latest W ts_max c w)"
proof (rule newest_or_none [OF wf, of raw], goal_cases)
  case (1 c w)
  note latest = 1(2) [folded W]
  have c0: "0 < c" by (rule newest_positive [OF ok latest])
  have self: "self_rolled_back W s \<longleftrightarrow> c = s \<and> (w_type w = WT_Rollback \<or> w_has_overlapped_rollback w)"
    unfolding self_rolled_back_def using newest_unique [OF latest] latest by blast
  obtain lc where lc: "next_last_change_info (from_raw raw) w s r c = Ok lc" "wf_last_change lc"
    "\<And>d. c < d \<Longrightarrow> last_change_right W d lc" by (rule next_last_change_ok [OF wf W ok latest 1(3)]) (rule that)
  let ?pm = "pm\<lparr>pm_last_change := lc\<rparr>"
  have loop: "check_for_newer_version pm r =
      (if self_rolled_back W s then write_conflict_error pm w c SelfRolledBack
       else rbind (check_newer_record ?pm r c w) (\<lambda>found. case found of Some wc \<Rightarrow> Ok (Some wc, ?pm)
         | None \<Rightarrow> rbind (ts_prev c) (\<lambda>prev. check_newer_loop ?pm r prev)))"
    unfolding check_for_newer_version_def using 1(1) lc(1) pm self s
    by (subst check_newer_loop.simps) (auto simp: pm)
  show ?case
  proof (cases "self_rolled_back W s \<or> newer_record W s")
    case True
    show ?thesis
    proof (cases "self_rolled_back W s")
      case True
      then have "check_for_newer_version pm r =
          Err (WriteConflict s (w_start_ts w) s raw (tp_primary (pm_txn_props pm)) SelfRolledBack)"
        using loop self pm by (simp add: write_conflict_error_def)
      then show ?thesis unfolding if_P [OF True] by blast
    next
      case no: False
      then have new: "newer_record W s" "s < c" using True newer_record_iff [OF latest] by auto
      then have "check_for_newer_version pm r =
          Err (WriteConflict s (w_start_ts w) c raw (tp_primary (pm_txn_props pm)) Optimistic)"
        using loop no pm by (simp add: write_conflict_error_def check_newer_record_def Let_def)
      with latest show ?thesis unfolding if_not_P [OF no] if_P [OF new(1)] by blast
    qed
  next
    case False
    then have le: "c \<le> s" using newer_record_iff [OF latest, of s] by (simp add: not_less)
    have rec: "check_for_newer_version pm r =
        rbind (check_data_constraint r (pm_should_not_exist pm) w c (from_raw raw)) (\<lambda>_. Ok (Some (w, c), ?pm))"
      using loop False le pm by (cases "check_data_constraint r (pm_should_not_exist pm) w c (from_raw raw)")
        (auto simp: check_newer_record_def Let_def)
    have hint: "hint_right W s lc" using lc(2,3) le by (auto simp: hint_right_def)
    have con: "(\<exists>t p. latest_data W ts_max t p \<and> w_type p = WT_Put \<and>
        check_data_constraint r (pm_should_not_exist pm) w c (from_raw raw) =
          (if pm_should_not_exist pm then Err (AlreadyExist raw (w_start_ts p)) else Ok ())) \<or>
      (\<forall>t p. latest_data W ts_max t p \<longrightarrow> w_type p \<noteq> WT_Put) \<and>
        check_data_constraint r (pm_should_not_exist pm) w c (from_raw raw) = Ok ()"
      by (rule check_data_constraint_ok [OF wf W _ latest]) (use ok s in simp)
    show ?thesis
    proof (cases "pm_should_not_exist pm \<and> put_exists W")
      case True
      then have "\<exists>t. check_data_constraint r (pm_should_not_exist pm) w c (from_raw raw) = Err (AlreadyExist raw t)"
        using con unfolding put_exists_def by auto
      then show ?thesis using False True rec by auto
    next
      case no: False
      then have "check_data_constraint r (pm_should_not_exist pm) w c (from_raw raw) = Ok ()"
        using con unfolding put_exists_def by auto
      then have "check_for_newer_version pm r = Ok (Some (w, c), ?pm)" using rec by simp
      with False no hint latest show ?thesis by auto
    qed
  qed
next
  case 2
  note none = 2(2) [folded W]
  have "\<not> self_rolled_back W s" "\<not> newer_record W s" "\<not> put_exists W"
    using none by (auto simp: self_rolled_back_def newer_record_def put_exists_def is_latest_def latest_data_def)
  moreover have "check_for_newer_version pm r = Ok (None, pm\<lparr>pm_last_change := LC_NotExist\<rparr>)"
    unfolding check_for_newer_version_def using 2(1) by (subst check_newer_loop.simps) (simp add: pm)
  moreover have "hint_right W s LC_NotExist"
    using none by (auto simp: hint_right_def wf_last_change_def last_change_right_def change_below_def)
  ultimately show ?case using none by fastforce
qed

section \<open>The lock a prewrite writes\<close>

definition old_value_of :: "write \<Rightarrow> old_value" where
  "old_value_of w = (case w_short_value w of Some value \<Rightarrow> OV_Value value | None \<Rightarrow> OV_ValueTimeStamp (w_start_ts w))"

text \<open>The old value a change data capture is given is the value visible at the start timestamp.\<close>

definition old_value_right :: "(TimeStamp \<Rightarrow> write option) \<Rightarrow> TimeStamp \<Rightarrow> old_value \<Rightarrow> bool" where
  "old_value_right W ts old \<longleftrightarrow>
     (\<exists>res. visible_put W ts res \<and> old = (case res of None \<Rightarrow> OV_None | Some (w, _) \<Rightarrow> old_value_of w))"

lemma get_old_value_ok:
  assumes wf: "wf_store (r_engine r)" and W: "W = write_at (r_engine r) (from_raw raw)" and ok: "checkable W s"
    and prev: "case prev of None \<Rightarrow> \<forall>c. W c = None | Some (w, c) \<Rightarrow> is_latest W ts_max c w \<and> c \<le> s"
  shows "\<exists>old. get_old_value r (from_raw raw) s True (map_option fst prev) = Ok old \<and> old_value_right W s old"
proof (cases prev)
  case None
  then have "visible_put W s None" using prev by (auto simp: visible_put_def latest_data_def)
  then show ?thesis using None by (auto simp: get_old_value_def old_value_right_def Let_def intro: exI [of _ None])
next
  case (Some wc)
  then obtain w c where w: "prev = Some (w, c)" "is_latest W ts_max c w" "c \<le> s" using prev by (cases wc) auto
  have fence: "check_gc_fence_as_latest_version w s"
    using ok fence_free_latest [OF _ w(2), of "Some s"] by (auto simp: checkable_def gc_fence_passed_def)
  show ?thesis
  proof (cases "is_data w")
    case True
    have "latest_data W s c w"
      using latest_is_latest_data [OF w(2) True] newest_latest_data [OF w(2,3)] by simp
    then have "visible_put W s (if w_type w = WT_Put then Some (w, c) else None)" by (rule visible_putI_data)
    moreover have "get_old_value r (from_raw raw) s True (map_option fst prev) =
        Ok (if w_type w = WT_Put then old_value_of w else OV_None)"
      using w(1) fence True by (auto simp: get_old_value_def is_data_def old_value_of_def Let_def)
    ultimately show ?thesis
      unfolding old_value_right_def by (cases "w_type w = WT_Put") fastforce+
  next
    case False
    obtain res where res: "get_write_with_commit_ts r (from_raw raw) s (Some s) = Ok res" "visible_put W s res"
      using get_write_with_commit_ts_ok [OF wf W] ok newest_fence_free [OF _ w(2,3)] unfolding checkable_def by metis
    have "get_old_value r (from_raw raw) s True (map_option fst prev) =
        Ok (case res of None \<Rightarrow> OV_None | Some (w, _) \<Rightarrow> old_value_of w)"
      using w(1) fence False res(1)
      by (cases res) (auto simp: get_old_value_def get_write_def is_data_def old_value_of_def Let_def split: option.split)
    with res(2) show ?thesis by (auto simp: old_value_right_def)
  qed
qed

lemma prewrite_lock_simps [simp]:
  "l_type (prewrite_lock env pm tp st g) = tp" "l_ts (prewrite_lock env pm tp st g) = pm_start_ts pm"
  "l_primary (prewrite_lock env pm tp st g) = tp_primary (pm_txn_props pm)"
  "l_min_commit_ts (prewrite_lock env pm tp st g) = pm_min_commit_ts pm"
  "l_rollback_ts (prewrite_lock env pm tp st g) = []"
  "l_generation (prewrite_lock env pm tp st g) = g"
  "l_use_async_commit (prewrite_lock env pm tp st g) \<longleftrightarrow> pm_secondary_keys pm \<noteq> None"
  "l_secondaries (prewrite_lock env pm tp st g) = (case pm_secondary_keys pm of Some ks \<Rightarrow> ks | None \<Rightarrow> [])"
  "l_use_one_pc (prewrite_lock env pm tp st g) \<longleftrightarrow>
     pm_secondary_keys pm = None \<and> try_one_pc (tp_commit_kind (pm_txn_props pm))"
  "l_last_change (prewrite_lock env pm tp st g) =
     (if env_last_change env \<and> tp = LT_Lock then pm_last_change pm else LC_Unknown)"
  "l_short_value (prewrite_lock env pm tp st g) =
     (case pm_value pm of Some v \<Rightarrow> if is_short_value v then Some v else None | None \<Rightarrow> None)"
  by (auto simp: prewrite_lock_def lock_new_def lock_with_generation_def lock_set_txn_source_def
      lock_set_last_change_def Let_def split: option.splits lock_status.splits)

lemma wf_prewrite_lock:
  assumes "length (tp_primary (pm_txn_props pm)) < 2 ^ 64" "wf_last_change (pm_last_change pm)"
    and "pm_secondary_keys pm = None \<longrightarrow> \<not> try_one_pc (tp_commit_kind (pm_txn_props pm))"
    and "\<forall>ks. pm_secondary_keys pm = Some ks \<longrightarrow> length ks < 2 ^ 64 \<and> list_all (\<lambda>k. length k < 2 ^ 64) ks"
  shows "wf_lock (prewrite_lock env pm tp st g)"
  using assms by (auto simp: wf_lock_def ISIZE_MAX_def wf_last_change_def split: option.splits)

text \<open>The updates a prewrite stands for: a value too long for the lock, and the lock.\<close>

definition prewrite_ops :: "prewrite_mutation \<Rightarrow> lock \<Rightarrow> store_op list" where
  "prewrite_ops pm l =
     (case pm_value pm of
        Some v \<Rightarrow> if is_short_value v then [] else [PutData (pm_key pm) (pm_start_ts pm) v]
      | None \<Rightarrow> []) @ [PutLock (pm_key pm) l]"

lemma put_long_value_adds:
  "txn_adds txn (case pm_value pm of
        Some v \<Rightarrow> if is_short_value v then [] else [PutData (pm_key pm) (pm_start_ts pm) v]
      | None \<Rightarrow> []) (put_long_value pm txn)"
  using put_value_adds [of txn "pm_key pm" "pm_start_ts pm"] by (auto simp: put_long_value_def split: option.split)

lemma write_lock_2pc:
  assumes "pm_key pm = from_raw raw" "pm_lock_type pm = Some tp" "pm_secondary_keys pm = None"
    "tp_commit_kind (pm_txn_props pm) = TwoPc"
  obtains txn' where "write_lock env pm st txn is_new g = (Ok ts_zero, txn')"
    "txn_adds txn (prewrite_ops pm (prewrite_lock env pm tp st g)) txn'"
proof -
  obtain txn' where put: "put_lock (pm_key pm) (prewrite_lock env pm tp st g) is_new (put_long_value pm txn) = Ok txn'"
    "txn_adds (put_long_value pm txn) [PutLock (pm_key pm) (prewrite_lock env pm tp st g)] txn'"
    using put_lock_adds [OF assms(1)] by blast
  have "write_lock env pm st txn is_new g = (Ok ts_zero, txn')"
    using assms put(1) by (simp add: write_lock_def put_prewrite_lock_def Let_def)
  moreover have "txn_adds txn (prewrite_ops pm (prewrite_lock env pm tp st g)) txn'"
    unfolding prewrite_ops_def by (rule txn_adds_trans [OF put_long_value_adds put(2)])
  ultimately show thesis by (rule that)
qed

text \<open>A store in which a key is prewritten.\<close>

definition prewritten :: "engine \<Rightarrow> bytes \<Rightarrow> mutation \<Rightarrow> lock \<Rightarrow> engine \<Rightarrow> bool" where
  "prewritten e raw m l e' \<longleftrightarrow> wf_store e' \<and> write_at e' = write_at e \<and>
     lock_at e' = (lock_at e)(from_raw raw \<mapsto> l) \<and> lock_type_from_mutation m = Some (l_type l) \<and>
     (\<forall>v. snd (into_key_value m) = Some v \<longrightarrow> lock_value e' raw l v) \<and>
     (\<forall>k t. (k, t) \<noteq> (from_raw raw, l_ts l) \<longrightarrow> data_at e' k t = data_at e k t)"

lemma prewrite_ops_store:
  assumes wf: "wf_store e" "wf_lock l" and pm: "pm_key pm = from_raw raw" "pm_value pm = snd (into_key_value m)"
    and l: "lock_type_from_mutation m = Some (l_type l)" "l_ts l = pm_start_ts pm"
    and sv: "l_short_value l = (case pm_value pm of Some v \<Rightarrow> if is_short_value v then Some v else None | None \<Rightarrow> None)"
    and mods: "t_modifies txn' = map op_modify (prewrite_ops pm l)" "t_locks_for_1pc txn' = []"
  obtains e' where "apply_txn e txn' = Ok e'" "prewritten e raw m l e'"
proof -
  let ?ops = "prewrite_ops pm l"
  have "list_all wf_op ?ops" using pm(1) wf(2) by (auto simp: prewrite_ops_def split: option.split)
  then obtain e' where e': "write_modifies e (map op_modify ?ops) = (Ok e' :: engine mvcc_result)" "wf_store e'"
    "write_at e' = ops_write ?ops (write_at e)" "lock_at e' = ops_lock ?ops (lock_at e)"
    "data_at e' = ops_data ?ops (data_at e)" using ops_refine [OF wf(1)] by metis
  have "apply_txn e txn' = Ok e'" using e'(1) mods by (simp add: apply_txn_def into_modifies_def)
  moreover have "write_at e' = write_at e" "lock_at e' = (lock_at e)(from_raw raw \<mapsto> l)"
    using e'(3,4) pm(1) by (auto simp: prewrite_ops_def split: option.splits if_splits)
  moreover have "data_at e' = (case pm_value pm of
      Some v \<Rightarrow> if is_short_value v then data_at e
        else (data_at e)(from_raw raw := (data_at e (from_raw raw))(pm_start_ts pm \<mapsto> v))
    | None \<Rightarrow> data_at e)"
    using e'(5) pm(1) by (auto simp: prewrite_ops_def split: option.split)
  ultimately show thesis
    using e'(2) l pm(2) sv
    by (intro that [of e']) (auto simp: prewritten_def lock_value_def split: option.splits if_splits)
qed

section \<open>Optimistic prewrite\<close>

text \<open>The fields of the mutation as it enters the checks.\<close>

definition mutation_start ::
    "prewrite_mutation \<Rightarrow> mutation \<Rightarrow> bytes list option \<Rightarrow> pessimistic_action \<Rightarrow> transaction_properties \<Rightarrow> bool" where
  "mutation_start pm m sk act p \<longleftrightarrow>
     pm_key pm = mutation_key m \<and> pm_value pm = snd (into_key_value m) \<and>
     pm_mutation_type pm = mutation_type_of m \<and> pm_secondary_keys pm = sk \<and>
     pm_min_commit_ts pm = tp_min_commit_ts p \<and> pm_pessimistic_action pm = act \<and>
     pm_lock_type pm = lock_type_from_mutation m \<and> pm_should_not_exist pm = should_not_exists m \<and>
     pm_should_not_write pm = should_not_write m \<and> pm_assertion pm = get_assertion m \<and> pm_txn_props pm = p"

lemma from_mutation_ok:
  assumes "\<not> (txn_is_pessimistic (tp_kind p) \<and> should_not_write m)"
  obtains pm where "from_mutation m sk act p = Ok pm" "mutation_start pm m sk act p"
  using assms that by (cases m) (auto simp: from_mutation_def mutation_start_def)

lemma prewrite_checked_optimistic:
  assumes wf: "wf_store (sr_engine r)" and W: "W = write_at (sr_engine r) (from_raw raw)"
    and ok: "checkable W s" and pm: "mutation_start pm m sk act p" and m: "mutation_key m = from_raw raw" "\<not> should_not_write m"
    and p: "tp_start_ts p = s" "tp_kind p = OptimisticTxn False" "tp_assertion_level p = LevelOff"
    and s: "sr_start_ts r = s" and act: "act \<noteq> DoPessimisticCheck"
  shows "if self_rolled_back W s \<or> newer_record W s
    then \<exists>t c reason. prewrite_checked env txn r pm LS_None False act 0 =
      (Err (WriteConflict s t c raw (tp_primary p) reason), txn)
    else if should_not_exists m \<and> put_exists W
    then \<exists>t. prewrite_checked env txn r pm LS_None False act 0 = (Err (AlreadyExist raw t), txn)
    else \<exists>lc old. prewrite_checked env txn r pm LS_None False act 0 =
        (case write_lock env (pm\<lparr>pm_last_change := lc\<rparr>) LS_None txn True 0 of
           (res, txn) \<Rightarrow> lift_result res txn (\<lambda>ts. (Ok (ts, old), txn))) \<and> hint_right W s lc \<and>
      (tp_need_old_value p \<and> mutation_type_of m \<in> {MT_Put, MT_Delete} \<longrightarrow> old_value_right W s old)"
proof -
  have pm': "pm_key pm = from_raw raw" "pm_kind pm = OptimisticTxn False" "pm_start_ts pm = s"
    "pm_should_not_exist pm = should_not_exists m" "pm_txn_props pm = p" "\<not> pm_should_not_write pm"
    "pm_mutation_type pm = mutation_type_of m"
    using pm m p by (simp_all add: mutation_start_def)
  have skip: "\<not> skip_constraint_check pm" using pm'(2) by (simp add: skip_constraint_check_def)
  have noassert: "check_assertion pm r x b = Ok (None, False)" if "pm_txn_props pm = p" for pm x b
    using p(3) that by (simp add: check_assertion_def)
  note newer = check_newer_optimistic [OF wf W ok pm'(1-3) s, unfolded pm'(4,5)]
  show ?thesis
  proof (cases "self_rolled_back W s \<or> newer_record W s")
    case True
    then have "\<exists>t c reason. check_for_newer_version pm r = Err (WriteConflict s t c raw (tp_primary p) reason)"
      using newer by (auto split: if_splits)
    with True show ?thesis
      using skip by (auto simp: prewrite_checked_def prewrite_prev_write_def Let_def)
  next
    case False
    show ?thesis
    proof (cases "should_not_exists m \<and> put_exists W")
      case True
      then have "\<exists>t. check_for_newer_version pm r = Err (AlreadyExist raw t)" using False newer by auto
      with False True show ?thesis
        using skip by (auto simp: prewrite_checked_def prewrite_prev_write_def Let_def)
    next
      case no: False
      obtain prev lc where prev: "check_for_newer_version pm r = Ok (prev, pm\<lparr>pm_last_change := lc\<rparr>)"
        "hint_right W s lc" "case prev of None \<Rightarrow> \<forall>c. W c = None | Some (w, c) \<Rightarrow> is_latest W ts_max c w"
        using newer False no by auto
      let ?pm = "pm\<lparr>pm_last_change := lc\<rparr>"
      have le: "case prev of None \<Rightarrow> \<forall>c. W c = None | Some (w, c) \<Rightarrow> is_latest W ts_max c w \<and> c \<le> s"
        using prev(3) False newer_record_iff by (fastforce split: option.splits simp: not_less)
      have pw: "prewrite_prev_write pm r True = Ok (map_option fst prev, True, ?pm)"
        using prev(1) skip noassert [of ?pm] pm'(5) by (simp add: prewrite_prev_write_def)
      have skip': "\<not> skip_constraint_check ?pm" using pm'(2) by (simp add: skip_constraint_check_def)
      obtain old where old: "get_old_value (sr_reader r) (from_raw raw) s True (map_option fst prev) = Ok old" "old_value_right W s old"
        using get_old_value_ok [OF wf W ok le] by blast
      define old' where "old' = (if tp_need_old_value p \<and> mutation_type_of m \<in> {MT_Put, MT_Delete, MT_Insert}
          then if mutation_type_of m = MT_Insert then OV_None else old else OV_Unspecified)"
      have "prewrite_old_value ?pm r True (map_option fst prev) = Ok old'"
        using pm' skip' old(1) by (auto simp: prewrite_old_value_def sr_get_old_value_def old'_def)
      then have "prewrite_checked env txn r pm LS_None False act 0 =
          (case write_lock env ?pm LS_None txn True 0 of
             (res, txn) \<Rightarrow> lift_result res txn (\<lambda>ts. (Ok (ts, old'), txn)))"
        using pw pm'(6) act by (simp add: prewrite_checked_def Let_def)
      moreover have "tp_need_old_value p \<and> mutation_type_of m \<in> {MT_Put, MT_Delete} \<longrightarrow> old_value_right W s old'"
        using old(2) by (auto simp: old'_def)
      ultimately show ?thesis using False no prev(2) by auto
    qed
  qed
qed

text \<open>The maximal timestamp is pushed first when the mutation asks that the key does not exist.\<close>

definition start_txn :: "env \<Rightarrow> TimeStamp \<Rightarrow> mutation \<Rightarrow> mvcc_txn \<Rightarrow> mvcc_txn \<Rightarrow> bool" where
  "start_txn env s m txn txn\<^sub>0 \<longleftrightarrow>
     (if should_not_exists m then txn_update_max_ts env s txn else (Ok (), txn)) = (Ok (), txn\<^sub>0)"

lemma start_txn_fields:
  assumes "start_txn env s m txn txn\<^sub>0"
  shows "t_modifies txn\<^sub>0 = t_modifies txn" "t_locks_for_1pc txn\<^sub>0 = t_locks_for_1pc txn"
    "t_start_ts txn\<^sub>0 = t_start_ts txn" "t_guards txn\<^sub>0 = t_guards txn" "t_write_size txn\<^sub>0 = t_write_size txn"
    "cm_max_ts (t_cm txn) \<le> cm_max_ts (t_cm txn\<^sub>0)" "cm_lock_table (t_cm txn\<^sub>0) = cm_lock_table (t_cm txn)"
  using assms update_max_ts_cases [of "env_now env" "env_tso env" s "t_cm txn"]
  by (auto simp: start_txn_def txn_update_max_ts_def split: if_splits prod.splits)

lemma prewrite_start:
  assumes "start_txn env s m txn txn\<^sub>0" "tp_start_ts p = s" "tp_kind p = OptimisticTxn False"
  obtains pm where "mutation_start pm m sk act p"
    "prewrite env txn r p m sk act ex =
       lift_result (prewrite_lock_status pm r act ex 0) txn\<^sub>0 (\<lambda>(lock_status, lock_amended, pm).
         case lock_status of
           LS_Locked ts \<Rightarrow> (Ok (ts, OV_Unspecified), txn\<^sub>0)
         | _ \<Rightarrow> prewrite_checked env txn\<^sub>0 r pm lock_status lock_amended act 0)"
proof -
  obtain pm where pm: "from_mutation m sk act p = Ok pm" "mutation_start pm m sk act p"
    using from_mutation_ok [of p m] assms(3) by auto
  have "(if pm_should_not_exist pm then txn_update_max_ts env s txn else (Ok (), txn)) = (Ok (), txn\<^sub>0)"
    using assms(1) pm(2) by (simp add: start_txn_def mutation_start_def)
  then have "prewrite env txn r p m sk act ex =
       lift_result (prewrite_lock_status pm r act ex 0) txn\<^sub>0 (\<lambda>(lock_status, lock_amended, pm).
         case lock_status of
           LS_Locked ts \<Rightarrow> (Ok (ts, OV_Unspecified), txn\<^sub>0)
         | _ \<Rightarrow> prewrite_checked env txn\<^sub>0 r pm lock_status lock_amended act 0)"
    using pm(1) assms(2) by (simp only: prewrite_def prewrite_with_generation_def lift_result.simps) simp
  then show thesis by (rule that [OF pm(2)])
qed

lemma locked_status:
  assumes ok: "key_ok e raw" and pm: "mutation_start pm m sk act p" and m: "mutation_key m = from_raw raw"
    and p: "tp_start_ts p = s" "tp_kind p = OptimisticTxn False" and act: "act \<noteq> DoPessimisticCheck"
  shows "prewrite_lock_status pm (reader_at e s) act None 0 =
    (case lock_at e (from_raw raw) of
       None \<Rightarrow> Ok (LS_None, False, pm)
     | Some l \<Rightarrow>
         if l_ts l \<noteq> s then Err (KeyIsLocked (into_lock_info l raw))
         else if is_pessimistic_lock l then Err (LockTypeNotMatch s raw True)
         else if l_generation l > 0 \<and> should_not_exists m \<and> l_type l = LT_Put then Err (AlreadyExist raw s)
         else Ok (LS_Locked (if l_use_async_commit l then l_min_commit_ts l else ts_zero), False,
                  pm\<lparr>pm_last_change := l_last_change l\<rparr>))"
  using sr_load_lock_ok [OF key_ok_clean [OF ok, of s], of "from_raw raw"] pm m p act
  by (auto simp: prewrite_lock_status_def check_lock_def pm_lock_info_def mutation_start_def Let_def
      split: option.split)

text \<open>What an optimistic prewrite needs to know of the request.\<close>

definition optimistic_request ::
    "transaction_properties \<Rightarrow> TimeStamp \<Rightarrow> mutation \<Rightarrow> bytes \<Rightarrow> bool" where
  "optimistic_request p s m raw \<longleftrightarrow>
     tp_start_ts p = s \<and> tp_kind p = OptimisticTxn False \<and> tp_assertion_level p = LevelOff \<and>
     length (tp_primary p) < 2 ^ 64 \<and> mutation_key m = from_raw raw \<and> \<not> should_not_write m"

definition prewrite_allowed :: "(TimeStamp \<Rightarrow> write option) \<Rightarrow> TimeStamp \<Rightarrow> mutation \<Rightarrow> bool" where
  "prewrite_allowed W s m \<longleftrightarrow>
     \<not> self_rolled_back W s \<and> \<not> newer_record W s \<and> \<not> (should_not_exists m \<and> put_exists W)"

lemma lock_type_exists: "\<not> should_not_write m \<Longrightarrow> \<exists>tp. lock_type_from_mutation m = Some tp"
  by (cases m) auto

lemma prewrite_to_write_lock:
  assumes ok: "key_ok e raw" and chk: "checkable (write_at e (from_raw raw)) s"
    and req: "optimistic_request p s m raw" and act: "act \<noteq> DoPessimisticCheck"
    and start: "start_txn env s m (txn_new s cm) txn\<^sub>0"
    and free: "lock_at e (from_raw raw) = None" "prewrite_allowed (write_at e (from_raw raw)) s m"
  obtains pm old where "mutation_start pm m sk act p" "hint_right (write_at e (from_raw raw)) s (pm_last_change pm)"
    "prewrite env (txn_new s cm) (reader_at e s) p m sk act None =
       (case write_lock env pm LS_None txn\<^sub>0 True 0 of
          (res, txn) \<Rightarrow> lift_result res txn (\<lambda>ts. (Ok (ts, old), txn)))"
    "tp_need_old_value p \<and> mutation_type_of m \<in> {MT_Put, MT_Delete} \<longrightarrow> old_value_right (write_at e (from_raw raw)) s old"
proof -
  let ?W = "write_at e (from_raw raw)"
  have p: "tp_start_ts p = s" "tp_kind p = OptimisticTxn False" "tp_assertion_level p = LevelOff"
    "mutation_key m = from_raw raw" "\<not> should_not_write m"
    using req by (simp_all add: optimistic_request_def)
  obtain pm where pm: "mutation_start pm m sk act p"
    "prewrite env (txn_new s cm) (reader_at e s) p m sk act None =
       lift_result (prewrite_lock_status pm (reader_at e s) act None 0) txn\<^sub>0 (\<lambda>(lock_status, lock_amended, pm).
         case lock_status of
           LS_Locked ts \<Rightarrow> (Ok (ts, OV_Unspecified), txn\<^sub>0)
         | _ \<Rightarrow> prewrite_checked env txn\<^sub>0 (reader_at e s) pm lock_status lock_amended act 0)"
    by (rule prewrite_start [OF start p(1,2)])
  have status: "prewrite_lock_status pm (reader_at e s) act None 0 = Ok (LS_None, False, pm)"
    using locked_status [OF ok pm(1) p(4,1,2) act] free(1) by simp
  have wf: "wf_store (sr_engine (reader_at e s))" "?W = write_at (sr_engine (reader_at e s)) (from_raw raw)"
    "sr_start_ts (reader_at e s) = s" using key_ok_wf [OF ok] by simp_all
  have no: "\<not> (self_rolled_back ?W s \<or> newer_record ?W s)" "\<not> (should_not_exists m \<and> put_exists ?W)"
    using free(2) by (auto simp: prewrite_allowed_def)
  note allowed = prewrite_checked_optimistic
    [OF wf(1,2) chk pm(1) p(4,5,1,2,3) wf(3) act, of env txn\<^sub>0, unfolded if_not_P [OF no(1)] if_not_P [OF no(2)]]
  obtain lc old where chkd: "prewrite_checked env txn\<^sub>0 (reader_at e s) pm LS_None False act 0 =
        (case write_lock env (pm\<lparr>pm_last_change := lc\<rparr>) LS_None txn\<^sub>0 True 0 of
           (res, txn) \<Rightarrow> lift_result res txn (\<lambda>ts. (Ok (ts, old), txn)))" "hint_right ?W s lc"
      "tp_need_old_value p \<and> mutation_type_of m \<in> {MT_Put, MT_Delete} \<longrightarrow> old_value_right ?W s old"
    using allowed by blast
  have "prewrite env (txn_new s cm) (reader_at e s) p m sk act None =
       (case write_lock env (pm\<lparr>pm_last_change := lc\<rparr>) LS_None txn\<^sub>0 True 0 of
          (res, txn) \<Rightarrow> lift_result res txn (\<lambda>ts. (Ok (ts, old), txn)))"
    unfolding pm(2) status using chkd(1) by simp
  then show thesis
    using chkd(2,3) pm(1) by (intro that [of "pm\<lparr>pm_last_change := lc\<rparr>" old]) (simp_all add: mutation_start_def)
qed

lemma prewrite_2pc_ok:
  assumes ok: "key_ok e raw" and chk: "checkable (write_at e (from_raw raw)) s"
    and req: "optimistic_request p s m raw" and "tp_commit_kind p = TwoPc" "act \<noteq> DoPessimisticCheck"
    and start: "start_txn env s m (txn_new s cm) txn\<^sub>0"
    and free: "lock_at e (from_raw raw) = None" "prewrite_allowed (write_at e (from_raw raw)) s m"
  obtains old l txn' e' where
    "prewrite env (txn_new s cm) (reader_at e s) p m None act None = (Ok (0, old), txn')"
    "apply_txn e txn' = Ok e'" "prewritten e raw m l e'" "l_ts l = s" "l_min_commit_ts l = tp_min_commit_ts p"
    "l_last_change l = LC_Unknown \<or> hint_right (write_at e (from_raw raw)) s (l_last_change l)"
    "tp_need_old_value p \<and> mutation_type_of m \<in> {MT_Put, MT_Delete} \<longrightarrow> old_value_right (write_at e (from_raw raw)) s old"
proof -
  have p: "tp_start_ts p = s" "mutation_key m = from_raw raw" "\<not> should_not_write m" "length (tp_primary p) < 2 ^ 64"
    using req by (simp_all add: optimistic_request_def)
  obtain pm old where pm: "mutation_start pm m None act p" "hint_right (write_at e (from_raw raw)) s (pm_last_change pm)"
    "prewrite env (txn_new s cm) (reader_at e s) p m None act None =
       (case write_lock env pm LS_None txn\<^sub>0 True 0 of
          (res, txn) \<Rightarrow> lift_result res txn (\<lambda>ts. (Ok (ts, old), txn)))"
    "tp_need_old_value p \<and> mutation_type_of m \<in> {MT_Put, MT_Delete} \<longrightarrow> old_value_right (write_at e (from_raw raw)) s old"
    by (rule prewrite_to_write_lock [OF ok chk req assms(5) start free])
  obtain tp where tp: "lock_type_from_mutation m = Some tp" using lock_type_exists [OF p(3)] by blast
  have pm': "pm_key pm = from_raw raw" "pm_lock_type pm = Some tp" "pm_secondary_keys pm = None"
    "tp_commit_kind (pm_txn_props pm) = TwoPc" "pm_value pm = snd (into_key_value m)"
    using pm(1) p(2) tp assms(4) by (auto simp: mutation_start_def)
  let ?l = "prewrite_lock env pm tp LS_None 0"
  obtain txn' where w: "write_lock env pm LS_None txn\<^sub>0 True 0 = (Ok ts_zero, txn')"
    "txn_adds txn\<^sub>0 (prewrite_ops pm ?l) txn'" by (rule write_lock_2pc [OF pm'(1-4)])
  have wl: "wf_lock ?l"
    using p(4) pm(1,2) pm'(3,4) by (intro wf_prewrite_lock) (auto simp: mutation_start_def hint_right_def)
  have mods: "t_modifies txn' = map op_modify (prewrite_ops pm ?l)" "t_locks_for_1pc txn' = []"
    using w(2) start_txn_fields [OF start] by (simp_all add: txn_adds_def)
  obtain e' where "apply_txn e txn' = Ok e'" "prewritten e raw m ?l e'"
    by (rule prewrite_ops_store [OF key_ok_wf [OF ok] wl pm'(1,5) _ _ _ mods]) (use tp in simp_all)
  moreover have "prewrite env (txn_new s cm) (reader_at e s) p m None act None = (Ok (0, old), txn')"
    unfolding pm(3) w(1) by (simp add: ts_zero_def)
  ultimately show thesis
    using pm(1,2,4) p(1) by (intro that [of old txn' e' ?l]) (auto simp: mutation_start_def)
qed

lemma prewritten_key_ok:
  assumes "key_ok e raw" "prewritten e raw m l e'" "no_record (write_at e (from_raw raw)) (l_ts l)"
  shows "key_ok e' raw"
  using assms no_recordD [OF assms(3)] by (auto simp: key_ok_def prewritten_def committed_at_def)

lemma prewrite_refused:
  assumes ok: "key_ok e raw" and chk: "checkable (write_at e (from_raw raw)) s"
    and req: "optimistic_request p s m raw" and act: "act \<noteq> DoPessimisticCheck"
    and start: "start_txn env s m (txn_new s cm) txn\<^sub>0" and free: "lock_at e (from_raw raw) = None"
  shows "self_rolled_back (write_at e (from_raw raw)) s \<or> newer_record (write_at e (from_raw raw)) s \<Longrightarrow>
      \<exists>t c reason. prewrite env (txn_new s cm) (reader_at e s) p m sk act None =
        (Err (WriteConflict s t c raw (tp_primary p) reason), txn\<^sub>0)"
    and "\<not> self_rolled_back (write_at e (from_raw raw)) s \<Longrightarrow> \<not> newer_record (write_at e (from_raw raw)) s \<Longrightarrow>
      should_not_exists m \<Longrightarrow> put_exists (write_at e (from_raw raw)) \<Longrightarrow>
      \<exists>t. prewrite env (txn_new s cm) (reader_at e s) p m sk act None = (Err (AlreadyExist raw t), txn\<^sub>0)"
proof -
  have p: "tp_start_ts p = s" "tp_kind p = OptimisticTxn False" "tp_assertion_level p = LevelOff"
    "mutation_key m = from_raw raw" "\<not> should_not_write m"
    using req by (simp_all add: optimistic_request_def)
  obtain pm where pm: "mutation_start pm m sk act p"
    "prewrite env (txn_new s cm) (reader_at e s) p m sk act None =
       lift_result (prewrite_lock_status pm (reader_at e s) act None 0) txn\<^sub>0 (\<lambda>(lock_status, lock_amended, pm).
         case lock_status of
           LS_Locked ts \<Rightarrow> (Ok (ts, OV_Unspecified), txn\<^sub>0)
         | _ \<Rightarrow> prewrite_checked env txn\<^sub>0 (reader_at e s) pm lock_status lock_amended act 0)"
    by (rule prewrite_start [OF start p(1,2)])
  have checked: "prewrite env (txn_new s cm) (reader_at e s) p m sk act None =
      prewrite_checked env txn\<^sub>0 (reader_at e s) pm LS_None False act 0"
    unfolding pm(2) using locked_status [OF ok pm(1) p(4,1,2) act] free by simp
  have wf: "wf_store (sr_engine (reader_at e s))"
    "write_at e (from_raw raw) = write_at (sr_engine (reader_at e s)) (from_raw raw)" "sr_start_ts (reader_at e s) = s"
    using key_ok_wf [OF ok] by simp_all
  note cases = prewrite_checked_optimistic [OF wf(1,2) chk pm(1) p(4,5,1,2,3) wf(3) act, of env txn\<^sub>0]
  show "self_rolled_back (write_at e (from_raw raw)) s \<or> newer_record (write_at e (from_raw raw)) s \<Longrightarrow>
      \<exists>t c reason. prewrite env (txn_new s cm) (reader_at e s) p m sk act None =
        (Err (WriteConflict s t c raw (tp_primary p) reason), txn\<^sub>0)"
    unfolding checked using cases by simp
  show "\<not> self_rolled_back (write_at e (from_raw raw)) s \<Longrightarrow> \<not> newer_record (write_at e (from_raw raw)) s \<Longrightarrow>
      should_not_exists m \<Longrightarrow> put_exists (write_at e (from_raw raw)) \<Longrightarrow>
      \<exists>t. prewrite env (txn_new s cm) (reader_at e s) p m sk act None = (Err (AlreadyExist raw t), txn\<^sub>0)"
    unfolding checked using cases by simp
qed

lemma prewrite_locked:
  assumes ok: "key_ok e raw" and req: "optimistic_request p s m raw" and act: "act \<noteq> DoPessimisticCheck"
    and start: "start_txn env s m (txn_new s cm) txn\<^sub>0" and l: "lock_at e (from_raw raw) = Some l"
  shows "prewrite env (txn_new s cm) (reader_at e s) p m sk act None =
    (if l_ts l \<noteq> s then Err (KeyIsLocked (into_lock_info l raw))
     else if is_pessimistic_lock l then Err (LockTypeNotMatch s raw True)
     else if l_generation l > 0 \<and> should_not_exists m \<and> l_type l = LT_Put then Err (AlreadyExist raw s)
     else Ok (if l_use_async_commit l then l_min_commit_ts l else ts_zero, OV_Unspecified), txn\<^sub>0)"
proof -
  have p: "tp_start_ts p = s" "tp_kind p = OptimisticTxn False" "mutation_key m = from_raw raw"
    using req by (simp_all add: optimistic_request_def)
  obtain pm where pm: "mutation_start pm m sk act p"
    "prewrite env (txn_new s cm) (reader_at e s) p m sk act None =
       lift_result (prewrite_lock_status pm (reader_at e s) act None 0) txn\<^sub>0 (\<lambda>(lock_status, lock_amended, pm).
         case lock_status of
           LS_Locked ts \<Rightarrow> (Ok (ts, OV_Unspecified), txn\<^sub>0)
         | _ \<Rightarrow> prewrite_checked env txn\<^sub>0 (reader_at e s) pm lock_status lock_amended act 0)"
    by (rule prewrite_start [OF start p(1,2)])
  show ?thesis unfolding pm(2) locked_status [OF ok pm(1) p(3,1,2) act] using l by simp
qed

text \<open>A recorded rollback is the newest record of the key, or there is a newer one.\<close>

lemma recorded_conflicts:
  assumes "rollback_recorded W s"
  shows "self_rolled_back W s \<or> newer_record W s"
proof (cases "newer_record W s")
  case False
  obtain w where "W s = Some w" "w_type w = WT_Rollback \<or> w_has_overlapped_rollback w"
    using assms by (auto simp: rollback_recorded_def)
  moreover have "is_latest W ts_max s w" using calculation(1) False by (auto simp: is_latest_def newer_record_def)
  ultimately show ?thesis by (auto simp: self_rolled_back_def)
qed simp

lemma allowed_no_record:
  assumes inv: "key_inv W" and "\<not> self_rolled_back W s" "\<not> newer_record W s"
  shows "no_record W s"
  unfolding no_record_def
proof (intro allI impI notI)
  fix c w
  assume w: "W c = Some w" "w_start_ts w = s"
  show False
  proof (cases "w_type w = WT_Rollback")
    case True
    then have "rollback_recorded W s" using key_invD [OF inv w(1)] w by (auto simp: rollback_recorded_def)
    with recorded_conflicts assms(2,3) show False by blast
  next
    case False
    then have "s < c" using key_invD [OF inv w(1)] w(2) by simp
    with w(1) assms(3) show False by (auto simp: newer_record_def)
  qed
qed

lemma prewrite_allowed_no_record:
  "key_ok e raw \<Longrightarrow> prewrite_allowed (write_at e (from_raw raw)) s m \<Longrightarrow> no_record (write_at e (from_raw raw)) s"
  using allowed_no_record [OF key_ok_inv] by (simp add: prewrite_allowed_def)

lemma prewritten_reads:
  assumes ok: "key_ok e raw" and pre: "prewritten e raw m l e'" and no: "no_record (write_at e (from_raw raw)) (l_ts l)"
  shows "reads e' raw' ts v \<longleftrightarrow> reads e raw' ts v"
proof -
  have "data_at e' (from_raw raw') (w_start_ts w) = data_at e (from_raw raw') (w_start_ts w)"
    if "write_at e (from_raw raw') c = Some w" for c w
    using pre that no_recordD [OF no] unfolding prewritten_def by (metis prod.inject)
  then show ?thesis
    using pre unfolding reads_def prewritten_def latest_data_def by (metis (no_types, lifting))
qed

lemma last_change_right_upd:
  assumes "d \<le> c"
  shows "last_change_right (W(c \<mapsto> w)) d lc \<longleftrightarrow> last_change_right W d lc"
proof -
  have "change_below (W(c \<mapsto> w)) d t p \<longleftrightarrow> change_below W d t p" for t p
    using assms by (auto simp: change_below_def)
  then show ?thesis using assms by (auto simp: last_change_right_def split: last_change.split)
qed

lemma last_change_ok_upd:
  assumes "last_change_ok W" "\<And>d p. W d = Some p \<Longrightarrow> d < c" "last_change_right W c (w_last_change w)"
  shows "last_change_ok (W(c \<mapsto> w))"
  using assms last_change_right_upd [of _ c W w] unfolding last_change_ok_def
  by (metis fun_upd_apply less_imp_le option.inject order_refl)

lemma commit_after_prewrite:
  assumes ok: "key_ok e raw" and lc: "last_change_ok (write_at e (from_raw raw))"
    and no: "no_record (write_at e (from_raw raw)) (l_ts l)"
    and below: "\<forall>d w. write_at e (from_raw raw) d = Some w \<longrightarrow> d < c"
    and pre: "prewritten e raw m l e\<^sub>1" and c: "l_min_commit_ts l \<le> c" "l_ts l < c"
    and hint: "last_change_right (write_at e (from_raw raw)) c (l_last_change l)"
  obtains e\<^sub>2 where "commit_store cm role c e\<^sub>1 (l_ts l) raw e\<^sub>2" "key_ok e\<^sub>2 raw"
    "last_change_ok (write_at e\<^sub>2 (from_raw raw))" "lock_at e\<^sub>2 (from_raw raw) = None"
    "\<And>ts v. reads e\<^sub>2 raw ts v \<longleftrightarrow>
      (if mutation_type_of m \<noteq> MT_Lock \<and> c \<le> ts then snd (into_key_value m) = Some v else reads e raw ts v)"
proof -
  let ?W = "write_at e (from_raw raw)"
  have ok\<^sub>1: "key_ok e\<^sub>1 raw" by (rule prewritten_key_ok [OF ok pre no])
  have e\<^sub>1: "write_at e\<^sub>1 = write_at e" "lock_at e\<^sub>1 (from_raw raw) = Some l"
    "lock_type_from_mutation m = Some (l_type l)" "\<And>v. snd (into_key_value m) = Some v \<Longrightarrow> lock_value e\<^sub>1 raw l v"
    using pre by (simp_all add: prewritten_def)
  have changes: "changes l \<longleftrightarrow> mutation_type_of m \<noteq> MT_Lock"
    using e\<^sub>1(3) by (cases m) (auto simp: changes_def)
  obtain tp where tp: "write_type_from_lock_type (l_type l) = Some tp" "tp \<noteq> WT_Rollback"
    using e\<^sub>1(3) by (cases m) auto
  from commit_write_ok [OF ok\<^sub>1 e\<^sub>1(2) refl c(1) tp(1), of cm role]
  obtain e\<^sub>2 where e\<^sub>2: "commit_store cm role c e\<^sub>1 (l_ts l) raw e\<^sub>2" "wf_store e\<^sub>2"
    "write_at e\<^sub>2 = (write_at e\<^sub>1)(from_raw raw := (write_at e\<^sub>1 (from_raw raw))(c \<mapsto> committed_write (l_ts l) l c tp))"
    "lock_at e\<^sub>2 = (lock_at e\<^sub>1)(from_raw raw := None)" "data_at e\<^sub>2 = data_at e\<^sub>1"
    by (auto simp: commit_store_def)
  have "key_ok e\<^sub>2 raw"
    by (rule commit_key_ok [OF ok\<^sub>1 _ c(2) e\<^sub>1(2) refl tp(2) e\<^sub>2(2,4,3)]) (use no e\<^sub>1(1) in simp)
  moreover have "last_change_ok (write_at e\<^sub>2 (from_raw raw))"
    unfolding e\<^sub>2(3) e\<^sub>1(1) fun_upd_same
    by (rule last_change_ok_upd [OF lc]) (use below hint in \<open>simp_all add: committed_write_def\<close>)
  moreover have "reads e\<^sub>2 raw ts v \<longleftrightarrow>
      (if mutation_type_of m \<noteq> MT_Lock \<and> c \<le> ts then snd (into_key_value m) = Some v else reads e raw ts v)" for ts v
  proof -
    have free: "\<forall>w. write_at e\<^sub>1 (from_raw raw) c = Some w \<longrightarrow> \<not> is_data w" using below e\<^sub>1(1) by auto
    have newest: "newest_change (write_at e\<^sub>1 (from_raw raw)) c ts \<longleftrightarrow> c \<le> ts"
      using below unfolding newest_change_def e\<^sub>1(1) by (metis less_asym)
    have "l_type l = LT_Put \<and> lock_value e\<^sub>1 raw l v \<longleftrightarrow> snd (into_key_value m) = Some v" if "changes l"
      using e\<^sub>1(3,4) that by (cases m) (auto simp: lock_value_def changes_def split: option.splits)
    then show ?thesis
      using reads_after_commit [OF tp(1) refl e\<^sub>2(3,5) free, of ts v] prewritten_reads [OF ok pre no, of raw ts v]
      unfolding newest changes by auto
  qed
  moreover have "lock_at e\<^sub>2 (from_raw raw) = None" using e\<^sub>2(4) by simp
  ultimately show thesis using e\<^sub>2(1) that by blast
qed

section \<open>Properties of prewrite\<close>

text \<open>
  C11: The prewrite of an optimistic transaction decides on the view of the store. A lock of another
  transaction is reported; a lock of its own makes the call a duplicate, which succeeds without effect
  and returns the lower bound of an async commit. A newer record, or a rollback of the transaction,
  is a write conflict; an insertion fails when the key has a value; no failed call modifies the store.
  Otherwise the lock, with its value, is the only change; the invariant of the key is kept; the hint
  in the lock points to the last change; and the old value returned is the one read at the start
  timestamp.
\<close>

theorem prewrite_refines:
  assumes "key_ok e raw" "checkable (write_at e (from_raw raw)) s" "optimistic_request p s m raw"
    and "tp_commit_kind p = TwoPc" "act \<noteq> DoPessimisticCheck" "start_txn env s m (txn_new s cm) txn\<^sub>0"
  shows "\<exists>res txn'. prewrite env (txn_new s cm) (reader_at e s) p m None act None = (res, txn') \<and>
    (case lock_at e (from_raw raw) of
       Some l \<Rightarrow> t_modifies txn' = [] \<and> res =
         (if l_ts l \<noteq> s then Err (KeyIsLocked (into_lock_info l raw))
          else if is_pessimistic_lock l then Err (LockTypeNotMatch s raw True)
          else if l_generation l > 0 \<and> should_not_exists m \<and> l_type l = LT_Put then Err (AlreadyExist raw s)
          else Ok (if l_use_async_commit l then l_min_commit_ts l else 0, OV_Unspecified))
     | None \<Rightarrow>
         if self_rolled_back (write_at e (from_raw raw)) s \<or> newer_record (write_at e (from_raw raw)) s
         then t_modifies txn' = [] \<and> (\<exists>t c reason. res = Err (WriteConflict s t c raw (tp_primary p) reason))
         else if should_not_exists m \<and> put_exists (write_at e (from_raw raw))
         then t_modifies txn' = [] \<and> (\<exists>t. res = Err (AlreadyExist raw t))
         else \<exists>old l e'. res = Ok (0, old) \<and> apply_txn e txn' = Ok e' \<and> prewritten e raw m l e' \<and> key_ok e' raw \<and>
           l_ts l = s \<and> l_min_commit_ts l = tp_min_commit_ts p \<and>
           (l_last_change l = LC_Unknown \<or> hint_right (write_at e (from_raw raw)) s (l_last_change l)) \<and>
           (tp_need_old_value p \<and> mutation_type_of m \<in> {MT_Put, MT_Delete} \<longrightarrow>
              old_value_right (write_at e (from_raw raw)) s old))"
proof (cases "lock_at e (from_raw raw)")
  case None
  let ?W = "write_at e (from_raw raw)"
  have mods: "t_modifies txn\<^sub>0 = []" using start_txn_fields(1) [OF assms(6)] by simp
  note refused = prewrite_refused [OF assms(1-3,5,6) None, of None]
  consider (conflict) "self_rolled_back ?W s \<or> newer_record ?W s"
    | (exists) "\<not> self_rolled_back ?W s" "\<not> newer_record ?W s" "should_not_exists m" "put_exists ?W"
    | (allowed) "prewrite_allowed ?W s m" by (auto simp: prewrite_allowed_def)
  then show ?thesis
  proof cases
    case conflict
    with refused(1) mods None show ?thesis by auto
  next
    case exists
    with refused(2) mods None show ?thesis by auto
  next
    case allowed
    obtain old l txn' e' where r: "prewrite env (txn_new s cm) (reader_at e s) p m None act None = (Ok (0, old), txn')"
      "apply_txn e txn' = Ok e'" "prewritten e raw m l e'" "l_ts l = s" "l_min_commit_ts l = tp_min_commit_ts p"
      "l_last_change l = LC_Unknown \<or> hint_right ?W s (l_last_change l)"
      "tp_need_old_value p \<and> mutation_type_of m \<in> {MT_Put, MT_Delete} \<longrightarrow> old_value_right ?W s old"
      by (rule prewrite_2pc_ok [OF assms None allowed])
    have "key_ok e' raw"
      using prewritten_key_ok [OF assms(1) r(3)] prewrite_allowed_no_record [OF assms(1) allowed] r(4) by simp
    from allowed have "\<not> (self_rolled_back ?W s \<or> newer_record ?W s)" "\<not> (should_not_exists m \<and> put_exists ?W)"
      by (auto simp: prewrite_allowed_def)
    with r \<open>key_ok e' raw\<close> None show ?thesis
      by (intro exI [of _ "Ok (0, old)"] exI [of _ txn'] conjI) (simp_all only: option.case if_False, blast)
  qed
next
  case (Some l)
  with prewrite_locked [OF assms(1,3,5,6) Some, of None] start_txn_fields(1) [OF assms(6)] show ?thesis
    by (simp add: ts_zero_def)
qed

definition demo_records :: engine where
  "demo_records = store_of [PutWrite (from_raw [1]) 3 (write_new WT_Put 2 (Some [9]))]"

definition demo_env :: env where
  "demo_env = \<lparr> env_now = 0, env_tso = None, env_last_change = True \<rparr>"

definition demo_props :: transaction_properties where
  "demo_props = \<lparr> tp_start_ts = 5, tp_kind = OptimisticTxn False, tp_commit_kind = TwoPc, tp_primary = [1],
     tp_txn_size = 1, tp_lock_ttl = 10, tp_min_commit_ts = 6, tp_need_old_value = True,
     tp_is_retry_request = False, tp_assertion_level = LevelOff, tp_txn_source = 0 \<rparr>"

definition demo_put :: mutation where
  "demo_put = MPut (from_raw [1]) [7] AssertNone"

lemma demo_records_view:
  "wf_store demo_records" "write_at demo_records (from_raw [1]) = [3 \<mapsto> write_new WT_Put 2 (Some [9])]"
  "lock_at demo_records (from_raw [1]) = None" "data_at demo_records = (\<lambda>_ _. None)"
proof -
  have wf: "list_all wf_op [PutWrite (from_raw [1]) 3 (write_new WT_Put 2 (Some [9]))]"
    using demo_wf by auto
  show "wf_store demo_records" "write_at demo_records (from_raw [1]) = [3 \<mapsto> write_new WT_Put 2 (Some [9])]"
    "lock_at demo_records (from_raw [1]) = None" "data_at demo_records = (\<lambda>_ _. None)"
    unfolding demo_records_def using store_of_view [OF wf] by simp_all
qed

lemma demo_records_ok: "key_ok demo_records [1]"
  by (simp add: key_ok_def demo_records_view key_inv_def one_record_def committed_at_def write_new_def)

lemma demo_checkable: "checkable (write_at demo_records (from_raw [1])) 5"
  by (simp add: checkable_def demo_records_view last_change_ok_def fence_free_def write_new_def is_data_def
      gc_fence_passed_def check_gc_fence_as_latest_version_def write_is_invalid_def is_latest_def)

lemma demo_request: "optimistic_request demo_props 5 demo_put [1]"
  by (simp add: optimistic_request_def demo_props_def demo_put_def)

lemma demo_start: "start_txn demo_env 5 demo_put (txn_new 5 demo_cm) (txn_new 5 demo_cm)"
  by (simp add: start_txn_def demo_put_def)

lemma demo_two_pc: "tp_commit_kind demo_props = TwoPc"
  by (simp add: demo_props_def)

lemma demo_allowed: "prewrite_allowed (write_at demo_records (from_raw [1])) 5 demo_put"
  by (auto simp: prewrite_allowed_def self_rolled_back_def newer_record_def demo_records_view is_latest_def
      demo_put_def write_new_def)

theorem prewrite_refines_witness:
  "\<exists>old l txn' e'. prewrite demo_env (txn_new 5 demo_cm) (reader_at demo_records 5) demo_props demo_put None
       SkipPessimisticCheck None = (Ok (0, old), txn') \<and> apply_txn demo_records txn' = Ok e' \<and>
     lock_at e' (from_raw [1]) = Some l \<and> l_ts l = 5 \<and> lock_value e' [1] l [7]"
  using prewrite_refines [OF demo_records_ok demo_checkable demo_request demo_two_pc _ demo_start,
      where act = SkipPessimisticCheck] demo_allowed
  by (auto simp: demo_records_view(3) prewrite_allowed_def prewritten_def demo_put_def)

text \<open>
  C10: A transaction that prewrites a key and commits it takes effect: both calls succeed, every read
  at or after the commit timestamp finds the written value, or nothing after a deletion, and every
  earlier read, and every read when the mutation only locks the key, is as before. The invariant of
  the key holds again, the key is unlocked, and the hints in its records are right.
\<close>

theorem prewrite_commit_takes_effect:
  assumes "key_ok e raw" "checkable (write_at e (from_raw raw)) s" "optimistic_request p s m raw"
    and "tp_commit_kind p = TwoPc" "act \<noteq> DoPessimisticCheck" "start_txn env s m (txn_new s cm) txn\<^sub>0"
    and "lock_at e (from_raw raw) = None" "prewrite_allowed (write_at e (from_raw raw)) s m"
    and "tp_min_commit_ts p \<le> c" "s < c"
  shows "\<exists>old txn' e\<^sub>1 e\<^sub>2.
    prewrite env (txn_new s cm) (reader_at e s) p m None act None = (Ok (0, old), txn') \<and>
    apply_txn e txn' = Ok e\<^sub>1 \<and> commit_store cm' role c e\<^sub>1 s raw e\<^sub>2 \<and>
    key_ok e\<^sub>2 raw \<and> last_change_ok (write_at e\<^sub>2 (from_raw raw)) \<and> lock_at e\<^sub>2 (from_raw raw) = None \<and>
    (\<forall>ts v. reads e\<^sub>2 raw ts v \<longleftrightarrow>
      (if mutation_type_of m \<noteq> MT_Lock \<and> c \<le> ts then snd (into_key_value m) = Some v else reads e raw ts v))"
proof -
  obtain old l txn' e\<^sub>1 where r: "prewrite env (txn_new s cm) (reader_at e s) p m None act None = (Ok (0, old), txn')"
    "apply_txn e txn' = Ok e\<^sub>1" "prewritten e raw m l e\<^sub>1" "l_ts l = s" "l_min_commit_ts l = tp_min_commit_ts p"
    "l_last_change l = LC_Unknown \<or> hint_right (write_at e (from_raw raw)) s (l_last_change l)"
    by (rule prewrite_2pc_ok [OF assms(1-8)])
  have lc: "last_change_ok (write_at e (from_raw raw))" using assms(2) by (simp add: checkable_def)
  have no: "no_record (write_at e (from_raw raw)) (l_ts l)" using prewrite_allowed_no_record [OF assms(1,8)] r(4) by simp
  have below: "\<forall>d w. write_at e (from_raw raw) d = Some w \<longrightarrow> d < c"
    using assms(8,10) unfolding prewrite_allowed_def newer_record_def by (metis le_less_trans not_le option.distinct(1))
  have hint: "last_change_right (write_at e (from_raw raw)) c (l_last_change l)"
    using r(6) assms(10) by (auto simp: hint_right_def last_change_right_def)
  have c: "l_min_commit_ts l \<le> c" "l_ts l < c" using assms(9,10) r(4,5) by simp_all
  obtain e\<^sub>2 where e\<^sub>2: "commit_store cm' role c e\<^sub>1 (l_ts l) raw e\<^sub>2" "key_ok e\<^sub>2 raw"
    "last_change_ok (write_at e\<^sub>2 (from_raw raw))" "lock_at e\<^sub>2 (from_raw raw) = None"
    "\<And>ts v. reads e\<^sub>2 raw ts v \<longleftrightarrow>
      (if mutation_type_of m \<noteq> MT_Lock \<and> c \<le> ts then snd (into_key_value m) = Some v else reads e raw ts v)"
    by (rule commit_after_prewrite [OF assms(1) lc no below r(3) c hint]) (rule that)
  with r(1,2,4) show ?thesis by blast
qed

theorem prewrite_commit_takes_effect_witness:
  "\<exists>old txn' e\<^sub>1 e\<^sub>2.
    prewrite demo_env (txn_new 5 demo_cm) (reader_at demo_records 5) demo_props demo_put None
      SkipPessimisticCheck None = (Ok (0, old), txn') \<and>
    apply_txn demo_records txn' = Ok e\<^sub>1 \<and> commit_store demo_cm None 8 e\<^sub>1 5 [1] e\<^sub>2 \<and>
    reads e\<^sub>2 [1] 9 [7] \<and> reads e\<^sub>2 [1] 7 [9]"
proof -
  have before: "reads demo_records [1] 7 [9]"
    by (simp add: reads_def demo_records_view latest_data_def is_data_def write_new_def)
  have min: "tp_min_commit_ts demo_props \<le> 8" by (simp add: demo_props_def)
  have act: "SkipPessimisticCheck \<noteq> DoPessimisticCheck" "(5 :: TimeStamp) < 8" by simp_all
  have put: "mutation_type_of demo_put \<noteq> MT_Lock" "snd (into_key_value demo_put) = Some [7]"
    by (simp_all add: demo_put_def)
  from prewrite_commit_takes_effect [OF demo_records_ok demo_checkable demo_request demo_two_pc act(1) demo_start
      demo_records_view(3) demo_allowed min act(2), of demo_cm None]
  obtain old txn' e\<^sub>1 e\<^sub>2 where e: "prewrite demo_env (txn_new 5 demo_cm) (reader_at demo_records 5) demo_props demo_put None
      SkipPessimisticCheck None = (Ok (0, old), txn')" "apply_txn demo_records txn' = Ok e\<^sub>1"
    "commit_store demo_cm None 8 e\<^sub>1 5 [1] e\<^sub>2"
    and reads: "\<And>ts v. reads e\<^sub>2 [1] ts v \<longleftrightarrow>
      (if mutation_type_of demo_put \<noteq> MT_Lock \<and> 8 \<le> ts then snd (into_key_value demo_put) = Some v
       else reads demo_records [1] ts v)" by blast
  have "reads e\<^sub>2 [1] 9 [7]" "reads e\<^sub>2 [1] 7 [9]"
    using reads [of 9 "[7]"] reads [of 7 "[9]"] before put by simp_all
  with e show ?thesis by blast
qed


definition demo_rolled_back :: engine where
  "demo_rolled_back = store_of [PutWrite (from_raw [1]) 5 (new_rollback 5 True)]"

lemma demo_rolled_back_view:
  "wf_store demo_rolled_back" "write_at demo_rolled_back (from_raw [1]) = [5 \<mapsto> new_rollback 5 True]"
  "lock_at demo_rolled_back (from_raw [1]) = None"
proof -
  have wf: "list_all wf_op [PutWrite (from_raw [1]) 5 (new_rollback 5 True)]"
    by (auto simp: wf_write_def new_rollback_def is_short_value_def wf_last_change_def PROTECTED_ROLLBACK_SHORT_VALUE_def SHORT_VALUE_MAX_LEN_def)
  show "wf_store demo_rolled_back" "write_at demo_rolled_back (from_raw [1]) = [5 \<mapsto> new_rollback 5 True]"
    "lock_at demo_rolled_back (from_raw [1]) = None"
    unfolding demo_rolled_back_def using store_of_view [OF wf] by simp_all
qed

lemma demo_rolled_back_ok:
  "key_ok demo_rolled_back [1]" "checkable (write_at demo_rolled_back (from_raw [1])) 5"
  "rollback_recorded (write_at demo_rolled_back (from_raw [1])) 5"
  by (simp_all add: key_ok_def demo_rolled_back_view key_inv_def one_record_def new_rollback_def checkable_def
      last_change_ok_def last_change_right_def fence_free_def gc_fence_passed_def rollback_recorded_def
      check_gc_fence_as_latest_version_def write_is_invalid_def is_latest_def)


section \<open>Asynchronous commit\<close>

text \<open>The lower bound an async commit calculates under the lock of the key's handle.\<close>

definition async_min_ts :: "TimeStamp \<Rightarrow> TimeStamp \<Rightarrow> TimeStamp \<Rightarrow> TimeStamp" where
  "async_min_ts min_ts max_ts start_ts = max min_ts (max max_ts start_ts + 1)"

lemma async_min_ts_greater:
  assumes "max max_ts s < ts_max"
  shows "max_ts < async_min_ts n max_ts s" "s < async_min_ts n max_ts s" "n \<le> async_min_ts n max_ts s"
proof -
  have "\<exists>t. ts_next (max max_ts s) = (Ok t :: (unit, _) result) \<and> max max_ts s < t"
    using assms by (intro ts_next_greater) (simp only: is_max_def less_le simp_thms)
  then have "max max_ts s < max max_ts s + 1" using assms by (auto simp: ts_next_def split: if_splits)
  then show "max_ts < async_min_ts n max_ts s" "s < async_min_ts n max_ts s" "n \<le> async_min_ts n max_ts s"
    unfolding async_min_ts_def by (auto simp: less_max_iff_disj)
qed

lemma async_commit_timestamps_cases:
  assumes "sorted_tree (cm_lock_table (t_cm txn))" "max (cm_max_ts (t_cm txn)) s < ts_max"
    and n: "n = async_min_ts (l_min_commit_ts l) (cm_max_ts (t_cm txn)) s"
  shows "if limit \<noteq> 0 \<and> limit < n
    then \<exists>cm. async_commit_timestamps key l s 0 limit txn =
      (Err (CommitTsTooLarge s n limit), txn\<lparr>t_cm := cm\<rparr>)
    else \<exists>cm. async_commit_timestamps key l s 0 limit txn =
        (Ok (n, l\<lparr>l_min_commit_ts := n\<rparr>), txn\<lparr>t_cm := cm, t_guards := t_guards txn @ [key]\<rparr>) \<and>
      tree_get (cm_lock_table cm) key = Some (Some (l\<lparr>l_min_commit_ts := n\<rparr>)) \<and> cm_max_ts cm = cm_max_ts (t_cm txn)"
proof -
  let ?cm = "lock_key key (t_cm txn)"
  have cm: "cm_max_ts ?cm = cm_max_ts (t_cm txn)" "sorted_tree (cm_lock_table ?cm)"
    using assms(1) by (simp_all add: lock_key_def btree.invar_insert)
  have nx: "ts_next (max (max (cm_max_ts ?cm) s) 0) = (Ok (max (cm_max_ts (t_cm txn)) s + 1) :: TimeStamp mvcc_result)"
    using assms(2) cm(1) by (simp add: ts_next_def max_def)
  have n': "max (l_min_commit_ts l) (max (cm_max_ts (t_cm txn)) s + 1) = n" using n by (simp add: async_min_ts_def)
  have act: "async_commit_timestamps key l s 0 limit txn =
      (if limit \<noteq> 0 \<and> limit < n then (Err (CommitTsTooLarge s n limit), txn\<lparr>t_cm := guard_drop key ?cm\<rparr>)
       else (Ok (n, l\<lparr>l_min_commit_ts := n\<rparr>),
         txn\<lparr>t_cm := guard_set_lock key (Some (l\<lparr>l_min_commit_ts := n\<rparr>)) ?cm, t_guards := t_guards txn @ [key]\<rparr>))"
    unfolding async_commit_timestamps_def Let_def nx result.case n' is_zero_def ..
  have "tree_get (cm_lock_table (guard_set_lock key l' ?cm)) key = Some l'"
    "cm_max_ts (guard_set_lock key l' ?cm) = cm_max_ts (t_cm txn)" for l'
    using cm by (simp_all add: guard_set_lock_def btree.get_insert)
  then show ?thesis
    unfolding act by (cases "limit \<noteq> 0 \<and> limit < n") (simp_all only: if_True if_False simp_thms, blast+)
qed

definition plain_lock :: "lock \<Rightarrow> lock" where
  "plain_lock l = l\<lparr>l_use_one_pc := False, l_use_async_commit := False, l_secondaries := []\<rparr>"

lemma write_lock_async:
  assumes pm: "pm_key pm = from_raw raw" "pm_lock_type pm = Some tp" "pm_secondary_keys pm = Some ks"
      "tp_commit_kind (pm_txn_props pm) = Async limit" "pm_kind pm = OptimisticTxn b"
    and cm: "sorted_tree (cm_lock_table (t_cm txn))" "max (cm_max_ts (t_cm txn)) (pm_start_ts pm) < ts_max"
    and n: "n = async_min_ts (pm_min_commit_ts pm) (cm_max_ts (t_cm txn)) (pm_start_ts pm)"
    and l: "l = prewrite_lock env pm tp st g"
  obtains (too_large) txn' where "limit \<noteq> 0 \<and> limit < n"
      "write_lock env pm st txn is_new g = (Err (CommitTsTooLarge (pm_start_ts pm) n limit), txn')"
      "t_modifies txn' = t_modifies txn @ map op_modify (prewrite_ops pm (plain_lock l))"
      "t_locks_for_1pc txn' = t_locks_for_1pc txn"
    | (async) txn' where "\<not> (limit \<noteq> 0 \<and> limit < n)" "write_lock env pm st txn is_new g = (Ok n, txn')"
      "t_modifies txn' = t_modifies txn @ map op_modify (prewrite_ops pm (l\<lparr>l_min_commit_ts := n\<rparr>))"
      "t_locks_for_1pc txn' = t_locks_for_1pc txn"
      "tree_get (cm_lock_table (t_cm txn')) (from_raw raw) = Some (Some (l\<lparr>l_min_commit_ts := n\<rparr>))"
      "cm_max_ts (t_cm txn') = cm_max_ts (t_cm txn)"
proof -
  define txn\<^sub>1 where "txn\<^sub>1 = put_long_value pm txn"
  have adds: "txn_adds txn (case pm_value pm of
        Some v \<Rightarrow> if is_short_value v then [] else [PutData (pm_key pm) (pm_start_ts pm) v]
      | None \<Rightarrow> []) txn\<^sub>1" unfolding txn\<^sub>1_def by (rule put_long_value_adds)
  have t\<^sub>1: "t_cm txn\<^sub>1 = t_cm txn" "t_locks_for_1pc txn\<^sub>1 = t_locks_for_1pc txn"
    "t_modifies txn\<^sub>1 @ map op_modify [PutLock (from_raw raw) k] = t_modifies txn @ map op_modify (prewrite_ops pm k)" for k
    using adds pm(1) by (auto simp: txn_adds_def prewrite_ops_def split: option.splits)
  have w: "write_lock env pm st txn is_new g =
      (case async_commit_timestamps (pm_key pm) l (pm_start_ts pm) 0 limit txn\<^sub>1 of
         (Ok (ts, l), txn) \<Rightarrow> put_prewrite_lock pm l st False is_new (Ok ts) txn
       | (Err e, txn) \<Rightarrow> put_prewrite_lock pm (plain_lock l) st False is_new (Err e) txn
       | (Panic, txn) \<Rightarrow> (Panic, txn))"
    unfolding plain_lock_def l txn\<^sub>1_def using pm(2-5) by (simp add: write_lock_def Let_def ts_zero_def)
  have put: "\<exists>txn'. put_prewrite_lock pm k st False is_new res t = (res, txn') \<and> txn_adds t [PutLock (from_raw raw) k] txn'"
    for k res t using put_lock_adds [OF pm(1), of k is_new t] pm(1) by (auto simp: put_prewrite_lock_def)
  have cases: "if limit \<noteq> 0 \<and> limit < n
    then \<exists>cm. async_commit_timestamps (pm_key pm) l (pm_start_ts pm) 0 limit txn\<^sub>1 =
      (Err (CommitTsTooLarge (pm_start_ts pm) n limit), txn\<^sub>1\<lparr>t_cm := cm\<rparr>)
    else \<exists>cm. async_commit_timestamps (pm_key pm) l (pm_start_ts pm) 0 limit txn\<^sub>1 =
        (Ok (n, l\<lparr>l_min_commit_ts := n\<rparr>), txn\<^sub>1\<lparr>t_cm := cm, t_guards := t_guards txn\<^sub>1 @ [pm_key pm]\<rparr>) \<and>
      tree_get (cm_lock_table cm) (pm_key pm) = Some (Some (l\<lparr>l_min_commit_ts := n\<rparr>)) \<and>
      cm_max_ts cm = cm_max_ts (t_cm txn\<^sub>1)"
    using cm n l t\<^sub>1(1) by (intro async_commit_timestamps_cases) simp_all
  show thesis
  proof (cases "limit \<noteq> 0 \<and> limit < n")
    case True
    then obtain cm where a: "async_commit_timestamps (pm_key pm) l (pm_start_ts pm) 0 limit txn\<^sub>1 =
      (Err (CommitTsTooLarge (pm_start_ts pm) n limit), txn\<^sub>1\<lparr>t_cm := cm\<rparr>)" using cases by auto
    obtain txn' where "write_lock env pm st txn is_new g = (Err (CommitTsTooLarge (pm_start_ts pm) n limit), txn')"
      "txn_adds (txn\<^sub>1\<lparr>t_cm := cm\<rparr>) [PutLock (from_raw raw) (plain_lock l)] txn'"
      using put unfolding w a by fastforce
    then show thesis using True t\<^sub>1(2,3) by (intro too_large [of txn']) (auto simp: txn_adds_def)
  next
    case False
    then obtain cm where a: "async_commit_timestamps (pm_key pm) l (pm_start_ts pm) 0 limit txn\<^sub>1 =
        (Ok (n, l\<lparr>l_min_commit_ts := n\<rparr>), txn\<^sub>1\<lparr>t_cm := cm, t_guards := t_guards txn\<^sub>1 @ [pm_key pm]\<rparr>)"
      "tree_get (cm_lock_table cm) (from_raw raw) = Some (Some (l\<lparr>l_min_commit_ts := n\<rparr>))" "cm_max_ts cm = cm_max_ts (t_cm txn)"
      using cases pm(1) t\<^sub>1(1) by auto
    obtain txn' where "write_lock env pm st txn is_new g = (Ok n, txn')"
      "txn_adds (txn\<^sub>1\<lparr>t_cm := cm, t_guards := t_guards txn\<^sub>1 @ [pm_key pm]\<rparr>)
         [PutLock (from_raw raw) (l\<lparr>l_min_commit_ts := n\<rparr>)] txn'"
      using put unfolding w a(1) by fastforce
    then show thesis using False a(2,3) t\<^sub>1(2,3) by (intro async [of txn']) (auto simp: txn_adds_def)
  qed
qed

lemma wf_async_lock:
  assumes "wf_lock l"
  shows "wf_lock (plain_lock l)" "l_use_async_commit l \<Longrightarrow> wf_lock (l\<lparr>l_min_commit_ts := n\<rparr>)"
  using assms by (auto simp: wf_lock_def plain_lock_def)

text \<open>
  C12: The async-commit prewrite of an optimistic transaction orders its commit after the reads of the
  key so far. It calculates a lower bound above its start timestamp and above the maximal timestamp
  read, returns it and writes it into the lock in the store and into the lock in memory. The lock in
  memory lets the earlier reads pass and blocks the later ones until the write is done; no commit at
  or below a timestamp read before can succeed. When the bound exceeds the limit of the request, the
  call reports so and leaves the lock of a plain two-phase commit.
\<close>

theorem async_prewrite_after_reads:
  assumes "key_ok e raw" "checkable (write_at e (from_raw raw)) s" "optimistic_request p s m raw"
    and "tp_commit_kind p = Async limit" "act \<noteq> DoPessimisticCheck" "start_txn env s m (txn_new s cm) txn\<^sub>0"
    and "lock_at e (from_raw raw) = None" "prewrite_allowed (write_at e (from_raw raw)) s m"
    and "length ks < 2 ^ 64" "list_all (\<lambda>k. length k < 2 ^ 64) ks"
    and "sorted_tree (cm_lock_table cm)" "max (cm_max_ts (t_cm txn\<^sub>0)) s < ts_max"
    and n: "n = max (tp_min_commit_ts p) (max (cm_max_ts (t_cm txn\<^sub>0)) s + 1)"
  shows "\<exists>res txn' l e'. prewrite env (txn_new s cm) (reader_at e s) p m (Some ks) act None = (res, txn') \<and>
    apply_txn e txn' = Ok e' \<and> prewritten e raw m l e' \<and> key_ok e' raw \<and> l_ts l = s \<and>
    (if limit \<noteq> 0 \<and> limit < n
     then res = Err (CommitTsTooLarge s n limit) \<and> \<not> l_use_async_commit l \<and> l_min_commit_ts l = tp_min_commit_ts p
     else (\<exists>old. res = Ok (n, old)) \<and> l_use_async_commit l \<and> l_secondaries l = ks \<and> l_min_commit_ts l = n \<and>
       s < n \<and> cm_max_ts cm < n \<and> cm_max_ts (t_cm txn') = cm_max_ts (t_cm txn\<^sub>0) \<and>
       (\<forall>ts bypass replica. \<not> ts_set_contains bypass s \<longrightarrow>
         check_key (t_cm txn') (from_raw raw) (\<lambda>l. check_ts_conflict_si l (from_raw raw) ts bypass replica) =
           (if ts < n \<or> mutation_type_of m = MT_Lock then Ok () else Err (TE_KeyIsLocked (into_lock_info l raw)))) \<and>
       (\<forall>c txn role. c \<le> cm_max_ts cm \<longrightarrow> (\<exists>info. commit txn (reader_at e' s) (from_raw raw) c role =
         Err (CommitTsExpired s c raw n info))))"
proof -
  let ?W = "write_at e (from_raw raw)"
  have p: "tp_start_ts p = s" "tp_kind p = OptimisticTxn False" "mutation_key m = from_raw raw" "\<not> should_not_write m"
    "length (tp_primary p) < 2 ^ 64" using assms(3) by (simp_all add: optimistic_request_def)
  obtain pm old where pm: "mutation_start pm m (Some ks) act p" "hint_right ?W s (pm_last_change pm)"
    "prewrite env (txn_new s cm) (reader_at e s) p m (Some ks) act None =
       (case write_lock env pm LS_None txn\<^sub>0 True 0 of
          (res, txn) \<Rightarrow> lift_result res txn (\<lambda>ts. (Ok (ts, old), txn)))"
    by (rule prewrite_to_write_lock [OF assms(1-3,5-8)])
  obtain tp where tp: "lock_type_from_mutation m = Some tp" using lock_type_exists [OF p(4)] by blast
  have pm': "pm_key pm = from_raw raw" "pm_lock_type pm = Some tp" "pm_secondary_keys pm = Some ks"
    "tp_commit_kind (pm_txn_props pm) = Async limit" "pm_kind pm = OptimisticTxn False"
    "pm_value pm = snd (into_key_value m)" "pm_start_ts pm = s" "pm_min_commit_ts pm = tp_min_commit_ts p"
    using pm(1) p tp assms(4) by (auto simp: mutation_start_def)
  note t\<^sub>0 = start_txn_fields [OF assms(6)]
  have cm: "sorted_tree (cm_lock_table (t_cm txn\<^sub>0))" "max (cm_max_ts (t_cm txn\<^sub>0)) (pm_start_ts pm) < ts_max"
    using assms(11,12) t\<^sub>0(7) pm'(7) by simp_all
  have n': "n = async_min_ts (pm_min_commit_ts pm) (cm_max_ts (t_cm txn\<^sub>0)) (pm_start_ts pm)"
    using n pm'(7,8) by (simp add: async_min_ts_def)
  have gt: "s < n" "cm_max_ts cm < n"
    using async_min_ts_greater [OF cm(2), of "pm_min_commit_ts pm"] n' pm'(7) t\<^sub>0(6) by (auto intro: le_less_trans)
  define l where "l = prewrite_lock env pm tp LS_None 0"
  have wl: "wf_lock l" unfolding l_def
    using p(5) pm(1,2) pm'(3) assms(9,10) by (intro wf_prewrite_lock) (auto simp: mutation_start_def hint_right_def)
  have l: "l_ts l = s" "l_type l = tp" "l_use_async_commit l" "l_secondaries l = ks" "l_min_commit_ts l = tp_min_commit_ts p"
    using pm' by (simp_all add: l_def)
  have store: "\<exists>e'. apply_txn e txn' = Ok e' \<and> prewritten e raw m k e' \<and> key_ok e' raw"
    if k: "wf_lock k" "l_type k = tp" "l_ts k = s" "l_short_value k = l_short_value l"
      and mods: "t_modifies txn' = t_modifies txn\<^sub>0 @ map op_modify (prewrite_ops pm k)" "t_locks_for_1pc txn' = t_locks_for_1pc txn\<^sub>0"
    for k txn'
  proof -
    have mods': "t_modifies txn' = map op_modify (prewrite_ops pm k)" "t_locks_for_1pc txn' = []"
      using mods t\<^sub>0(1,2) by simp_all
    obtain e' where "apply_txn e txn' = Ok e'" "prewritten e raw m k e'"
      by (rule prewrite_ops_store [OF key_ok_wf [OF assms(1)] k(1) pm'(1,6) _ _ _ mods'])
        (use tp k pm'(7) in \<open>simp_all add: l_def\<close>)
    then show ?thesis
      using prewritten_key_ok [OF assms(1)] prewrite_allowed_no_record [OF assms(1,8)] k(3) by blast
  qed
  show ?thesis
  proof (cases rule: write_lock_async [OF pm'(1-5) cm n' l_def, of True])
    case (1 txn')
    obtain e' where "apply_txn e txn' = Ok e'" "prewritten e raw m (plain_lock l) e'" "key_ok e' raw"
      using store [OF wf_async_lock(1) [OF wl] _ _ _ 1(3,4)] l by (auto simp: plain_lock_def)
    with 1(1,2) l pm(3) pm'(7) show ?thesis
      by (intro exI [of _ "Err (CommitTsTooLarge s n limit)"] exI [of _ txn'] exI [of _ "plain_lock l"] exI [of _ e'])
        (simp add: plain_lock_def)
  next
    case (2 txn')
    let ?l = "l\<lparr>l_min_commit_ts := n\<rparr>"
    obtain e' where e': "apply_txn e txn' = Ok e'" "prewritten e raw m ?l e'" "key_ok e' raw"
      using store [OF wf_async_lock(2) [OF wl] _ _ _ 2(3,4)] l by auto
    have "check_key (t_cm txn') (from_raw raw) (\<lambda>l. check_ts_conflict_si l (from_raw raw) ts bypass replica) =
        (if ts < n \<or> mutation_type_of m = MT_Lock then Ok () else Err (TE_KeyIsLocked (into_lock_info ?l raw)))"
      if "\<not> ts_set_contains bypass s" for ts bypass replica
      using 2(5) that l gt(1) tp
      by (cases m) (auto simp: check_key_def check_ts_conflict_si_def is_pessimistic_lock_def)
    moreover have "\<exists>info. commit txn (reader_at e' s) (from_raw raw) c role = Err (CommitTsExpired s c raw n info)"
      if "c \<le> cm_max_ts cm" for c txn role
      using commit_expired [OF key_ok_clean [OF e'(3), of s], of ?l c txn role] that gt(2) e'(2) l(1)
      by (auto simp: prewritten_def)
    ultimately show ?thesis
      using 2 e' l pm(3) gt
      by (intro exI [of _ "Ok (n, old)"] exI [of _ txn'] exI [of _ ?l] exI [of _ e']) simp
  qed
qed

definition demo_async :: transaction_properties where
  "demo_async = demo_props\<lparr>tp_commit_kind := Async 0\<rparr>"

theorem async_prewrite_after_reads_witness:
  "\<exists>old txn' l e' info.
     prewrite demo_env (txn_new 5 demo_cm) (reader_at demo_records 5) demo_async demo_put (Some [[2]])
       SkipPessimisticCheck None = (Ok (6, old), txn') \<and>
     apply_txn demo_records txn' = Ok e' \<and> lock_at e' (from_raw [1]) = Some l \<and> l_min_commit_ts l = 6 \<and>
     commit (txn_new 5 demo_cm) (reader_at e' 5) (from_raw [1]) 1 None = Err (CommitTsExpired 5 1 [1] 6 info)"
proof -
  have req: "optimistic_request demo_async 5 demo_put [1]" "tp_commit_kind demo_async = Async 0"
    "SkipPessimisticCheck \<noteq> DoPessimisticCheck" "length [[2 :: u8]] < 2 ^ 64"
    "list_all (\<lambda>k. length k < 2 ^ 64) [[2 :: u8]]" "sorted_tree (cm_lock_table demo_cm)" "cm_max_ts demo_cm = 1"
    using demo_request by (simp_all add: optimistic_request_def demo_async_def demo_cm_def cm_new_def sorted_tree_def)
  have ts: "max (cm_max_ts (t_cm (txn_new 5 demo_cm))) 5 < ts_max"
    "6 = max (tp_min_commit_ts demo_async) (max (cm_max_ts (t_cm (txn_new 5 demo_cm))) 5 + 1)"
    using req(7) by (simp_all add: txn_new_def ts_max_def demo_async_def demo_props_def max_def)
  have "(1 :: TimeStamp) \<le> cm_max_ts demo_cm" "\<not> ((0 :: TimeStamp) \<noteq> 0 \<and> 0 < (6 :: TimeStamp))"
    using req(7) by simp_all
  with async_prewrite_after_reads [OF demo_records_ok demo_checkable req(1-3) demo_start demo_records_view(3)
      demo_allowed req(4-6) ts]
  show ?thesis unfolding prewritten_def by (simp only: if_False) (metis fun_upd_same)
qed

end
