(* ===== verification/TxnPessimistic.thy ===== *)
theory TxnPessimistic
  imports TxnPrewrite
begin

text \<open>
  Pessimistic locks (\<open>src/storage/txn/actions/acquire_pessimistic_lock.rs\<close>): a transaction locks a key
  before it knows what to write, and may read it under the lock. The options of a request are the
  record \<open>lock_request\<close>. As in prewrite, the maximal timestamp can be updated before an error, so the
  call returns its result beside the buffer.
\<close>

section \<open>Acquiring a lock\<close>

datatype pessimistic_key_result =
    PR_Empty
  | PR_Value "Value option"
  | PR_Existence bool
  | PR_LockedWithConflict "Value option" TimeStamp
  | PR_Waiting
  | PR_Failed mvcc_error

definition new_success :: "bool \<Rightarrow> bool \<Rightarrow> TimeStamp option \<Rightarrow> Value option \<Rightarrow> pessimistic_key_result" where
  "new_success need_value need_check_existence locked_with_conflict_ts value =
     (case locked_with_conflict_ts of
        Some conflict_ts \<Rightarrow> PR_LockedWithConflict value conflict_ts
      | None \<Rightarrow>
          if need_value then PR_Value value
          else if need_check_existence then PR_Existence (value \<noteq> None)
          else PR_Empty)"

record conflict_info =
  ci_start_ts :: TimeStamp
  ci_commit_ts :: TimeStamp

definition into_write_conflict_error :: "conflict_info \<Rightarrow> TimeStamp \<Rightarrow> bytes \<Rightarrow> bytes \<Rightarrow> mvcc_error" where
  "into_write_conflict_error info start_ts primary key =
     WriteConflict start_ts (ci_start_ts info) (ci_commit_ts info) key primary PessimisticRetry"

fun is_already_exist :: "mvcc_error \<Rightarrow> bool" where
  "is_already_exist (AlreadyExist _ _) = True"
| "is_already_exist _ = False"

record lock_request =
  q_primary :: bytes
  q_should_not_exist :: bool
  q_lock_ttl :: u64
  q_for_update_ts :: TimeStamp
  q_need_value :: bool
  q_need_check_existence :: bool
  q_min_commit_ts :: TimeStamp
  q_need_old_value :: bool
  q_lock_only_if_exists :: bool
  q_allow_lock_with_conflict :: bool

definition load_old_value ::
    "bool \<Rightarrow> bool \<Rightarrow> Value option \<Rightarrow> snapshot_reader \<Rightarrow> Key \<Rightarrow> TimeStamp \<Rightarrow> bool \<Rightarrow> write option \<Rightarrow> old_value mvcc_result" where
  "load_old_value need_old_value value_loaded val reader key for_update_ts prev_write_loaded prev_write =
     (if \<not> need_old_value then Ok OV_Unspecified
      else if value_loaded then Ok (case val of Some v \<Rightarrow> OV_Value v | None \<Rightarrow> OV_None)
      else sr_get_old_value reader key for_update_ts prev_write_loaded prev_write)"

text \<open>The check that the key does not exist; with a write conflict its failure is the conflict.\<close>

definition check_not_exist ::
    "snapshot_reader \<Rightarrow> lock_request \<Rightarrow> write \<Rightarrow> TimeStamp \<Rightarrow> Key \<Rightarrow> conflict_info option \<Rightarrow> unit mvcc_result" where
  "check_not_exist reader q w commit_ts key conflict_info =
     (case check_data_constraint reader (q_should_not_exist q) w commit_ts key of
        Err err \<Rightarrow>
          (case (is_already_exist err, conflict_info) of
             (True, Some info) \<Rightarrow>
               rbind (of_codec (to_raw key)) (\<lambda>raw.
                 Err (into_write_conflict_error info (sr_start_ts reader) (q_primary q) raw))
           | _ \<Rightarrow> Err err)
      | r \<Rightarrow> r)"

text \<open>The transaction already holds the pessimistic lock.\<close>

definition acquire_again ::
    "mvcc_txn \<Rightarrow> snapshot_reader \<Rightarrow> Key \<Rightarrow> lock \<Rightarrow> lock_request \<Rightarrow>
     ((pessimistic_key_result \<times> old_value) \<times> mvcc_txn) mvcc_result" where
  "acquire_again txn reader key l q =
     (let requested_for_update_ts = q_for_update_ts q;
          with_conflict = (q_allow_lock_with_conflict q \<and> requested_for_update_ts < l_for_update_ts l);
          need_load_value = (with_conflict \<or> q_need_value q \<or> q_need_check_existence q \<and> q_need_old_value q);
          for_update_ts = (if with_conflict then l_for_update_ts l else requested_for_update_ts);
          locked_with_conflict_ts = (if with_conflict then Some (l_for_update_ts l) else None) in
      rbind (if need_load_value \<or> q_need_check_existence q \<or> q_should_not_exist q
             then rbind (sr_get_write_with_commit_ts reader key for_update_ts) (\<lambda>res.
               case res of
                 None \<Rightarrow> Ok None
               | Some (w, commit_ts) \<Rightarrow>
                   rbind (check_not_exist reader q w commit_ts key
                       (if commit_ts > requested_for_update_ts
                        then Some \<lparr> ci_start_ts = w_start_ts w, ci_commit_ts = commit_ts \<rparr> else None)) (\<lambda>_.
                     if need_load_value then rbind (sr_load_data reader key w) (\<lambda>v. Ok (Some v))
                     else if q_need_check_existence q then Ok (Some []) else Ok None))
             else Ok None) (\<lambda>val.
      rbind (load_old_value (q_need_old_value q) need_load_value val reader key for_update_ts False None) (\<lambda>old_value.
      rbind (if for_update_ts > l_for_update_ts l
             then put_pessimistic_lock key
               \<lparr> p_primary = q_primary q, p_start_ts = sr_start_ts reader, p_ttl = q_lock_ttl q,
                 p_for_update_ts = for_update_ts, p_min_commit_ts = q_min_commit_ts q,
                 p_last_change = l_last_change l,
                 p_is_locked_with_conflict = is_pessimistic_lock_with_conflict l \<rparr> False txn
             else Ok txn) (\<lambda>txn.
        Ok ((new_success (q_need_value q) (q_need_check_existence q) locked_with_conflict_ts val, old_value), txn)))))"

text \<open>The value under the lock, when the newest record has been read already.\<close>

definition locked_value ::
    "snapshot_reader \<Rightarrow> Key \<Rightarrow> write \<Rightarrow> TimeStamp \<Rightarrow> bool \<Rightarrow> Value option mvcc_result" where
  "locked_value reader key w commit_ts need_load_value =
     (case w_type w of
        WT_Put \<Rightarrow>
          if check_gc_fence_as_latest_version w (sr_start_ts reader)
          then if need_load_value then rbind (sr_load_data reader key w) (\<lambda>v. Ok (Some v)) else Ok (Some [])
          else Ok None
      | WT_Delete \<Rightarrow> Ok None
      | _ \<Rightarrow>
          rbind (ts_prev commit_ts) (\<lambda>prev.
            if need_load_value then sr_get reader key prev
            else rbind (sr_get_write reader key prev) (\<lambda>res. Ok (map_option (\<lambda>_. []) res))))"

definition rolled_back_error :: "snapshot_reader \<Rightarrow> Key \<Rightarrow> 'a mvcc_result" where
  "rolled_back_error reader key =
     rbind (of_codec (into_raw key)) (\<lambda>raw. Err (PessimisticLockRolledBack (sr_start_ts reader) raw))"

text \<open>Whether the transaction was rolled back, at the newest record or below it.\<close>

definition check_rolled_back :: "snapshot_reader \<Rightarrow> Key \<Rightarrow> write \<Rightarrow> TimeStamp \<Rightarrow> unit mvcc_result" where
  "check_rolled_back reader key w commit_ts =
     (if commit_ts = sr_start_ts reader \<and> (w_type w = WT_Rollback \<or> w_has_overlapped_rollback w)
      then
        if \<not> (w_has_overlapped_rollback w \<or> w_start_ts w = commit_ts) then Panic
        else rolled_back_error reader key
      else if commit_ts > sr_start_ts reader
      then rbind (sr_seek_write reader key (sr_start_ts reader)) (\<lambda>res.
        case res of
          Some (older_commit_ts, older) \<Rightarrow>
            if older_commit_ts = sr_start_ts reader \<and> (w_type older = WT_Rollback \<or> w_has_overlapped_rollback older)
            then rolled_back_error reader key else Ok ()
        | None \<Rightarrow> Ok ())
      else Ok ())"

text \<open>What the newest record of the key says: the conflict, if the request may ignore it, and what is read.\<close>

record newest_info =
  n_conflict :: "conflict_info option"
  n_for_update_ts :: TimeStamp
  n_need_load_value :: bool
  n_last_change :: last_change
  n_prev_write :: "write option"
  n_val :: "Value option"

definition check_newest ::
    "mvcc_txn \<Rightarrow> snapshot_reader \<Rightarrow> Key \<Rightarrow> lock_request \<Rightarrow> newest_info mvcc_result" where
  "check_newest txn reader key q =
     (let need_load_value = (q_need_value q \<or> q_need_check_existence q \<and> q_need_old_value q) in
      rbind (sr_seek_write reader key ts_max) (\<lambda>res.
        case res of
          None \<Rightarrow>
            Ok \<lparr> n_conflict = None, n_for_update_ts = q_for_update_ts q, n_need_load_value = need_load_value,
                 n_last_change = LC_NotExist, n_prev_write = None, n_val = None \<rparr>
        | Some (commit_ts, w) \<Rightarrow>
            let conflict = commit_ts > q_for_update_ts q in
            if conflict \<and> \<not> q_allow_lock_with_conflict q
            then rbind (of_codec (into_raw key)) (\<lambda>raw.
              Err (WriteConflict (sr_start_ts reader) (w_start_ts w) commit_ts raw (q_primary q) PessimisticRetry))
            else
              let conflict_info = (if conflict
                    then Some \<lparr> ci_start_ts = w_start_ts w, ci_commit_ts = commit_ts \<rparr> else None);
                  need_load_value = (conflict \<or> need_load_value) in
              rbind (check_rolled_back reader key w commit_ts) (\<lambda>_.
              rbind (check_not_exist reader q w commit_ts key conflict_info) (\<lambda>_.
              rbind (next_last_change_info key w (t_start_ts txn) reader commit_ts) (\<lambda>last_change.
              rbind (if q_need_value q \<or> q_need_check_existence q \<or> conflict
                     then locked_value reader key w commit_ts need_load_value else Ok None) (\<lambda>val.
                Ok \<lparr> n_conflict = conflict_info,
                     n_for_update_ts = (if conflict then commit_ts else q_for_update_ts q),
                     n_need_load_value = need_load_value, n_last_change = last_change,
                     n_prev_write = (if q_need_old_value q then Some w else None), n_val = val \<rparr>))))))"

definition acquire_new ::
    "env \<Rightarrow> mvcc_txn \<Rightarrow> snapshot_reader \<Rightarrow> Key \<Rightarrow> lock_request \<Rightarrow>
     ((pessimistic_key_result \<times> old_value) \<times> mvcc_txn) mvcc_result" where
  "acquire_new env txn reader key q =
     rbind (check_newest txn reader key q) (\<lambda>n.
     rbind (load_old_value (q_need_old_value q) (n_need_load_value n) (n_val n) reader key (n_for_update_ts n)
         True (n_prev_write n)) (\<lambda>old_value.
     rbind (if \<not> q_lock_only_if_exists q \<or> n_val n \<noteq> None
            then put_pessimistic_lock key
              \<lparr> p_primary = q_primary q, p_start_ts = sr_start_ts reader, p_ttl = q_lock_ttl q,
                p_for_update_ts = n_for_update_ts n, p_min_commit_ts = q_min_commit_ts q,
                p_last_change = (if env_last_change env then n_last_change n else LC_Unknown),
                p_is_locked_with_conflict = (n_conflict n \<noteq> None) \<rparr> True txn
            else case n_conflict n of
              Some info \<Rightarrow>
                rbind (of_codec (into_raw key)) (\<lambda>raw.
                  Err (into_write_conflict_error info (sr_start_ts reader) (q_primary q) raw))
            | None \<Rightarrow> Ok txn) (\<lambda>txn.
       Ok ((new_success (q_need_value q) (q_need_check_existence q) (map_option ci_commit_ts (n_conflict n)) (n_val n),
            old_value), txn))))"

text \<open>Which of the two applies; a lock of another transaction, or one that is prewritten, is an error.\<close>

definition acquire_checked ::
    "env \<Rightarrow> mvcc_txn \<Rightarrow> snapshot_reader \<Rightarrow> Key \<Rightarrow> lock_request \<Rightarrow>
     ((pessimistic_key_result \<times> old_value) \<times> mvcc_txn) mvcc_result" where
  "acquire_checked env txn reader key q =
     rbind (sr_load_lock reader key) (\<lambda>res.
       case res of
         Some l \<Rightarrow>
           if l_ts l \<noteq> sr_start_ts reader
           then rbind (of_codec (into_raw key)) (\<lambda>raw. Err (KeyIsLocked (into_lock_info l raw)))
           else if \<not> is_pessimistic_lock l
           then rbind (of_codec (into_raw key)) (\<lambda>raw. Err (LockTypeNotMatch (sr_start_ts reader) raw False))
           else acquire_again txn reader key l q
       | None \<Rightarrow> acquire_new env txn reader key q)"

definition acquire_pessimistic_lock ::
    "env \<Rightarrow> mvcc_txn \<Rightarrow> snapshot_reader \<Rightarrow> Key \<Rightarrow> lock_request \<Rightarrow>
     (pessimistic_key_result \<times> old_value) mvcc_result \<times> mvcc_txn" where
  "acquire_pessimistic_lock env txn reader key q =
     (if q_lock_only_if_exists q \<and> \<not> q_need_value q
      then (rbind (of_codec (into_raw key)) (\<lambda>raw. Err (LockIfExistsFailed (sr_start_ts reader) raw)), txn)
      else
        case (if q_should_not_exist q \<or> q_need_value q \<or> q_need_check_existence q
              then txn_update_max_ts env (q_for_update_ts q) txn else (Ok (), txn)) of
          (res, txn) \<Rightarrow>
            lift_result res txn (\<lambda>_.
            lift_result (acquire_checked env txn reader key q) txn (\<lambda>(res, txn). (Ok res, txn))))"

section \<open>What the checks decide\<close>

text \<open>No fence is left on the records a read of the newest version meets.\<close>

definition settled :: "(TimeStamp \<Rightarrow> write option) \<Rightarrow> bool" where
  "settled W \<longleftrightarrow> (\<forall>t. checkable W t)"

lemma settledD: "settled W \<Longrightarrow> checkable W t"
  by (simp add: settled_def)

lemma recorded_iff:
  assumes "key_inv W" "W s = Some w"
  shows "rollback_recorded W s \<longleftrightarrow> w_type w = WT_Rollback \<or> w_has_overlapped_rollback w"
  using key_invD [OF assms] assms(2) by (auto simp: rollback_recorded_def)

lemma check_rolled_back_ok:
  assumes wf: "wf_store (sr_engine r)" and W: "W = write_at (sr_engine r) (from_raw raw)" and inv: "key_inv W"
    and latest: "is_latest W ts_max c w" and s: "sr_start_ts r = s"
  shows "check_rolled_back r (from_raw raw) w c =
    (if rollback_recorded W s then Err (PessimisticLockRolledBack s raw) else Ok ())"
proof -
  have Wc: "W c = Some w" using latest by (simp add: is_latest_def)
  consider "c = s" | "s < c" | "c < s" by (meson linorder_cases)
  then show ?thesis
  proof cases
    case 1
    then show ?thesis
      using recorded_iff [OF inv, of s w] key_invD [OF inv Wc] Wc s
      by (auto simp: check_rolled_back_def rolled_back_error_def)
  next
    case 2
    show ?thesis
    proof (cases rule: seek_write_cases [OF wf, where raw = raw and ts = s])
      case (1 c\<^sub>1 w\<^sub>1)
      then have c\<^sub>1: "W c\<^sub>1 = Some w\<^sub>1" "c\<^sub>1 = s \<longleftrightarrow> W s \<noteq> None"
        using W unfolding is_latest_def by (metis, metis antisym_conv2 option.distinct(1) order_refl)
      have "rollback_recorded W s \<longleftrightarrow> c\<^sub>1 = s \<and> (w_type w\<^sub>1 = WT_Rollback \<or> w_has_overlapped_rollback w\<^sub>1)"
        using c\<^sub>1 recorded_iff [OF inv, of s w\<^sub>1] by (cases "c\<^sub>1 = s") (auto simp: rollback_recorded_def)
      then show ?thesis using 1(1) 2 s by (auto simp: check_rolled_back_def rolled_back_error_def sr_seek_write_def)
    next
      case none: 2
      then have "\<not> rollback_recorded W s" using W by (auto simp: rollback_recorded_def no_version_def)
      then show ?thesis using none(1) 2 s by (auto simp: check_rolled_back_def sr_seek_write_def)
    qed
  next
    case 3
    then have "\<not> rollback_recorded W s" using newest_ge [OF latest, of s] by (auto simp: rollback_recorded_def)
    with 3 s show ?thesis by (auto simp: check_rolled_back_def)
  qed
qed

lemma check_not_exist_ok:
  assumes wf: "wf_store (sr_engine r)" and W: "W = write_at (sr_engine r) (from_raw raw)"
    and ok: "settled W" and latest: "is_latest W ts_max c w" and s: "sr_start_ts r = s"
  shows "if q_should_not_exist q \<and> put_exists W
    then \<exists>t. check_not_exist r q w c (from_raw raw) info =
      Err (case info of Some i \<Rightarrow> into_write_conflict_error i s (q_primary q) raw | None \<Rightarrow> AlreadyExist raw t)
    else check_not_exist r q w c (from_raw raw) info = Ok ()"
  using check_data_constraint_ok [OF wf W settledD [OF ok] latest, of "q_should_not_exist q"] s
  by (auto simp: check_not_exist_def put_exists_def split: option.splits)

lemma skip_latest_data:
  assumes "is_latest W ts_max c w" "\<not> is_data w" "0 < c"
  shows "latest_data W (c - 1) t p \<longleftrightarrow> latest_data W ts_max t p"
  using change_below_prev [OF assms(3)] latest_data_skip [OF assms(1,2)] by blast

lemma reads_put_exists: "reads e raw ts_max v \<Longrightarrow> put_exists (write_at e (from_raw raw))"
  by (auto simp: reads_def put_exists_def)

lemma load_data_reads:
  assumes "data_complete (r_engine r) raw" "latest_data (write_at (r_engine r) (from_raw raw)) ts c w" "w_type w = WT_Put"
  obtains v where "load_data r (from_raw raw) w = Ok v" "reads (r_engine r) raw ts v"
proof -
  have "write_at (r_engine r) (from_raw raw) c = Some w" using assms(2) by (simp add: latest_data_def)
  then show thesis
    using assms that unfolding reads_def data_complete_def
    by (cases "w_short_value w") (fastforce simp: load_data_def get_value_ok)+
qed

lemma locked_value_ok:
  assumes wf: "wf_store (sr_engine r)" and W: "W = write_at (sr_engine r) (from_raw raw)"
    and ok: "settled W" and latest: "is_latest W ts_max c w" and data: "data_complete (sr_engine r) raw"
  obtains v where "locked_value r (from_raw raw) w c need_load = Ok v" "v \<noteq> None \<longleftrightarrow> put_exists W"
    "need_load \<Longrightarrow> \<forall>x. v = Some x \<longleftrightarrow> reads (sr_engine r) raw ts_max x"
proof -
  have chk: "checkable W t" for t using ok by (rule settledD)
  consider (put) "w_type w = WT_Put" | (del) "w_type w = WT_Delete" | (other) "\<not> is_data w"
    by (auto simp: is_data_def)
  then show thesis
  proof cases
    case put
    have l: "latest_data W ts_max c w" by (rule latest_is_latest_data [OF latest]) (simp add: put is_data_def)
    have fence: "check_gc_fence_as_latest_version w t" for t
      using chk [of t] fence_free_latest [OF _ latest, of "Some t"] by (auto simp: checkable_def gc_fence_passed_def)
    obtain v where v: "sr_load_data r (from_raw raw) w = Ok v" "reads (sr_engine r) raw ts_max v"
      using load_data_reads [OF data _ put] l W unfolding sr_load_data_def by blast
    have "put_exists W" using l put by (auto simp: put_exists_def)
    with v put fence show thesis
      using reads_unique [of "sr_engine r" raw ts_max]
      by (intro that [of "if need_load then Some v else Some []"]) (auto simp: locked_value_def)
  next
    case del
    have l: "latest_data W ts_max c w" by (rule latest_is_latest_data [OF latest]) (simp add: del is_data_def)
    then have no: "\<not> put_exists W" using latest_data_unique [OF l] del unfolding put_exists_def by fastforce
    then have "\<not> reads (sr_engine r) raw ts_max x" for x using reads_put_exists W by blast
    with no del show thesis by (intro that [of None]) (auto simp: locked_value_def)
  next
    case other
    have c0: "0 < c" by (rule newest_positive [OF chk latest])
    have prev: "ts_prev c = (Ok (c - 1) :: TimeStamp mvcc_result)" by (rule ts_prev_pos [OF c0])
    note same = skip_latest_data [OF latest other c0]
    have fence: "fence_free W (Some (sr_start_ts r)) (c - 1)"
      using fence_free_skip [OF _ latest other c0] chk by (auto simp: checkable_def)
    have lc: "last_change_ok W" "W 0 = None" using chk [of 0] by (simp_all add: checkable_def)
    have reads: "reads (sr_engine r) raw (c - 1) x \<longleftrightarrow> reads (sr_engine r) raw ts_max x" for x
      using same W unfolding reads_def by simp
    show thesis
    proof (cases need_load)
      case True
      obtain v where v: "sr_get r (from_raw raw) (c - 1) = Ok v"
        "\<forall>x. v = Some x \<longleftrightarrow> reads (sr_engine r) raw ts_max x"
        using reader_get_ok [OF wf W lc fence data] unfolding sr_get_def reads by blast
      have "v \<noteq> None \<longleftrightarrow> put_exists W"
      proof
        assume "put_exists W"
        then obtain t p where "latest_data W ts_max t p" "w_type p = WT_Put" by (auto simp: put_exists_def)
        with W obtain x where "reads (sr_engine r) raw ts_max x" using load_data_reads [OF data] by blast
        with v(2) show "v \<noteq> None" by auto
      qed (use v(2) reads_put_exists W in blast)
      with v True other prev show thesis
        by (intro that [of v]) (auto simp: locked_value_def is_data_def split: write_type.split)
    next
      case False
      obtain res where res: "get_write_with_commit_ts (sr_reader r) (from_raw raw) (c - 1) (Some (sr_start_ts r)) = Ok res"
        "visible_put W (c - 1) res"
        by (rule get_write_with_commit_ts_ok [OF wf W lc fence])
      have "res \<noteq> None \<longleftrightarrow> put_exists W"
        using res(2) same unfolding visible_put_def put_exists_def by (metis not_None_eq surj_pair)
      with res(1) False other prev show thesis
        by (intro that [of "map_option (\<lambda>_. []) res"])
          (auto simp: locked_value_def is_data_def sr_get_write_def get_write_def option.map_comp comp_def split: write_type.split)
    qed
  qed
qed

text \<open>What is known when the checks have passed: the lock will stand above every record of the key.\<close>

definition newest_right :: "engine \<Rightarrow> bytes \<Rightarrow> lock_request \<Rightarrow> newest_info \<Rightarrow> bool" where
  "newest_right e raw q n \<longleftrightarrow>
     (let W = write_at e (from_raw raw); newer = newer_record W (q_for_update_ts q) in
      (n_conflict n \<noteq> None \<longleftrightarrow> newer) \<and>
      (newer \<longrightarrow> map_option ci_commit_ts (n_conflict n) = Some (n_for_update_ts n) \<and> W (n_for_update_ts n) \<noteq> None) \<and>
      (\<not> newer \<longrightarrow> n_for_update_ts n = q_for_update_ts q) \<and>
      q_for_update_ts q \<le> n_for_update_ts n \<and> (\<forall>d p. W d = Some p \<longrightarrow> d \<le> n_for_update_ts n) \<and>
      hint_right W (n_for_update_ts n) (n_last_change n) \<and>
      n_need_load_value n = (newer \<or> q_need_value q \<or> q_need_check_existence q \<and> q_need_old_value q) \<and>
      (if q_need_value q \<or> q_need_check_existence q \<or> newer
       then (n_val n \<noteq> None \<longleftrightarrow> put_exists W) \<and>
         (n_need_load_value n \<longrightarrow> (\<forall>x. n_val n = Some x \<longleftrightarrow> reads e raw ts_max x))
       else n_val n = None) \<and>
      (case n_prev_write n of
         Some w \<Rightarrow> q_need_old_value q \<and> (\<exists>c. is_latest W ts_max c w)
       | None \<Rightarrow> q_need_old_value q \<longrightarrow> (\<forall>d. W d = None)))"

lemma check_newest_ok:
  assumes wf: "wf_store (sr_engine r)" and W: "W = write_at (sr_engine r) (from_raw raw)" and inv: "key_inv W"
    and ok: "settled W" and data: "data_complete (sr_engine r) raw"
    and s: "sr_start_ts r = s" "t_start_ts txn = s"
  shows "if newer_record W (q_for_update_ts q) \<and> \<not> q_allow_lock_with_conflict q
    then \<exists>t c. check_newest txn r (from_raw raw) q = Err (WriteConflict s t c raw (q_primary q) PessimisticRetry)
    else if rollback_recorded W s then check_newest txn r (from_raw raw) q = Err (PessimisticLockRolledBack s raw)
    else if q_should_not_exist q \<and> put_exists W
    then \<exists>t c. check_newest txn r (from_raw raw) q =
      Err (if newer_record W (q_for_update_ts q) then WriteConflict s t c raw (q_primary q) PessimisticRetry else AlreadyExist raw t)
    else \<exists>n. check_newest txn r (from_raw raw) q = Ok n \<and> newest_right (sr_engine r) raw q n"
proof (cases rule: newest_or_none [OF wf, where raw = raw])
  case 2
  then have none: "W d = None" for d using W by simp
  then have no: "\<not> newer_record W t" "\<not> rollback_recorded W t" "\<not> put_exists W" "\<not> reads (sr_engine r) raw ts_max x" for t x
    using W by (auto simp: newer_record_def rollback_recorded_def put_exists_def latest_data_def reads_def)
  define n where "n = \<lparr> n_conflict = None, n_for_update_ts = q_for_update_ts q,
      n_need_load_value = (q_need_value q \<or> q_need_check_existence q \<and> q_need_old_value q),
      n_last_change = LC_NotExist, n_prev_write = None, n_val = None \<rparr>"
  have "check_newest txn r (from_raw raw) q = Ok n" using 2(1) by (simp add: check_newest_def n_def)
  moreover have "newest_right (sr_engine r) raw q n"
    using no none W
    by (simp add: newest_right_def n_def Let_def hint_right_def wf_last_change_def last_change_right_def change_below_def)
  ultimately show ?thesis using no by simp
next
  case (1 c w)
  have latest: "is_latest W ts_max c w" and wfw: "wf_write w" using 1(2,3) W by simp_all
  let ?newer = "q_for_update_ts q < c"
  have newer: "newer_record W (q_for_update_ts q) \<longleftrightarrow> ?newer" by (rule newer_record_iff [OF latest])
  let ?info = "if ?newer then Some \<lparr> ci_start_ts = w_start_ts w, ci_commit_ts = c \<rparr> else None"
  let ?load = "?newer \<or> q_need_value q \<or> q_need_check_existence q \<and> q_need_old_value q"
  note rb = check_rolled_back_ok [OF wf W inv latest s(1)]
  note ne = check_not_exist_ok [OF wf W ok latest s(1), of q ?info]
  obtain lc where lc: "next_last_change_info (from_raw raw) w s r c = Ok lc" "wf_last_change lc"
    "\<And>d. c < d \<Longrightarrow> last_change_right W d lc" by (rule next_last_change_ok [OF wf W settledD [OF ok] latest wfw]) (rule that)
  obtain v where v: "locked_value r (from_raw raw) w c ?load = Ok v" "v \<noteq> None \<longleftrightarrow> put_exists W"
    "?load \<Longrightarrow> \<forall>x. v = Some x \<longleftrightarrow> reads (sr_engine r) raw ts_max x"
    by (rule locked_value_ok [OF wf W ok latest data]) (rule that)
  have eq: "check_newest txn r (from_raw raw) q =
      (if ?newer \<and> \<not> q_allow_lock_with_conflict q
       then Err (WriteConflict s (w_start_ts w) c raw (q_primary q) PessimisticRetry)
       else rbind (check_rolled_back r (from_raw raw) w c) (\<lambda>_.
         rbind (check_not_exist r q w c (from_raw raw) ?info) (\<lambda>_.
         rbind (if q_need_value q \<or> q_need_check_existence q \<or> ?newer then Ok v else Ok None) (\<lambda>val.
           Ok \<lparr> n_conflict = ?info, n_for_update_ts = (if ?newer then c else q_for_update_ts q),
                n_need_load_value = ?load, n_last_change = lc,
                n_prev_write = (if q_need_old_value q then Some w else None), n_val = val \<rparr>))))"
    unfolding check_newest_def Let_def using 1(1) lc(1) v(1) s by (simp cong: if_cong)
  consider (conflict) "?newer" "\<not> q_allow_lock_with_conflict q"
    | (rolled) "\<not> (?newer \<and> \<not> q_allow_lock_with_conflict q)" "rollback_recorded W s"
    | (exist) "\<not> (?newer \<and> \<not> q_allow_lock_with_conflict q)" "\<not> rollback_recorded W s" "q_should_not_exist q" "put_exists W"
    | (ok) "\<not> (?newer \<and> \<not> q_allow_lock_with_conflict q)" "\<not> rollback_recorded W s" "\<not> (q_should_not_exist q \<and> put_exists W)"
    by blast
  then show ?thesis
  proof cases
    case conflict
    then show ?thesis unfolding eq newer by auto
  next
    case rolled
    then show ?thesis unfolding eq newer using rb by auto
  next
    case exist
    then obtain t where "check_not_exist r q w c (from_raw raw) ?info =
      Err (case ?info of Some i \<Rightarrow> into_write_conflict_error i s (q_primary q) raw | None \<Rightarrow> AlreadyExist raw t)"
      using ne by auto
    then have "check_newest txn r (from_raw raw) q =
      Err (if ?newer then WriteConflict s (w_start_ts w) c raw (q_primary q) PessimisticRetry else AlreadyExist raw t)"
      unfolding eq using exist rb by (auto simp: into_write_conflict_error_def)
    with exist show ?thesis unfolding newer by auto
  next
    case ok
    define n where "n = \<lparr> n_conflict = ?info, n_for_update_ts = (if ?newer then c else q_for_update_ts q),
                n_need_load_value = ?load, n_last_change = lc,
                n_prev_write = (if q_need_old_value q then Some w else None),
                n_val = (if q_need_value q \<or> q_need_check_existence q \<or> ?newer then v else None) \<rparr>"
    have "check_not_exist r q w c (from_raw raw) ?info = Ok ()" using ne ok(3) by auto
    then have "check_newest txn r (from_raw raw) q = Ok n" unfolding eq using ok rb by (simp add: n_def)
    moreover have "newest_right (sr_engine r) raw q n"
      using newest_ge [OF latest] lc(2,3) v(2,3) latest W newer
      by (auto simp: newest_right_def n_def Let_def hint_right_def is_latest_def dest: order_trans intro: less_imp_le le_less_trans)
    ultimately show ?thesis using ok unfolding newer by auto
  qed
qed

lemma new_old_value_ok:
  assumes wf: "wf_store (sr_engine r)" and W: "W = write_at (sr_engine r) (from_raw raw)"
    and ok: "settled W" and n: "newest_right (sr_engine r) raw q n"
  shows "\<exists>old. load_old_value (q_need_old_value q) (n_need_load_value n) (n_val n) r (from_raw raw) (n_for_update_ts n)
    True (n_prev_write n) = Ok old"
proof (cases "q_need_old_value q \<and> \<not> n_need_load_value n")
  case True
  obtain prev where prev: "n_prev_write n = map_option fst prev"
    "case prev of None \<Rightarrow> \<forall>c. W c = None | Some (w, c) \<Rightarrow> is_latest W ts_max c w \<and> c \<le> n_for_update_ts n"
  proof (cases "n_prev_write n")
    case None
    then show thesis using n True W by (intro that [of None]) (auto simp: newest_right_def Let_def)
  next
    case (Some w)
    then obtain c where "is_latest W ts_max c w" using n W by (auto simp: newest_right_def Let_def)
    moreover from this have "c \<le> n_for_update_ts n"
      using n W by (auto simp: newest_right_def Let_def is_latest_def)
    ultimately show thesis using Some by (intro that [of "Some (w, c)"]) simp_all
  qed
  with get_old_value_ok [OF wf W settledD [OF ok] prev(2)] True show ?thesis
    by (auto simp: load_old_value_def sr_get_old_value_def)
qed (auto simp: load_old_value_def)

definition request_lock :: "TimeStamp \<Rightarrow> lock_request \<Rightarrow> TimeStamp \<Rightarrow> last_change \<Rightarrow> bool \<Rightarrow> pessimistic_lock" where
  "request_lock s q for_update_ts lc with_conflict =
     \<lparr> p_primary = q_primary q, p_start_ts = s, p_ttl = q_lock_ttl q, p_for_update_ts = for_update_ts,
       p_min_commit_ts = q_min_commit_ts q, p_last_change = lc, p_is_locked_with_conflict = with_conflict \<rparr>"

lemma request_lock_simps [simp]:
  "l_type (pessimistic_to_lock (request_lock s q f lc b)) = LT_Pessimistic"
  "l_ts (pessimistic_to_lock (request_lock s q f lc b)) = s"
  "l_for_update_ts (pessimistic_to_lock (request_lock s q f lc b)) = f"
  "l_min_commit_ts (pessimistic_to_lock (request_lock s q f lc b)) = q_min_commit_ts q"
  "l_last_change (pessimistic_to_lock (request_lock s q f lc b)) = lc"
  "l_is_locked_with_conflict (pessimistic_to_lock (request_lock s q f lc b)) = b"
  "is_pessimistic_lock (pessimistic_to_lock (request_lock s q f lc b))"
  by (simp_all add: request_lock_def pessimistic_to_lock_def lock_new_def lock_set_last_change_def is_pessimistic_lock_def)

lemma wf_request_lock:
  assumes "length (q_primary q) < 2 ^ 64" "wf_last_change lc"
  shows "wf_lock (pessimistic_to_lock (request_lock s q f lc b))"
  using assms by (simp add: wf_lock_def request_lock_def pessimistic_to_lock_def lock_new_def lock_set_last_change_def ISIZE_MAX_def)

text \<open>A store in which only the lock of one key is replaced.\<close>

definition lock_put :: "engine \<Rightarrow> bytes \<Rightarrow> lock \<Rightarrow> engine \<Rightarrow> bool" where
  "lock_put e raw l e' \<longleftrightarrow> wf_store e' \<and> write_at e' = write_at e \<and> data_at e' = data_at e \<and>
     lock_at e' = (lock_at e)(from_raw raw \<mapsto> l)"

lemma put_pessimistic_lock_store:
  assumes "wf_store e" "wf_lock (pessimistic_to_lock p)" "t_modifies txn = []" "t_locks_for_1pc txn = []"
  obtains txn' e' where "put_pessimistic_lock (from_raw raw) p is_new txn = Ok txn'"
    "apply_txn e txn' = Ok e'" "lock_put e raw (pessimistic_to_lock p) e'"
proof -
  let ?ops = "[PutLock (from_raw raw) (pessimistic_to_lock p)]"
  obtain txn' where txn': "put_pessimistic_lock (from_raw raw) p is_new txn = Ok txn'"
    "t_modifies txn' = [PessimisticLockPut (from_raw raw) p]" "t_locks_for_1pc txn' = []"
    using assms(3,4) that by (cases is_new) (auto simp: put_pessimistic_lock_def push_new_lock_def)
  have "list_all wf_op ?ops" using assms(2) by auto
  then obtain e' where e': "write_modifies e (map op_modify ?ops) = (Ok e' :: engine mvcc_result)" "wf_store e'"
    "write_at e' = ops_write ?ops (write_at e)" "lock_at e' = ops_lock ?ops (lock_at e)"
    "data_at e' = ops_data ?ops (data_at e)" using ops_refine [OF assms(1)] by metis
  have "apply_txn e txn' = Ok e'" using e'(1) txn'(2,3) by (simp add: apply_txn_def into_modifies_def)
  then show thesis using e' by (intro that [OF txn'(1)]) (simp_all add: lock_put_def)
qed

lemma lock_put_key_ok:
  assumes "key_ok e raw" "lock_put e raw l e'" "\<And>c. \<not> committed_at (write_at e (from_raw raw)) (l_ts l) c"
  shows "key_ok e' raw"
  using assms by (auto simp: key_ok_def lock_put_def)

lemma lock_put_reads:
  assumes "lock_put e raw l e'"
  shows "reads e' raw' ts v \<longleftrightarrow> reads e raw' ts v"
proof -
  have "write_at e' = write_at e" "data_at e' = data_at e" using assms by (simp_all add: lock_put_def)
  then show ?thesis unfolding reads_def by (simp only:)
qed

lemma newest_value:
  obtains v where "\<And>x. v = Some x \<longleftrightarrow> reads e raw ts x"
  using reads_unique [of e raw ts] that [of None] that [of "Some _"] by (metis option.distinct(1) option.inject)

text \<open>The maximal timestamp is pushed first when the request reads the key.\<close>

definition request_reads :: "lock_request \<Rightarrow> bool" where
  "request_reads q \<longleftrightarrow> q_should_not_exist q \<or> q_need_value q \<or> q_need_check_existence q"

definition start_lock :: "env \<Rightarrow> lock_request \<Rightarrow> mvcc_txn \<Rightarrow> mvcc_txn \<Rightarrow> bool" where
  "start_lock env q txn txn\<^sub>0 \<longleftrightarrow>
     (if request_reads q then txn_update_max_ts env (q_for_update_ts q) txn else (Ok (), txn)) = (Ok (), txn\<^sub>0)"

lemma start_lock_fields:
  assumes "start_lock env q txn txn\<^sub>0"
  shows "t_modifies txn\<^sub>0 = t_modifies txn" "t_locks_for_1pc txn\<^sub>0 = t_locks_for_1pc txn" "t_start_ts txn\<^sub>0 = t_start_ts txn"
    "request_reads q \<Longrightarrow> \<not> is_max (q_for_update_ts q) \<Longrightarrow> q_for_update_ts q \<le> cm_max_ts (t_cm txn\<^sub>0)"
  using assms update_max_ts_cases [of "env_now env" "env_tso env" "q_for_update_ts q" "t_cm txn"]
  by (auto simp: start_lock_def txn_update_max_ts_def split: if_splits prod.splits result.splits)

lemma acquire_start:
  assumes "start_lock env q txn txn\<^sub>0" "q_lock_only_if_exists q \<longrightarrow> q_need_value q"
  shows "acquire_pessimistic_lock env txn r key q =
    lift_result (acquire_checked env txn\<^sub>0 r key q) txn\<^sub>0 (\<lambda>(res, txn). (Ok res, txn))"
  using assms by (auto simp: acquire_pessimistic_lock_def start_lock_def request_reads_def split: if_splits)

lemma put_pessimistic_lock_cm:
  "put_pessimistic_lock key p is_new txn = Ok txn' \<Longrightarrow> t_cm txn' = t_cm txn"
  by (auto simp: put_pessimistic_lock_def push_new_lock_def split: if_splits result.splits)

text \<open>The result of a granted request, from the value of the key.\<close>

definition granted :: "lock_request \<Rightarrow> bool \<Rightarrow> TimeStamp \<Rightarrow> Value option \<Rightarrow> pessimistic_key_result" where
  "granted q conflict for_update_ts v =
     (if conflict then PR_LockedWithConflict v for_update_ts
      else if q_need_value q then PR_Value v
      else if q_need_check_existence q then PR_Existence (v \<noteq> None)
      else PR_Empty)"

lemma put_exists_reads:
  assumes "data_complete e raw" "put_exists (write_at e (from_raw raw))"
  shows "\<exists>x. reads e raw ts_max x"
proof -
  obtain t p where p: "latest_data (write_at e (from_raw raw)) ts_max t p" "w_type p = WT_Put"
    using assms(2) by (auto simp: put_exists_def)
  then have "write_at e (from_raw raw) t = Some p" by (simp add: latest_data_def)
  with p assms(1) show ?thesis
    unfolding reads_def data_complete_def by (cases "w_short_value p") fastforce+
qed

lemma new_success_granted:
  assumes n: "newest_right e raw q n" and data: "data_complete e raw" and v: "\<And>x. v = Some x \<longleftrightarrow> reads e raw ts_max x"
  shows "new_success (q_need_value q) (q_need_check_existence q) (map_option ci_commit_ts (n_conflict n)) (n_val n) =
    granted q (newer_record (write_at e (from_raw raw)) (q_for_update_ts q)) (n_for_update_ts n) v"
proof -
  let ?newer = "newer_record (write_at e (from_raw raw)) (q_for_update_ts q)"
  have exists: "v \<noteq> None \<longleftrightarrow> put_exists (write_at e (from_raw raw))"
    using v put_exists_reads [OF data] reads_put_exists [of e raw] by (metis option.exhaust option.distinct(1))
  have load: "n_val n = v" if "?newer \<or> q_need_value q"
    using n v that by (auto simp: newest_right_def Let_def intro: option.expand) (metis option.exhaust)+
  have val: "n_val n \<noteq> None \<longleftrightarrow> v \<noteq> None" if "q_need_check_existence q"
    using n that unfolding newest_right_def Let_def exists by presburger
  have "map_option ci_commit_ts (n_conflict n) = (if ?newer then Some (n_for_update_ts n) else None)"
    using n unfolding newest_right_def Let_def by auto
  then show ?thesis
    using load val by (cases ?newer; cases "q_need_value q") (auto simp: granted_def new_success_def)
qed

section \<open>Properties of pessimistic locks\<close>

lemma acquire_new_ok:
  assumes ok: "key_ok e raw" and st: "settled (write_at e (from_raw raw))" and data: "data_complete e raw"
    and uncommitted: "\<And>c. \<not> committed_at (write_at e (from_raw raw)) s c"
    and txn: "t_modifies txn = []" "t_locks_for_1pc txn = []" "t_start_ts txn = s" and "length (q_primary q) < 2 ^ 64"
    and n: "check_newest txn (reader_at e s) (from_raw raw) q = Ok n" "newest_right e raw q n"
    and v: "\<And>x. v = Some x \<longleftrightarrow> reads e raw ts_max x"
    and lock: "q_lock_only_if_exists q \<longrightarrow> v \<noteq> None" "q_lock_only_if_exists q \<longrightarrow> q_need_value q"
  obtains old l txn' e' where
    "acquire_new env txn (reader_at e s) (from_raw raw) q =
       Ok ((granted q (newer_record (write_at e (from_raw raw)) (q_for_update_ts q)) (l_for_update_ts l) v, old), txn')"
    "apply_txn e txn' = Ok e'" "lock_put e raw l e'" "key_ok e' raw" "is_pessimistic_lock l" "l_ts l = s"
    "l_for_update_ts l = n_for_update_ts n" "l_min_commit_ts l = q_min_commit_ts q"
    "l_last_change l = LC_Unknown \<or> l_last_change l = n_last_change n" "t_cm txn' = t_cm txn"
proof -
  have wf: "wf_store (sr_engine (reader_at e s))"
    "write_at e (from_raw raw) = write_at (sr_engine (reader_at e s)) (from_raw raw)"
    using key_ok_wf [OF ok] by simp_all
  obtain old where old: "load_old_value (q_need_old_value q) (n_need_load_value n) (n_val n) (reader_at e s) (from_raw raw)
      (n_for_update_ts n) True (n_prev_write n) = Ok old"
    using new_old_value_ok [OF wf st, of q n] n(2) by auto
  have load: "n_val n = v" if "q_lock_only_if_exists q"
    using n(2) v that lock(2) unfolding newest_right_def Let_def by (metis option.exhaust)
  let ?lc = "if env_last_change env then n_last_change n else LC_Unknown"
  let ?p = "request_lock s q (n_for_update_ts n) ?lc (n_conflict n \<noteq> None)"
  have hint: "wf_last_change (n_last_change n)" using n(2) by (auto simp: newest_right_def hint_right_def Let_def)
  then have "wf_lock (pessimistic_to_lock ?p)"
    using assms(8) by (intro wf_request_lock) (simp_all add: wf_last_change_def)
  from put_pessimistic_lock_store [OF key_ok_wf [OF ok] this txn(1,2)]
  obtain txn' e' where put: "put_pessimistic_lock (from_raw raw) ?p True txn = Ok txn'"
    "apply_txn e txn' = Ok e'" "lock_put e raw (pessimistic_to_lock ?p) e'" by blast
  have "acquire_new env txn (reader_at e s) (from_raw raw) q =
      Ok ((granted q (newer_record (write_at e (from_raw raw)) (q_for_update_ts q)) (n_for_update_ts n) v, old), txn')"
    unfolding acquire_new_def using n(1) old put(1) load lock(1) new_success_granted [OF n(2) data v]
    by (auto simp: request_lock_def)
  then show thesis
    using put(2,3) lock_put_key_ok [OF ok put(3)] uncommitted put_pessimistic_lock_cm [OF put(1)]
    by (intro that [of "pessimistic_to_lock ?p" old txn' e']) simp_all
qed

lemma acquire_new_absent:
  assumes ok: "key_ok e raw" and st: "settled (write_at e (from_raw raw))"
    and n: "check_newest txn (reader_at e s) (from_raw raw) q = Ok n" "newest_right e raw q n"
    and absent: "q_lock_only_if_exists q" "q_need_value q" "\<not> put_exists (write_at e (from_raw raw))"
    and newer: "newer \<longleftrightarrow> newer_record (write_at e (from_raw raw)) (q_for_update_ts q)"
  shows "if newer
    then \<exists>t c. acquire_new env txn (reader_at e s) (from_raw raw) q = Err (WriteConflict s t c raw (q_primary q) PessimisticRetry)
    else \<exists>old. acquire_new env txn (reader_at e s) (from_raw raw) q = Ok ((PR_Value None, old), txn)"
proof -
  have wf: "wf_store (sr_engine (reader_at e s))"
    "write_at e (from_raw raw) = write_at (sr_engine (reader_at e s)) (from_raw raw)"
    using key_ok_wf [OF ok] by simp_all
  obtain old where old: "load_old_value (q_need_old_value q) (n_need_load_value n) (n_val n) (reader_at e s) (from_raw raw)
      (n_for_update_ts n) True (n_prev_write n) = Ok old"
    using new_old_value_ok [OF wf st, of q n] n(2) by auto
  have val: "n_val n = None" using n(2) absent(2,3) by (auto simp: newest_right_def Let_def)
  have conflict: "n_conflict n \<noteq> None \<longleftrightarrow> newer" using n(2) newer by (simp add: newest_right_def Let_def)
  show ?thesis
    using n(1) old val absent(1,2) conflict
    by (cases "n_conflict n") (auto simp: acquire_new_def into_write_conflict_error_def new_success_def)
qed

text \<open>
  C14: A request for a pessimistic lock on an unlocked key decides on the view of the store. A record
  newer than the timestamp the transaction read at is a conflict, unless the request accepts it; a
  rollback of the transaction is noticed also below newer records; a key that must not exist, or must
  exist, is checked against its newest value. Otherwise the lock is the only change of the store. It
  stands at or above every record of the key, keeps the invariant of the key, carries a right hint,
  and the value or existence returned is that of the newest version. The reads of the request are
  registered in the maximal timestamp.
\<close>

theorem acquire_lock_refines:
  assumes "key_ok e raw" "settled (write_at e (from_raw raw))" "data_complete e raw" "lock_at e (from_raw raw) = None"
    and "\<forall>c. \<not> committed_at (write_at e (from_raw raw)) s c" "length (q_primary q) < 2 ^ 64"
    and "start_lock env q (txn_new s cm) txn\<^sub>0" "q_lock_only_if_exists q \<longrightarrow> q_need_value q"
    and W: "W = write_at e (from_raw raw)" and newer: "newer \<longleftrightarrow> newer_record W (q_for_update_ts q)"
  shows "\<exists>res txn'. acquire_pessimistic_lock env (txn_new s cm) (reader_at e s) (from_raw raw) q = (res, txn') \<and>
    (request_reads q \<and> \<not> is_max (q_for_update_ts q) \<longrightarrow> q_for_update_ts q \<le> cm_max_ts (t_cm txn')) \<and>
    (if newer \<and> \<not> q_allow_lock_with_conflict q
     then t_modifies txn' = [] \<and> (\<exists>t c. res = Err (WriteConflict s t c raw (q_primary q) PessimisticRetry))
     else if rollback_recorded W s
     then t_modifies txn' = [] \<and> res = Err (PessimisticLockRolledBack s raw)
     else if q_should_not_exist q \<and> put_exists W
     then t_modifies txn' = [] \<and>
       (\<exists>t c. res = Err (if newer then WriteConflict s t c raw (q_primary q) PessimisticRetry else AlreadyExist raw t))
     else if q_lock_only_if_exists q \<and> \<not> put_exists W
     then t_modifies txn' = [] \<and>
       (if newer then \<exists>t c. res = Err (WriteConflict s t c raw (q_primary q) PessimisticRetry)
        else \<exists>old. res = Ok (PR_Value None, old))
     else \<exists>v old l e'. res = Ok (granted q newer (l_for_update_ts l) v, old) \<and>
       (\<forall>x. v = Some x \<longleftrightarrow> reads e raw ts_max x) \<and>
       apply_txn e txn' = Ok e' \<and> lock_put e raw l e' \<and> key_ok e' raw \<and> is_pessimistic_lock l \<and> l_ts l = s \<and>
       q_for_update_ts q \<le> l_for_update_ts l \<and> (\<not> newer \<longrightarrow> l_for_update_ts l = q_for_update_ts q) \<and>
       (\<forall>d p. W d = Some p \<longrightarrow> d \<le> l_for_update_ts l) \<and> l_min_commit_ts l = q_min_commit_ts q \<and>
       (l_last_change l = LC_Unknown \<or> hint_right W (l_for_update_ts l) (l_last_change l)))"
proof -
  note t\<^sub>0 = start_lock_fields [OF assms(7)]
  have wf: "wf_store (sr_engine (reader_at e s))" "W = write_at (sr_engine (reader_at e s)) (from_raw raw)"
    "key_inv W" "data_complete (sr_engine (reader_at e s)) raw" "sr_start_ts (reader_at e s) = s" "t_start_ts txn\<^sub>0 = s"
    using key_ok_wf [OF assms(1)] key_ok_inv [OF assms(1)] W assms(3) t\<^sub>0(3) by simp_all
  have st: "settled W" using assms(2) W by simp
  obtain v where v: "\<And>x. v = Some x \<longleftrightarrow> reads e raw ts_max x" by (rule newest_value) (rule that)
  have exists: "v \<noteq> None \<longleftrightarrow> put_exists W"
    using v put_exists_reads [OF assms(3)] reads_put_exists [of e raw] W by (metis option.exhaust option.distinct(1))
  have load: "acquire_checked env txn\<^sub>0 (reader_at e s) (from_raw raw) q = acquire_new env txn\<^sub>0 (reader_at e s) (from_raw raw) q"
    using sr_load_lock_ok [OF key_ok_clean [OF assms(1), of s]] assms(4) by (simp add: acquire_checked_def)
  note call = acquire_start [OF assms(7,8), of "reader_at e s" "from_raw raw", unfolded load]
  note checks = check_newest_ok [OF wf(1-3) st wf(4-6), of q, folded newer]
  consider (conflict) "newer \<and> \<not> q_allow_lock_with_conflict q"
    | (rolled) "\<not> (newer \<and> \<not> q_allow_lock_with_conflict q)" "rollback_recorded W s"
    | (exist) "\<not> (newer \<and> \<not> q_allow_lock_with_conflict q)" "\<not> rollback_recorded W s" "q_should_not_exist q \<and> put_exists W"
    | (passed) "\<not> (newer \<and> \<not> q_allow_lock_with_conflict q)" "\<not> rollback_recorded W s" "\<not> (q_should_not_exist q \<and> put_exists W)"
    by blast
  then show ?thesis
  proof cases
    case conflict
    then obtain t c where "check_newest txn\<^sub>0 (reader_at e s) (from_raw raw) q =
      Err (WriteConflict s t c raw (q_primary q) PessimisticRetry)" using checks by auto
    then have "acquire_pessimistic_lock env (txn_new s cm) (reader_at e s) (from_raw raw) q =
      (Err (WriteConflict s t c raw (q_primary q) PessimisticRetry), txn\<^sub>0)"
      unfolding call by (simp add: acquire_new_def)
    with conflict t\<^sub>0(1,4) show ?thesis by auto
  next
    case rolled
    then have "check_newest txn\<^sub>0 (reader_at e s) (from_raw raw) q = Err (PessimisticLockRolledBack s raw)"
      using checks by auto
    then have "acquire_pessimistic_lock env (txn_new s cm) (reader_at e s) (from_raw raw) q =
      (Err (PessimisticLockRolledBack s raw), txn\<^sub>0)" unfolding call by (simp add: acquire_new_def)
    with rolled t\<^sub>0(1,4) show ?thesis by auto
  next
    case exist
    then obtain t c where "check_newest txn\<^sub>0 (reader_at e s) (from_raw raw) q =
      Err (if newer then WriteConflict s t c raw (q_primary q) PessimisticRetry else AlreadyExist raw t)"
      using checks by auto
    then have "acquire_pessimistic_lock env (txn_new s cm) (reader_at e s) (from_raw raw) q =
      (Err (if newer then WriteConflict s t c raw (q_primary q) PessimisticRetry else AlreadyExist raw t), txn\<^sub>0)"
      unfolding call by (simp add: acquire_new_def)
    with exist t\<^sub>0(1,4) show ?thesis by auto
  next
    case passed
    then obtain n where n: "check_newest txn\<^sub>0 (reader_at e s) (from_raw raw) q = Ok n" "newest_right e raw q n"
      using checks by auto
    show ?thesis
    proof (cases "q_lock_only_if_exists q \<and> \<not> put_exists W")
      case True
      then have "if newer
        then \<exists>t c. acquire_new env txn\<^sub>0 (reader_at e s) (from_raw raw) q = Err (WriteConflict s t c raw (q_primary q) PessimisticRetry)
        else \<exists>old. acquire_new env txn\<^sub>0 (reader_at e s) (from_raw raw) q = Ok ((PR_Value None, old), txn\<^sub>0)"
        using acquire_new_absent [OF assms(1,2) n] W newer assms(8) by blast
      with passed True t\<^sub>0(1,4) show ?thesis unfolding call by (cases newer) auto
    next
      case False
      then have lock: "q_lock_only_if_exists q \<longrightarrow> v \<noteq> None" using exists by blast
      have t: "t_modifies txn\<^sub>0 = []" "t_locks_for_1pc txn\<^sub>0 = []" using t\<^sub>0(1,2) by simp_all
      obtain old l txn' e' where a: "acquire_new env txn\<^sub>0 (reader_at e s) (from_raw raw) q =
         Ok ((granted q (newer_record (write_at e (from_raw raw)) (q_for_update_ts q)) (l_for_update_ts l) v, old), txn')"
        and b: "apply_txn e txn' = Ok e'" "lock_put e raw l e'" "key_ok e' raw" "is_pessimistic_lock l" "l_ts l = s"
        "l_min_commit_ts l = q_min_commit_ts q" and c: "l_for_update_ts l = n_for_update_ts n"
        "l_last_change l = LC_Unknown \<or> l_last_change l = n_last_change n" "t_cm txn' = t_cm txn\<^sub>0"
        by (rule acquire_new_ok [OF assms(1-3) assms(5) [rule_format] t wf(6) assms(6) n v lock assms(8)])
      have "acquire_pessimistic_lock env (txn_new s cm) (reader_at e s) (from_raw raw) q =
        (Ok (granted q newer (l_for_update_ts l) v, old), txn')"
        unfolding call a newer W by simp
      moreover have "q_for_update_ts q \<le> l_for_update_ts l" "\<not> newer \<longrightarrow> l_for_update_ts l = q_for_update_ts q"
        "\<forall>d p. W d = Some p \<longrightarrow> d \<le> l_for_update_ts l"
        "l_last_change l = LC_Unknown \<or> hint_right W (l_for_update_ts l) (l_last_change l)"
        using n(2) c W newer unfolding newest_right_def Let_def by auto
      moreover have "request_reads q \<and> \<not> is_max (q_for_update_ts q) \<longrightarrow> q_for_update_ts q \<le> cm_max_ts (t_cm txn')"
        using t\<^sub>0(4) c(3) by simp
      ultimately show ?thesis
        unfolding if_not_P [OF passed(1)] if_not_P [OF passed(2)] if_not_P [OF passed(3)] if_not_P [OF False]
        using b v by blast
    qed
  qed
qed

section \<open>Prewriting a locked key\<close>

text \<open>What the prewrite of a pessimistic transaction asks for on a key it has locked.\<close>

definition pessimistic_request ::
    "transaction_properties \<Rightarrow> TimeStamp \<Rightarrow> TimeStamp \<Rightarrow> mutation \<Rightarrow> bytes \<Rightarrow> bool" where
  "pessimistic_request p s for_update_ts m raw \<longleftrightarrow>
     tp_start_ts p = s \<and> tp_kind p = PessimisticTxn for_update_ts \<and> tp_commit_kind p = TwoPc \<and>
     tp_assertion_level p = LevelOff \<and> length (tp_primary p) < 2 ^ 64 \<and> mutation_key m = from_raw raw \<and>
     \<not> should_not_write m"

lemma prewrite_pessimistic_ok:
  assumes ok: "key_ok e raw" and l: "lock_at e (from_raw raw) = Some l" "l_ts l = s" "is_pessimistic_lock l"
    and req: "pessimistic_request p s f m raw" and ex: "expected = None \<or> expected = Some (l_for_update_ts l)"
    and start: "start_txn env s m (txn_new s cm) txn\<^sub>0"
  obtains old k txn' e' where
    "prewrite env (txn_new s cm) (reader_at e s) p m None DoPessimisticCheck expected = (Ok (0, old), txn')"
    "apply_txn e txn' = Ok e'" "prewritten e raw m k e'" "l_ts k = s"
    "l_min_commit_ts k = max (tp_min_commit_ts p) (l_min_commit_ts l)"
    "l_last_change k = LC_Unknown \<or> l_last_change k = l_last_change l"
proof -
  have p: "tp_start_ts p = s" "tp_kind p = PessimisticTxn f" "tp_commit_kind p = TwoPc" "tp_assertion_level p = LevelOff"
    "length (tp_primary p) < 2 ^ 64" "mutation_key m = from_raw raw" "\<not> should_not_write m"
    using req by (simp_all add: pessimistic_request_def)
  obtain pm where pm: "from_mutation m None DoPessimisticCheck p = Ok pm" "mutation_start pm m None DoPessimisticCheck p"
    using from_mutation_ok [of p m] p(7) by auto
  obtain tp where tp: "lock_type_from_mutation m = Some tp" using lock_type_exists [OF p(7)] by blast
  define pm\<^sub>1 where "pm\<^sub>1 = pm\<lparr>pm_last_change := l_last_change l, pm_lock_ttl := max (pm_lock_ttl pm) (l_ttl l),
    pm_min_commit_ts := max (pm_min_commit_ts pm) (l_min_commit_ts l)\<rparr>"
  have pm': "pm_key pm\<^sub>1 = from_raw raw" "pm_lock_type pm\<^sub>1 = Some tp" "pm_secondary_keys pm\<^sub>1 = None"
    "tp_commit_kind (pm_txn_props pm\<^sub>1) = TwoPc" "pm_value pm\<^sub>1 = snd (into_key_value m)" "pm_txn_props pm\<^sub>1 = p"
    "pm_min_commit_ts pm\<^sub>1 = max (tp_min_commit_ts p) (l_min_commit_ts l)" "pm_last_change pm\<^sub>1 = l_last_change l"
    "pm_pessimistic_action pm\<^sub>1 = DoPessimisticCheck" "\<not> pm_should_not_write pm\<^sub>1"
    using pm(2) p tp by (simp_all add: mutation_start_def pm\<^sub>1_def)
  have status: "prewrite_lock_status pm (reader_at e s) DoPessimisticCheck expected 0 =
      Ok (LS_Pessimistic (l_for_update_ts l), False, pm\<^sub>1)"
    using sr_load_lock_ok [OF key_ok_clean [OF ok, of s], of "from_raw raw"] pm(2) p l ex
    by (auto simp: prewrite_lock_status_def check_lock_def mutation_start_def pm\<^sub>1_def Let_def split: option.splits)
  have skip: "skip_constraint_check pm\<^sub>1" using pm'(6,9) p(2) by (simp add: skip_constraint_check_def)
  have prev: "prewrite_prev_write pm\<^sub>1 (reader_at e s) True = Ok (None, False, pm\<^sub>1)"
    using skip pm'(6) p(4) by (simp add: prewrite_prev_write_def check_assertion_def)
  have "\<exists>old. prewrite_old_value pm\<^sub>1 (reader_at e s) False None = Ok old"
    using skip by (simp add: prewrite_old_value_def)
  then obtain old where old: "prewrite_old_value pm\<^sub>1 (reader_at e s) False None = Ok old" ..
  let ?st = "LS_Pessimistic (l_for_update_ts l)"
  let ?l = "prewrite_lock env pm\<^sub>1 tp ?st 0"
  obtain txn' where w: "write_lock env pm\<^sub>1 ?st txn\<^sub>0 False 0 = (Ok ts_zero, txn')"
    "txn_adds txn\<^sub>0 (prewrite_ops pm\<^sub>1 ?l) txn'" by (rule write_lock_2pc [OF pm'(1-4)])
  have wfl: "wf_lock l" using lock_at_entry [OF key_ok_wf [OF ok]] l(1) by simp
  have wl: "wf_lock ?l"
    using p(5) pm'(3,4,6,8) wfl by (intro wf_prewrite_lock) (auto simp: wf_lock_def)
  have mods: "t_modifies txn' = map op_modify (prewrite_ops pm\<^sub>1 ?l)" "t_locks_for_1pc txn' = []"
    using w(2) start_txn_fields [OF start] by (simp_all add: txn_adds_def)
  obtain e' where e': "apply_txn e txn' = Ok e'" "prewritten e raw m ?l e'"
    by (rule prewrite_ops_store [OF key_ok_wf [OF ok] wl pm'(1,5) _ _ _ mods]) (use tp in simp_all)
  have "(if pm_should_not_exist pm then txn_update_max_ts env s (txn_new s cm) else (Ok (), txn_new s cm)) = (Ok (), txn\<^sub>0)"
    using start pm(2) by (simp add: start_txn_def mutation_start_def)
  moreover have "prewrite_checked env txn\<^sub>0 (reader_at e s) pm\<^sub>1 ?st False DoPessimisticCheck 0 = (Ok (0, old), txn')"
    using prev old w(1) pm'(10) by (simp add: prewrite_checked_def ts_zero_def Let_def)
  ultimately have "prewrite env (txn_new s cm) (reader_at e s) p m None DoPessimisticCheck expected = (Ok (0, old), txn')"
    using pm(1) p(1) status by (auto simp: prewrite_def prewrite_with_generation_def split: if_splits)
  then show thesis using e' pm' p(1) by (intro that [of old txn' e' ?l]) simp_all
qed

definition lock_allowed :: "(TimeStamp \<Rightarrow> write option) \<Rightarrow> TimeStamp \<Rightarrow> lock_request \<Rightarrow> bool" where
  "lock_allowed W s q \<longleftrightarrow> \<not> (newer_record W (q_for_update_ts q) \<and> \<not> q_allow_lock_with_conflict q) \<and>
     \<not> rollback_recorded W s \<and> \<not> (q_should_not_exist q \<and> put_exists W)"

lemma acquire_granted:
  assumes ok: "key_ok e raw" "settled (write_at e (from_raw raw))" "data_complete e raw" "lock_at e (from_raw raw) = None"
    and un: "\<forall>c. \<not> committed_at (write_at e (from_raw raw)) s c" and "length (q_primary q) < 2 ^ 64"
    and start: "start_lock env q (txn_new s cm) txn\<^sub>0" and "\<not> q_lock_only_if_exists q"
    and allowed: "lock_allowed (write_at e (from_raw raw)) s q"
  obtains res txn' l e\<^sub>1 where
    "acquire_pessimistic_lock env (txn_new s cm) (reader_at e s) (from_raw raw) q = (Ok res, txn')"
    "apply_txn e txn' = Ok e\<^sub>1" "lock_put e raw l e\<^sub>1" "key_ok e\<^sub>1 raw" "is_pessimistic_lock l" "l_ts l = s"
    "\<not> newer_record (write_at e (from_raw raw)) (q_for_update_ts q) \<longrightarrow> l_for_update_ts l = q_for_update_ts q"
    "\<forall>d p. write_at e (from_raw raw) d = Some p \<longrightarrow> d \<le> l_for_update_ts l" "l_min_commit_ts l = q_min_commit_ts q"
    "l_last_change l = LC_Unknown \<or> hint_right (write_at e (from_raw raw)) (l_for_update_ts l) (l_last_change l)"
proof -
  let ?W = "write_at e (from_raw raw)"
  note t\<^sub>0 = start_lock_fields [OF start]
  have wf: "wf_store (sr_engine (reader_at e s))" "?W = write_at (sr_engine (reader_at e s)) (from_raw raw)"
    "key_inv ?W" "data_complete (sr_engine (reader_at e s)) raw" "sr_start_ts (reader_at e s) = s" "t_start_ts txn\<^sub>0 = s"
    using key_ok_wf [OF ok(1)] key_ok_inv [OF ok(1)] ok(3) t\<^sub>0(3) by simp_all
  have only: "q_lock_only_if_exists q \<longrightarrow> q_need_value q" "q_lock_only_if_exists q \<longrightarrow> v \<noteq> None" for v :: "Value option"
    using assms(8) by simp_all
  obtain n where n: "check_newest txn\<^sub>0 (reader_at e s) (from_raw raw) q = Ok n" "newest_right e raw q n"
    using check_newest_ok [OF wf(1-3) ok(2) wf(4-6), of q] allowed by (auto simp: lock_allowed_def split: if_splits)
  obtain v where v: "\<And>x. v = Some x \<longleftrightarrow> reads e raw ts_max x" by (rule newest_value) (rule that)
  have t: "t_modifies txn\<^sub>0 = []" "t_locks_for_1pc txn\<^sub>0 = []" using t\<^sub>0(1,2) by simp_all
  obtain old l txn' e\<^sub>1 where a: "acquire_new env txn\<^sub>0 (reader_at e s) (from_raw raw) q =
      Ok ((granted q (newer_record ?W (q_for_update_ts q)) (l_for_update_ts l) v, old), txn')"
    and b: "apply_txn e txn' = Ok e\<^sub>1" "lock_put e raw l e\<^sub>1" "key_ok e\<^sub>1 raw" "is_pessimistic_lock l" "l_ts l = s"
      "l_for_update_ts l = n_for_update_ts n" "l_min_commit_ts l = q_min_commit_ts q"
      "l_last_change l = LC_Unknown \<or> l_last_change l = n_last_change n"
    by (rule acquire_new_ok [OF ok(1-3) un [rule_format] t wf(6) assms(6) n v only(2,1)])
  have "acquire_pessimistic_lock env (txn_new s cm) (reader_at e s) (from_raw raw) q =
      (Ok (granted q (newer_record ?W (q_for_update_ts q)) (l_for_update_ts l) v, old), txn')"
    unfolding acquire_start [OF start only(1)]
    using a sr_load_lock_ok [OF key_ok_clean [OF ok(1), of s]] ok(4) by (simp add: acquire_checked_def)
  then show thesis
    by (rule that [OF _ b(1-5)]) (use b n(2) in \<open>auto simp: newest_right_def Let_def\<close>)
qed

text \<open>
  C13: A pessimistic transaction that locks a key, prewrites it and commits it takes effect. A granted
  lock cannot be taken away by the checks of the prewrite: after it the prewrite of the transaction
  succeeds whatever it writes, although newer records than its start timestamp may exist, the commit
  succeeds above the timestamp of the lock, reads at or after the commit timestamp find the written
  value and all others are as before; the invariant of the key and its hints hold again.
\<close>

theorem pessimistic_txn_takes_effect:
  assumes "key_ok e raw" "settled (write_at e (from_raw raw))" "data_complete e raw" "lock_at e (from_raw raw) = None"
    and "\<forall>c. \<not> committed_at (write_at e (from_raw raw)) s c" "length (q_primary q) < 2 ^ 64"
    and "start_lock env q (txn_new s cm) txn\<^sub>0" "\<not> q_lock_only_if_exists q"
    and "lock_allowed (write_at e (from_raw raw)) s q"
    and "pessimistic_request p s f m raw" "start_txn env' s m (txn_new s cm') txn\<^sub>1"
  shows "\<exists>res txn' e\<^sub>1 l old txn'' e\<^sub>2.
    acquire_pessimistic_lock env (txn_new s cm) (reader_at e s) (from_raw raw) q = (Ok res, txn') \<and>
    apply_txn e txn' = Ok e\<^sub>1 \<and> lock_at e\<^sub>1 (from_raw raw) = Some l \<and>
    (\<not> newer_record (write_at e (from_raw raw)) (q_for_update_ts q) \<longrightarrow> l_for_update_ts l = q_for_update_ts q) \<and>
    prewrite env' (txn_new s cm') (reader_at e\<^sub>1 s) p m None DoPessimisticCheck (Some (l_for_update_ts l)) =
      (Ok (0, old), txn'') \<and> apply_txn e\<^sub>1 txn'' = Ok e\<^sub>2 \<and>
    (\<forall>c cm'' role. s < c \<and> l_for_update_ts l < c \<and> tp_min_commit_ts p \<le> c \<and> q_min_commit_ts q \<le> c \<longrightarrow>
      (\<exists>e\<^sub>3. commit_store cm'' role c e\<^sub>2 s raw e\<^sub>3 \<and> key_ok e\<^sub>3 raw \<and> last_change_ok (write_at e\<^sub>3 (from_raw raw)) \<and>
        (\<forall>ts v. reads e\<^sub>3 raw ts v \<longleftrightarrow>
          (if mutation_type_of m \<noteq> MT_Lock \<and> c \<le> ts then snd (into_key_value m) = Some v else reads e raw ts v))))"
proof -
  let ?W = "write_at e (from_raw raw)"
  obtain res txn' l e\<^sub>1 where acq: "acquire_pessimistic_lock env (txn_new s cm) (reader_at e s) (from_raw raw) q = (Ok res, txn')"
      "\<not> newer_record ?W (q_for_update_ts q) \<longrightarrow> l_for_update_ts l = q_for_update_ts q"
    and e\<^sub>1: "apply_txn e txn' = Ok e\<^sub>1" "lock_put e raw l e\<^sub>1" "key_ok e\<^sub>1 raw" "is_pessimistic_lock l" "l_ts l = s"
    "\<forall>d p. ?W d = Some p \<longrightarrow> d \<le> l_for_update_ts l" "l_min_commit_ts l = q_min_commit_ts q"
    "l_last_change l = LC_Unknown \<or> hint_right ?W (l_for_update_ts l) (l_last_change l)"
    by (rule acquire_granted [OF assms(1-9)])
  have rb: "\<not> rollback_recorded ?W s" using assms(9) by (simp add: lock_allowed_def)
  have lock: "lock_at e\<^sub>1 (from_raw raw) = Some l" and same: "write_at e\<^sub>1 = write_at e"
    using e\<^sub>1(2) by (simp_all add: lock_put_def)
  have no: "no_record ?W s"
    unfolding no_record_def
  proof (intro allI impI notI)
    fix c w
    assume w: "?W c = Some w" "w_start_ts w = s"
    show False
    proof (cases "w_type w = WT_Rollback")
      case True
      then show False using key_invD [OF key_ok_inv [OF assms(1)] w(1)] w rb by (auto simp: rollback_recorded_def)
    next
      case False
      with w assms(5) show False by (auto simp: committed_at_def)
    qed
  qed
  have expected: "Some (l_for_update_ts l) = None \<or> Some (l_for_update_ts l) = Some (l_for_update_ts l)" by simp
  obtain old k txn'' e\<^sub>2 where
    pre: "prewrite env' (txn_new s cm') (reader_at e\<^sub>1 s) p m None DoPessimisticCheck (Some (l_for_update_ts l)) = (Ok (0, old), txn'')"
      "apply_txn e\<^sub>1 txn'' = Ok e\<^sub>2" "prewritten e\<^sub>1 raw m k e\<^sub>2" "l_ts k = s"
      "l_min_commit_ts k = max (tp_min_commit_ts p) (l_min_commit_ts l)"
      "l_last_change k = LC_Unknown \<or> l_last_change k = l_last_change l"
    by (rule prewrite_pessimistic_ok [OF e\<^sub>1(3) lock e\<^sub>1(5,4) assms(10) expected assms(11)])
  have "\<exists>e\<^sub>3. commit_store cm'' role c e\<^sub>2 s raw e\<^sub>3 \<and> key_ok e\<^sub>3 raw \<and> last_change_ok (write_at e\<^sub>3 (from_raw raw)) \<and>
        (\<forall>ts v. reads e\<^sub>3 raw ts v \<longleftrightarrow>
          (if mutation_type_of m \<noteq> MT_Lock \<and> c \<le> ts then snd (into_key_value m) = Some v else reads e raw ts v))"
    if c: "s < c" "l_for_update_ts l < c" "tp_min_commit_ts p \<le> c" "q_min_commit_ts q \<le> c" for c cm'' role
  proof -
    have lc: "last_change_ok (write_at e\<^sub>1 (from_raw raw))"
      using settledD [OF assms(2), of 0] same by (simp add: checkable_def)
    have no\<^sub>1: "no_record (write_at e\<^sub>1 (from_raw raw)) (l_ts k)" using no same pre(4) by simp
    have below: "\<forall>d w. write_at e\<^sub>1 (from_raw raw) d = Some w \<longrightarrow> d < c"
      using e\<^sub>1(6) same c(2) by (metis le_less_trans)
    have hint: "last_change_right (write_at e\<^sub>1 (from_raw raw)) c (l_last_change k)"
      using pre(6) e\<^sub>1(8) same c(2) by (auto simp: hint_right_def last_change_right_def)
    have k: "l_min_commit_ts k \<le> c" "l_ts k < c" using pre(4,5) c e\<^sub>1(7) by simp_all
    obtain e\<^sub>3 where "commit_store cm'' role c e\<^sub>2 (l_ts k) raw e\<^sub>3" "key_ok e\<^sub>3 raw"
      "last_change_ok (write_at e\<^sub>3 (from_raw raw))"
      "\<And>ts v. reads e\<^sub>3 raw ts v \<longleftrightarrow>
        (if mutation_type_of m \<noteq> MT_Lock \<and> c \<le> ts then snd (into_key_value m) = Some v else reads e\<^sub>1 raw ts v)"
      by (rule commit_after_prewrite [OF e\<^sub>1(3) lc no\<^sub>1 below pre(3) k hint]) (rule that)
    then show ?thesis using pre(4) lock_put_reads [OF e\<^sub>1(2)] by auto
  qed
  with acq e\<^sub>1(1) lock pre(1,2) show ?thesis by blast
qed

definition demo_lock_request :: lock_request where
  "demo_lock_request = \<lparr> q_primary = [1], q_should_not_exist = False, q_lock_ttl = 10, q_for_update_ts = 6,
     q_need_value = True, q_need_check_existence = False, q_min_commit_ts = 7, q_need_old_value = False,
     q_lock_only_if_exists = False, q_allow_lock_with_conflict = False \<rparr>"

lemma demo_settled: "settled (write_at demo_records (from_raw [1]))"
  by (simp add: settled_def checkable_def demo_records_view last_change_ok_def fence_free_def write_new_def is_data_def
      gc_fence_passed_def check_gc_fence_as_latest_version_def write_is_invalid_def is_latest_def)

lemma demo_complete: "data_complete demo_records [1]"
  by (simp add: data_complete_def demo_records_view write_new_def)

lemma demo_uncommitted: "\<forall>c. \<not> committed_at (write_at demo_records (from_raw [1])) 5 c"
  by (simp add: committed_at_def demo_records_view write_new_def)

lemma demo_start_lock: "\<exists>txn\<^sub>0. start_lock demo_env demo_lock_request (txn_new s demo_cm) txn\<^sub>0"
  by (simp add: start_lock_def request_reads_def demo_lock_request_def txn_update_max_ts_def update_max_ts_def
      check_max_ts_limit_def demo_cm_def cm_new_def demo_env_def txn_new_def is_max_def is_zero_def ts_max_def Let_def)

lemma demo_primary: "length (q_primary demo_lock_request) < 2 ^ 64"
  by (simp add: demo_lock_request_def)

lemma demo_not_newer: "\<not> newer_record (write_at demo_records (from_raw [1])) (q_for_update_ts demo_lock_request)"
  by (auto simp: newer_record_def demo_records_view demo_lock_request_def)

lemma demo_not_rolled_back: "\<not> rollback_recorded (write_at demo_records (from_raw [1])) 5"
  by (simp add: rollback_recorded_def demo_records_view)

theorem acquire_lock_refines_witness:
  "\<exists>old txn' l e'. acquire_pessimistic_lock demo_env (txn_new 5 demo_cm) (reader_at demo_records 5) (from_raw [1])
       demo_lock_request = (Ok (PR_Value (Some [9]), old), txn') \<and>
     apply_txn demo_records txn' = Ok e' \<and> lock_at e' (from_raw [1]) = Some l \<and> is_pessimistic_lock l \<and> l_ts l = 5 \<and>
     6 \<le> cm_max_ts (t_cm txn')"
proof -
  obtain txn\<^sub>0 where start: "start_lock demo_env demo_lock_request (txn_new 5 demo_cm) txn\<^sub>0" using demo_start_lock by blast
  have q: "q_lock_only_if_exists demo_lock_request \<longrightarrow> q_need_value demo_lock_request" "\<not> q_lock_only_if_exists demo_lock_request"
    "\<not> q_should_not_exist demo_lock_request" "q_need_value demo_lock_request" "q_for_update_ts demo_lock_request = 6"
    "request_reads demo_lock_request" "\<not> is_max (6 :: TimeStamp)"
    by (simp_all add: demo_lock_request_def request_reads_def is_max_def ts_max_def)
  have no: "\<not> (False \<and> \<not> q_allow_lock_with_conflict demo_lock_request)"
    "\<not> (q_should_not_exist demo_lock_request \<and> put_exists (write_at demo_records (from_raw [1])))"
    "\<not> (q_lock_only_if_exists demo_lock_request \<and> \<not> put_exists (write_at demo_records (from_raw [1])))"
    using q by simp_all
  have false: "False \<longleftrightarrow> newer_record (write_at demo_records (from_raw [1])) (q_for_update_ts demo_lock_request)"
    using demo_not_newer by simp
  obtain res txn' where a: "acquire_pessimistic_lock demo_env (txn_new 5 demo_cm) (reader_at demo_records 5) (from_raw [1])
       demo_lock_request = (res, txn')"
    and max: "request_reads demo_lock_request \<and> \<not> is_max (q_for_update_ts demo_lock_request) \<longrightarrow>
      q_for_update_ts demo_lock_request \<le> cm_max_ts (t_cm txn')"
    and b: "\<exists>v old l e'. res = Ok (granted demo_lock_request False (l_for_update_ts l) v, old) \<and>
       (\<forall>x. v = Some x \<longleftrightarrow> reads demo_records [1] ts_max x) \<and>
       apply_txn demo_records txn' = Ok e' \<and> lock_put demo_records [1] l e' \<and> is_pessimistic_lock l \<and> l_ts l = 5"
    using acquire_lock_refines [OF demo_records_ok demo_settled demo_complete demo_records_view(3) demo_uncommitted
        demo_primary start q(1) refl false]
    unfolding if_not_P [OF no(1)] if_not_P [OF demo_not_rolled_back] if_not_P [OF no(2)] if_not_P [OF no(3)] by blast
  from b obtain v old l e' where c: "res = Ok (granted demo_lock_request False (l_for_update_ts l) v, old)"
    "\<forall>x. v = Some x \<longleftrightarrow> reads demo_records [1] ts_max x"
    "apply_txn demo_records txn' = Ok e'" "lock_put demo_records [1] l e'" "is_pessimistic_lock l" "l_ts l = 5" by blast
  have "reads demo_records [1] ts_max [9]"
    by (simp add: reads_def demo_records_view latest_data_def is_data_def write_new_def)
  with c(2) have "v = Some [9]" by blast
  with c a max q show ?thesis by (auto simp: granted_def lock_put_def)
qed

theorem pessimistic_txn_takes_effect_witness:
  "\<exists>res txn' e\<^sub>1 old txn'' e\<^sub>2 e\<^sub>3.
     acquire_pessimistic_lock demo_env (txn_new 5 demo_cm) (reader_at demo_records 5) (from_raw [1]) demo_lock_request =
       (Ok res, txn') \<and> apply_txn demo_records txn' = Ok e\<^sub>1 \<and>
     prewrite demo_env (txn_new 5 demo_cm) (reader_at e\<^sub>1 5) (demo_props\<lparr>tp_kind := PessimisticTxn 6\<rparr>) demo_put None
       DoPessimisticCheck (Some 6) = (Ok (0, old), txn'') \<and>
     apply_txn e\<^sub>1 txn'' = Ok e\<^sub>2 \<and> commit_store demo_cm None 8 e\<^sub>2 5 [1] e\<^sub>3 \<and> reads e\<^sub>3 [1] 9 [7]"
proof -
  let ?p = "demo_props\<lparr>tp_kind := PessimisticTxn 6\<rparr>"
  obtain txn\<^sub>0 where start: "start_lock demo_env demo_lock_request (txn_new 5 demo_cm) txn\<^sub>0" using demo_start_lock by blast
  have q: "\<not> q_lock_only_if_exists demo_lock_request" "lock_allowed (write_at demo_records (from_raw [1])) 5 demo_lock_request"
    "q_for_update_ts demo_lock_request = 6"
    using demo_not_newer demo_not_rolled_back by (simp_all add: demo_lock_request_def lock_allowed_def)
  have req: "pessimistic_request ?p 5 6 demo_put [1]"
    by (simp add: pessimistic_request_def demo_props_def demo_put_def)
  obtain res txn' e\<^sub>1 and l :: lock and old txn'' e\<^sub>2 where
    r: "acquire_pessimistic_lock demo_env (txn_new 5 demo_cm) (reader_at demo_records 5) (from_raw [1]) demo_lock_request = (Ok res, txn')"
      "apply_txn demo_records txn' = Ok e\<^sub>1"
      "prewrite demo_env (txn_new 5 demo_cm) (reader_at e\<^sub>1 5) ?p demo_put None DoPessimisticCheck (Some (l_for_update_ts l)) =
        (Ok (0, old), txn'')" "apply_txn e\<^sub>1 txn'' = Ok e\<^sub>2"
    and l: "\<not> newer_record (write_at demo_records (from_raw [1])) (q_for_update_ts demo_lock_request) \<longrightarrow>
      l_for_update_ts l = q_for_update_ts demo_lock_request"
    and c: "\<forall>c cm'' role. 5 < c \<and> l_for_update_ts l < c \<and> tp_min_commit_ts ?p \<le> c \<and>
        q_min_commit_ts demo_lock_request \<le> c \<longrightarrow>
      (\<exists>e\<^sub>3. commit_store cm'' role c e\<^sub>2 5 [1] e\<^sub>3 \<and> key_ok e\<^sub>3 [1] \<and> last_change_ok (write_at e\<^sub>3 (from_raw [1])) \<and>
        (\<forall>ts v. reads e\<^sub>3 [1] ts v \<longleftrightarrow> (if mutation_type_of demo_put \<noteq> MT_Lock \<and> c \<le> ts
          then snd (into_key_value demo_put) = Some v else reads demo_records [1] ts v)))"
    using pessimistic_txn_takes_effect [OF demo_records_ok demo_settled demo_complete demo_records_view(3) demo_uncommitted
        demo_primary start q(1,2) req demo_start] by (elim exE conjE) (rule that, assumption+)
  have l: "l_for_update_ts l = 6" using l demo_not_newer q(3) by simp
  have "5 < (8 :: TimeStamp) \<and> l_for_update_ts l < 8 \<and> tp_min_commit_ts ?p \<le> 8 \<and> q_min_commit_ts demo_lock_request \<le> 8"
    using l by (simp add: demo_props_def demo_lock_request_def)
  from c [THEN spec, THEN spec, THEN spec, THEN mp, OF this, of demo_cm None]
  obtain e\<^sub>3 where e\<^sub>3: "commit_store demo_cm None 8 e\<^sub>2 5 [1] e\<^sub>3"
    "\<And>ts v. reads e\<^sub>3 [1] ts v \<longleftrightarrow> (if mutation_type_of demo_put \<noteq> MT_Lock \<and> 8 \<le> ts
          then snd (into_key_value demo_put) = Some v else reads demo_records [1] ts v)" by blast
  have "reads e\<^sub>3 [1] 9 [7]" using e\<^sub>3(2) [of 9 "[7]"] by (simp add: demo_put_def)
  with r e\<^sub>3(1) l show ?thesis by auto
qed



end
