(* ===== verification/TxnGc.thy ===== *)
theory TxnGc
  imports TxnSafety
begin

text \<open>
  Garbage collection of the versions of one key (\<open>src/storage/txn/actions/gc.rs\<close>) and its contract:
  no read at or after the safe point changes, whether or not the collection came to its end.
\<close>

section \<open>The collection\<close>

definition MAX_TXN_WRITE_SIZE :: nat where "MAX_TXN_WRITE_SIZE = 32 * 1024"

record gc_info =
  found_versions :: nat
  deleted_versions :: nat
  is_completed :: bool

record gc_run =
  gc_key :: Key
  gc_cur_ts :: TimeStamp
  gc_stats :: gc_info
  gc_txn :: mvcc_txn

definition gc_new :: "mvcc_txn \<Rightarrow> Key \<Rightarrow> gc_run" where
  "gc_new txn key =
     \<lparr> gc_key = key, gc_cur_ts = ts_max,
       gc_stats = \<lparr> found_versions = 0, deleted_versions = 0, is_completed = False \<rparr>, gc_txn = txn \<rparr>"

definition gc_delete_write :: "write \<Rightarrow> TimeStamp \<Rightarrow> gc_run \<Rightarrow> gc_run" where
  "gc_delete_write w ts g =
     (let txn = delete_write (gc_key g) ts (gc_txn g);
          txn = (if w_type w = WT_Put \<and> w_short_value w = None
                 then delete_value (gc_key g) (w_start_ts w) txn else txn)
      in g\<lparr>gc_txn := txn, gc_stats := (gc_stats g)\<lparr>deleted_versions := deleted_versions (gc_stats g) + 1\<rparr>\<rparr>)"

definition gc_next_write :: "mvcc_reader \<Rightarrow> gc_run \<Rightarrow> ((TimeStamp \<times> write) option \<times> gc_run) mvcc_result" where
  "gc_next_write r g =
     rbind (seek_write r (gc_key g) (gc_cur_ts g)) (\<lambda>result.
       case result of
         Some (commit_ts, w) \<Rightarrow>
           rbind (ts_prev commit_ts) (\<lambda>prev.
             Ok (Some (commit_ts, w),
                 g\<lparr>gc_cur_ts := prev,
                   gc_stats := (gc_stats g)\<lparr>found_versions := found_versions (gc_stats g) + 1\<rparr>\<rparr>))
       | None \<Rightarrow> Ok (None, g))"

datatype gc_state =
    Rewind TimeStamp
  | RemoveIdempotent
  | RemoveAll "(TimeStamp \<times> write) option"

text \<open>The two states a step does not leave by calling itself.\<close>

fun gc_step_idempotent :: "gc_run \<Rightarrow> write \<Rightarrow> TimeStamp \<Rightarrow> gc_state \<times> gc_run" where
  "gc_step_idempotent g w commit_ts =
     (case w_type w of
        WT_Put \<Rightarrow> (RemoveAll None, g)
      | WT_Delete \<Rightarrow> (RemoveAll (Some (commit_ts, w)), g)
      | _ \<Rightarrow> (RemoveIdempotent, gc_delete_write w commit_ts g))"

fun gc_step :: "gc_state \<Rightarrow> gc_run \<Rightarrow> write \<Rightarrow> TimeStamp \<Rightarrow> gc_state \<times> gc_run" where
  "gc_step (Rewind safe_point) g w commit_ts =
     (if commit_ts \<le> safe_point then gc_step_idempotent g w commit_ts else (Rewind safe_point, g))"
| "gc_step RemoveIdempotent g w commit_ts = gc_step_idempotent g w commit_ts"
| "gc_step (RemoveAll d) g w commit_ts = (RemoveAll d, gc_delete_write w commit_ts g)"

fun gc_finish :: "gc_state \<Rightarrow> gc_run \<Rightarrow> gc_run" where
  "gc_finish (RemoveAll (Some (commit_ts, w))) g = gc_delete_write w commit_ts g"
| "gc_finish _ g = g"

lemma gc_cur_ts_step: "gc_step st g w c = (st', g') \<Longrightarrow> gc_cur_ts g' = gc_cur_ts g"
  by (induction st g w c rule: gc_step.induct)
    (auto simp: gc_delete_write_def Let_def split: write_type.splits if_splits)

lemma gc_next_write_less:
  "gc_next_write r g = Ok (Some (commit_ts, w), g') \<Longrightarrow> gc_cur_ts g' < gc_cur_ts g"
  by (auto simp: gc_next_write_def rbind_eq_Ok split: option.splits
      dest!: seek_write_le ts_prev_less)

function gc_loop :: "mvcc_reader \<Rightarrow> gc_state \<Rightarrow> gc_run \<Rightarrow> (gc_info \<times> mvcc_txn) mvcc_result" where
  "gc_loop r st g =
     rbind (gc_next_write r g) (\<lambda>(result, g).
       case result of
         Some (commit_ts, w) \<Rightarrow>
           if t_write_size (gc_txn g) \<ge> MAX_TXN_WRITE_SIZE then Ok (gc_stats g, gc_txn g)
           else let (st, g) = gc_step st g w commit_ts in gc_loop r st g
       | None \<Rightarrow>
           let g = gc_finish st g in Ok ((gc_stats g)\<lparr>is_completed := True\<rparr>, gc_txn g))"
  by pat_completeness auto
termination
  by (relation "measure (\<lambda>(r, st, g). unat (gc_cur_ts g))")
    (auto dest!: gc_next_write_less simp: word_less_nat_alt gc_cur_ts_step split: prod.split)

declare gc_loop.simps [simp del]

definition gc :: "mvcc_txn \<Rightarrow> mvcc_reader \<Rightarrow> Key \<Rightarrow> TimeStamp \<Rightarrow> (gc_info \<times> mvcc_txn) mvcc_result" where
  "gc txn r key safe_point = gc_loop r (Rewind safe_point) (gc_new txn key)"

section \<open>What the collection may remove\<close>

text \<open>
  At or below the safe point only the latest change matters to a reader. The collection goes down
  from the newest version: one that stops early has removed the versions above some timestamp that
  do not matter, one that is completed has removed them all, and a deletion too.
\<close>

definition garbage :: "(TimeStamp \<Rightarrow> write option) \<Rightarrow> TimeStamp \<Rightarrow> TimeStamp \<Rightarrow> bool" where
  "garbage W sp c \<longleftrightarrow> c \<le> sp \<and> (\<forall>w. \<not> latest_data W sp c w)"

definition swept :: "(TimeStamp \<Rightarrow> write option) \<Rightarrow> TimeStamp \<Rightarrow> TimeStamp \<Rightarrow> TimeStamp \<Rightarrow> write option" where
  "swept W sp f c = (if f < c \<and> garbage W sp c then None else W c)"

definition collected :: "(TimeStamp \<Rightarrow> write option) \<Rightarrow> TimeStamp \<Rightarrow> TimeStamp \<Rightarrow> write option" where
  "collected W sp c = (if c \<le> sp \<and> \<not> (\<exists>w. latest_data W sp c w \<and> w_type w = WT_Put) then None else W c)"

definition gc_result :: "(TimeStamp \<Rightarrow> write option) \<Rightarrow> TimeStamp \<Rightarrow> (TimeStamp \<Rightarrow> write option) \<Rightarrow> bool" where
  "gc_result W sp W' \<longleftrightarrow> (\<exists>f. W' = swept W sp f) \<or> W' = collected W sp"

lemma latest_data_exists:
  assumes "W c = Some w" "is_data w" "c \<le> ts"
  shows "\<exists>c' w'. latest_data W ts c' w'"
proof -
  let ?S = "{c. c \<le> ts \<and> (\<exists>w. W c = Some w \<and> is_data w)}"
  have c: "c \<in> ?S" using assms by blast
  have "Max ?S \<in> ?S" using c by (intro Max_in) auto
  moreover have "c' \<le> Max ?S" if "c' \<in> ?S" for c' using that by (intro Max_ge) auto
  ultimately have "latest_data W ts (Max ?S) (the (W (Max ?S)))"
    unfolding latest_data_def by (fastforce simp: not_less [symmetric])
  then show ?thesis by blast
qed

lemma latest_data_ge:
  assumes "latest_data W ts t p" "W c = Some w" "is_data w" "c \<le> ts"
  shows "c \<le> t"
  using assms unfolding latest_data_def by (metis not_le)

lemma latest_data_shorter:
  "latest_data W ts c w \<Longrightarrow> c \<le> sp \<Longrightarrow> sp \<le> ts \<Longrightarrow> latest_data W sp c w"
  by (auto simp: latest_data_def)

lemma gc_result_sub: "gc_result W sp W' \<Longrightarrow> W' c = Some w \<Longrightarrow> W c = Some w"
  by (auto simp: gc_result_def swept_def collected_def split: if_splits)

lemma gc_result_above: "gc_result W sp W' \<Longrightarrow> sp < c \<Longrightarrow> W' c = W c"
  by (auto simp: gc_result_def swept_def collected_def garbage_def)

lemma gc_result_put: "gc_result W sp W' \<Longrightarrow> latest_data W sp c w \<Longrightarrow> w_type w = WT_Put \<Longrightarrow> W' c = W c"
  by (auto simp: gc_result_def swept_def collected_def garbage_def)

text \<open>A change below the latest one is only left when the latest one is.\<close>

lemma gc_result_data_left:
  assumes "gc_result W sp W'" "W' c = Some w" "is_data w" "c \<le> sp"
  obtains t p where "latest_data W sp t p" "W' t = Some p" "c \<le> t"
proof -
  have Wc: "W c = Some w" by (rule gc_result_sub [OF assms(1,2)])
  obtain t p where t: "latest_data W sp t p" using latest_data_exists [of W, OF Wc assms(3,4)] by blast
  have "c \<le> t" by (rule latest_data_ge [OF t Wc assms(3,4)])
  moreover have "W' t = Some p"
  proof (cases "W' = collected W sp")
    case True
    then obtain w' where "latest_data W sp c w'" "w_type w' = WT_Put"
      using assms(2,4) by (auto simp: collected_def split: if_splits)
    then have "c = t" using latest_data_unique [OF t] by blast
    then show ?thesis using assms(2) Wc t by (simp add: latest_data_def)
  next
    case False
    then show ?thesis
      using assms(1) t by (auto simp: gc_result_def swept_def garbage_def latest_data_def)
  qed
  ultimately show thesis by (rule that [OF t, rotated])
qed

lemma gc_result_latest_down:
  assumes gc: "gc_result W sp W'" and "sp \<le> ts" and l: "latest_data W' ts c w"
  shows "latest_data W ts c w"
proof -
  have w: "W' c = Some w" "is_data w" "c \<le> ts" using l by (auto simp: latest_data_def)
  have "\<not> is_data w'" if c': "c < c'" "c' \<le> ts" "W c' = Some w'" for c' w'
  proof
    assume d: "is_data w'"
    show False
    proof (cases "c' \<le> sp")
      case False
      then show False using gc_result_above [OF gc, of c'] c' d l by (auto simp: latest_data_def)
    next
      case True
      then have "c \<le> sp" using c'(1) by simp
      then obtain t p where t: "latest_data W sp t p" "W' t = Some p" "c \<le> t"
        using gc_result_data_left [OF gc w(1,2)] by blast
      have "c < t" using latest_data_ge [OF t(1) c'(3) d True] c'(1) by simp
      with t l \<open>sp \<le> ts\<close> show False by (auto simp: latest_data_def)
    qed
  qed
  then show ?thesis using w gc_result_sub [OF gc w(1)] by (auto simp: latest_data_def)
qed

lemma gc_result_latest_up:
  assumes gc: "gc_result W sp W'" and "sp \<le> ts" and l: "latest_data W ts c w"
  shows "latest_data W' ts c w \<or> w_type w = WT_Delete \<and> W' c = None \<and> (\<forall>c' w'. \<not> latest_data W' ts c' w')"
proof (cases "W' c = W c")
  case True
  moreover have "\<not> is_data w'" if "c < c'" "c' \<le> ts" "W' c' = Some w'" for c' w'
    using l that(1,2) gc_result_sub [OF gc that(3)] by (auto simp: latest_data_def)
  ultimately have "latest_data W' ts c w" using l by (auto simp: latest_data_def)
  then show ?thesis ..
next
  case False
  then have "c \<le> sp" using gc_result_above [OF gc, of c] by (meson not_le)
  then have sp: "latest_data W sp c w" by (rule latest_data_shorter [OF l _ \<open>sp \<le> ts\<close>])
  then have "w_type w \<noteq> WT_Put" using gc_result_put [OF gc sp] False by blast
  moreover have none: "W' c = None"
    using gc_result_sub [OF gc, of c] False by (cases "W' c") auto
  moreover have "\<not> latest_data W' ts c' w'" for c' w'
    using gc_result_latest_down [OF gc \<open>sp \<le> ts\<close>] latest_data_unique [OF l] none
    by (metis latest_data_def option.distinct(1))
  ultimately show ?thesis using l by (auto simp: latest_data_def is_data_def)
qed

lemma gc_result_fence_free:
  assumes gc: "gc_result W sp W'" and "sp \<le> ts" and "fence_free W lim ts"
  shows "fence_free W' lim ts"
  unfolding fence_free_def
proof (intro allI impI)
  fix c w
  assume c: "W' c = Some w" "c \<le> ts" "\<forall>c' w'. c < c' \<longrightarrow> c' \<le> ts \<longrightarrow> W' c' = Some w' \<longrightarrow> \<not> is_data w'"
  have Wc: "W c = Some w" by (rule gc_result_sub [OF gc c(1)])
  have "\<not> is_data w'" if c': "c < c'" "c' \<le> ts" "W c' = Some w'" for c' w'
  proof
    assume d: "is_data w'"
    have c'': "c' \<le> sp" using c(3) c' d gc_result_above [OF gc, of c'] by (metis not_le)
    then obtain t p where t: "latest_data W sp t p" using latest_data_exists [of W, OF c'(3) d] by blast
    have "c < t" using latest_data_ge [OF t c'(3) d c''] c'(1) by simp
    show False
    proof (cases "W' = collected W sp")
      case True
      then obtain w'' where "latest_data W sp c w''"
        using c(1) c'' c'(1) by (auto simp: collected_def split: if_splits)
      with t have "c = t" using latest_data_unique by blast
      with \<open>c < t\<close> show False by simp
    next
      case False
      then have "W' t = Some p"
        using gc t by (auto simp: gc_result_def swept_def garbage_def latest_data_def)
      with c(3) \<open>c < t\<close> t \<open>sp \<le> ts\<close> show False by (auto simp: latest_data_def)
    qed
  qed
  with assms(3) Wc c(2) show "gc_fence_passed lim w" by (auto simp: fence_free_def)
qed

lemma swept_below: "c \<le> f \<Longrightarrow> swept W sp f c = W c"
  by (auto simp: swept_def)

lemma gc_result_last_change:
  assumes gc: "gc_result W sp W'" and "last_change_ok W"
  shows "last_change_ok W'"
  unfolding last_change_ok_def
proof (intro allI impI)
  fix c w
  assume c: "W' c = Some w" "\<not> is_data w"
  have Wc: "W c = Some w" by (rule gc_result_sub [OF gc c(1)])
  have right: "last_change_right W c (w_last_change w)"
    using assms(2) Wc c(2) by (simp add: last_change_ok_def)
  show "last_change_right W' c (w_last_change w)"
  proof (cases "c \<le> sp")
    case True
    have nl: "\<not> latest_data W sp c w'" for w' using Wc c(2) by (auto simp: latest_data_def)
    then have "W' \<noteq> collected W sp" using True c(1) by (auto simp: collected_def)
    then obtain f where f: "W' = swept W sp f" using gc by (auto simp: gc_result_def)
    have "c \<le> f" using c(1) True nl unfolding f by (auto simp: swept_def garbage_def not_less split: if_splits)
    then have W': "W' d = W d" if "d \<le> c" for d unfolding f using that by (intro swept_below) simp
    have same: "change_below W' c t p \<longleftrightarrow> change_below W c t p" for t p
      using W' by (auto simp: change_below_def)
    have "W' t = None" if "W t = None" for t using that gc_result_sub [OF gc] by (cases "W' t") auto
    then show ?thesis using right by (auto simp: last_change_right_def same split: last_change.splits)
  next
    case False
    then have lt: "sp < c" and le: "sp \<le> c - 1"
      using minus_one_less_iff [of sp c sp] by (auto simp: not_le not_less [symmetric])
    have b: "change_below V c t p \<longleftrightarrow> latest_data V (c - 1) t p" for V t p by (rule change_below_prev [OF lt])
    have none: "W' t = None" if "W t = None" for t using that gc_result_sub [OF gc] by (cases "W' t") auto
    note down = gc_result_latest_down [OF gc le] and up = gc_result_latest_up [OF gc le]
    have below: "t < c" if "latest_data W (c - 1) t p" for t p
      using that unfolding b [symmetric] change_below_def by simp
    show ?thesis
      using right down up none below unfolding last_change_right_def b
      by (cases "w_last_change w") (auto, blast+)
  qed
qed

lemma gc_result_reads:
  assumes gc: "gc_result (write_at e (from_raw raw)) sp (write_at e' (from_raw raw))" and "sp \<le> ts"
    and data: "\<And>c w. write_at e' (from_raw raw) c = Some w \<Longrightarrow>
      data_at e' (from_raw raw) (w_start_ts w) = data_at e (from_raw raw) (w_start_ts w)"
  shows "reads e' raw ts v \<longleftrightarrow> reads e raw ts v"
proof -
  have "latest_data (write_at e' (from_raw raw)) ts c w \<and> w_type w = WT_Put \<longleftrightarrow>
      latest_data (write_at e (from_raw raw)) ts c w \<and> w_type w = WT_Put" for c w
    using gc_result_latest_down [OF gc assms(2), of c w] gc_result_latest_up [OF gc assms(2), of c w] by auto
  moreover have "data_at e' (from_raw raw) (w_start_ts w) = data_at e (from_raw raw) (w_start_ts w)"
    if "latest_data (write_at e' (from_raw raw)) ts c w" for c w
    using that data by (auto simp: latest_data_def)
  ultimately show ?thesis unfolding reads_def by (metis (no_types, lifting))
qed

section \<open>The collection removes no more\<close>

text \<open>The updates in the buffer take the records \<open>W\<close> of the key to \<open>W'\<close>, with the values of the removed ones.\<close>

definition gc_ops :: "engine \<Rightarrow> Key \<Rightarrow> (TimeStamp \<Rightarrow> write option) \<Rightarrow> mvcc_txn \<Rightarrow> mvcc_txn \<Rightarrow> bool" where
  "gc_ops e key W' txn txn' \<longleftrightarrow>
     (\<exists>ops. txn_adds txn ops txn' \<and> list_all wf_op ops \<and>
       ops_write ops (write_at e) = (write_at e)(key := W') \<and> ops_lock ops (lock_at e) = lock_at e \<and>
       (\<forall>k t. ops_data ops (data_at e) k t \<noteq> data_at e k t \<longrightarrow>
         k = key \<and> (\<exists>c w. write_at e key c = Some w \<and> W' c = None \<and> w_start_ts w = t)))"

lemma gc_ops_refl: "gc_ops e key (write_at e key) txn txn"
  unfolding gc_ops_def by (intro exI [of _ "[]"]) simp

lemma gc_delete_write_adds:
  "\<exists>ops. txn_adds (gc_txn g) ops (gc_txn (gc_delete_write w c g)) \<and>
     (ops = [DelWrite (gc_key g) c] \<or> ops = [DelWrite (gc_key g) c, DelData (gc_key g) (w_start_ts w)])"
  using delete_write_adds [of "gc_txn g" "gc_key g" c]
    txn_adds_trans [OF delete_write_adds [of "gc_txn g" "gc_key g" c] delete_value_adds [of _ "gc_key g" "w_start_ts w"]]
  by (auto simp: gc_delete_write_def Let_def)

lemma gc_ops_delete:
  assumes "gc_ops e (gc_key g) W' txn (gc_txn g)" "write_at e (gc_key g) c = Some w"
  shows "gc_ops e (gc_key g) (W'(c := None)) txn (gc_txn (gc_delete_write w c g))"
proof -
  obtain ops where ops: "txn_adds txn ops (gc_txn g)" "list_all wf_op ops"
    "ops_write ops (write_at e) = (write_at e)(gc_key g := W')" "ops_lock ops (lock_at e) = lock_at e"
    "\<And>k t. ops_data ops (data_at e) k t \<noteq> data_at e k t \<Longrightarrow>
       k = gc_key g \<and> (\<exists>c w. write_at e (gc_key g) c = Some w \<and> W' c = None \<and> w_start_ts w = t)"
    using assms(1) unfolding gc_ops_def by blast
  obtain del where del: "txn_adds (gc_txn g) del (gc_txn (gc_delete_write w c g))"
    "del = [DelWrite (gc_key g) c] \<or> del = [DelWrite (gc_key g) c, DelData (gc_key g) (w_start_ts w)]"
    using gc_delete_write_adds [of g w c] by blast
  show ?thesis
    unfolding gc_ops_def
  proof (intro exI [of _ "ops @ del"] conjI allI impI, goal_cases)
    case 1
    show ?case by (rule txn_adds_trans [OF ops(1) del(1)])
  next
    case 2
    then show ?case using ops(2) del(2) by auto
  next
    case 3
    then show ?case using ops(3) del(2) by (auto simp: ops_append)
  next
    case 4
    then show ?case using ops(4) del(2) by (auto simp: ops_append)
  next
    case (5 k t)
    then have "ops_data ops (data_at e) k t \<noteq> data_at e k t \<or> k = gc_key g \<and> t = w_start_ts w"
      using del(2) by (auto simp: ops_append split: if_splits)
    then show ?case using ops(5) [of k t] by auto
  next
    case (6 k t)
    then consider "ops_data ops (data_at e) k t \<noteq> data_at e k t" | "k = gc_key g" "t = w_start_ts w"
      using del(2) by (auto simp: ops_append split: if_splits)
    then show ?case
    proof cases
      case 1
      then show ?thesis using ops(5) [OF 1] by auto
    next
      case 2
      with assms(2) show ?thesis by auto
    qed
  qed
qed

text \<open>What the state of the collection says when all versions above \<open>cur\<close> have been seen.\<close>

fun gc_inv :: "(TimeStamp \<Rightarrow> write option) \<Rightarrow> TimeStamp \<Rightarrow> TimeStamp \<Rightarrow> gc_state \<Rightarrow> bool" where
  "gc_inv W sp cur (Rewind sp') \<longleftrightarrow> sp' = sp \<and> (\<forall>c \<le> sp. cur < c \<longrightarrow> W c = None)"
| "gc_inv W sp cur RemoveIdempotent \<longleftrightarrow>
     cur < sp \<and> (\<forall>c w. cur < c \<longrightarrow> c \<le> sp \<longrightarrow> W c = Some w \<longrightarrow> \<not> is_data w)"
| "gc_inv W sp cur (RemoveAll None) \<longleftrightarrow> (\<exists>t w. cur < t \<and> latest_data W sp t w \<and> w_type w = WT_Put)"
| "gc_inv W sp cur (RemoveAll (Some (t, w))) \<longleftrightarrow> cur < t \<and> latest_data W sp t w \<and> w_type w = WT_Delete"

lemma prev_less_iff: "0 < (c :: TimeStamp) \<Longrightarrow> c - 1 < d \<longleftrightarrow> c \<le> d"
  by (rule minus_one_less_iff)

lemma gc_idempotent_ok:
  assumes "\<forall>c w. cur < c \<longrightarrow> c \<le> sp \<longrightarrow> W c = Some w \<longrightarrow> \<not> is_data w" "is_latest W cur c w" "0 < c" "c \<le> sp"
    and "gc_step_idempotent g w c = (st', g')"
  shows "gc_inv W sp (c - 1) st' \<and> g' = (if garbage W sp c then gc_delete_write w c g else g)"
proof -
  have W: "W c = Some w" and newer: "\<And>d p. c < d \<Longrightarrow> d \<le> sp \<Longrightarrow> W d = Some p \<Longrightarrow> \<not> is_data p"
    using assms(1,2) unfolding is_latest_def by (auto, metis not_le option.distinct(1))
  have latest: "latest_data W sp c p \<longleftrightarrow> is_data w \<and> p = w" for p
    using W newer assms(4) by (auto simp: latest_data_def)
  have "\<forall>d p. c \<le> d \<longrightarrow> d \<le> sp \<longrightarrow> W d = Some p \<longrightarrow> \<not> is_data p" if "\<not> is_data w"
  proof (intro allI impI)
    fix d p
    assume "c \<le> d" "d \<le> sp" "W d = Some p"
    then show "\<not> is_data p" using newer [of d p] W that by (cases "d = c") auto
  qed
  then show ?thesis
    using assms(3-5) latest
    by (cases "w_type w") (auto simp: garbage_def is_data_def prev_less_iff intro!: exI [of _ c])
qed

lemma gc_step_ok:
  assumes "gc_inv W sp cur st" "is_latest W cur c w" "0 < c" "gc_step st g w c = (st', g')"
  shows "gc_inv W sp (c - 1) st' \<and> g' = (if garbage W sp c then gc_delete_write w c g else g)"
proof (cases st)
  case (Rewind sp')
  then have none: "\<forall>c \<le> sp. cur < c \<longrightarrow> W c = None" and sp: "sp' = sp" using assms(1) by auto
  show ?thesis
  proof (cases "c \<le> sp")
    case True
    then show ?thesis using Rewind sp none assms(4) by (intro gc_idempotent_ok [OF _ assms(2,3)]) auto
  next
    case False
    then show ?thesis using Rewind sp assms(3,4) by (auto simp: garbage_def prev_less_iff)
  qed
next
  case RemoveIdempotent
  then have "c \<le> sp" using assms(1,2) by (auto simp: is_latest_def)
  then show ?thesis
    using RemoveIdempotent assms(1,4) by (intro gc_idempotent_ok [OF _ assms(2,3)]) auto
next
  case (RemoveAll d)
  then obtain t p where t: "cur < t" "latest_data W sp t p" using assms(1) by (cases d) auto
  have c: "c \<le> cur" using assms(2) by (simp add: is_latest_def)
  have "c \<noteq> t" "c \<le> sp" using c t by (auto simp: latest_data_def)
  then have "garbage W sp c" using latest_data_unique [OF t(2)] by (auto simp: garbage_def)
  moreover have "c - 1 < x" if "cur < x" for x using prev_less_iff [OF assms(3), of x] c that by auto
  then have "gc_inv W sp (c - 1) st" using assms(1) unfolding RemoveAll by (cases d) auto
  ultimately show ?thesis using RemoveAll assms(4) by auto
qed

lemma swept_prev:
  assumes "is_latest W cur c w" "0 < c"
  shows "swept W sp (c - 1) = (if garbage W sp c then (swept W sp cur)(c := None) else swept W sp cur)"
proof (rule ext)
  fix d
  have "W d = None" if "c < d" "d \<le> cur" using assms(1) that by (simp add: is_latest_def)
  then show "swept W sp (c - 1) d = (if garbage W sp c then (swept W sp cur)(c := None) else swept W sp cur) d"
    using assms by (cases d c rule: linorder_cases)
      (auto simp: swept_def prev_less_iff [OF assms(2)] is_latest_def)
qed

lemma gc_step_ops:
  assumes "gc_inv W sp cur st" "is_latest W cur c w" "0 < c" "gc_step st g w c = (st', g')"
    and "gc_ops e (gc_key g) (swept W sp cur) txn (gc_txn g)" "W = write_at e (gc_key g)"
  shows "gc_ops e (gc_key g) (swept W sp (c - 1)) txn (gc_txn g')"
proof (cases "garbage W sp c")
  case True
  have "write_at e (gc_key g) c = Some w" using assms(2,6) by (simp add: is_latest_def)
  from gc_ops_delete [OF assms(5) this] show ?thesis
    using gc_step_ok [OF assms(1-4)] True by (simp add: swept_prev [OF assms(2,3)])
next
  case False
  then show ?thesis
    using gc_step_ok [OF assms(1-4)] assms(5) by (simp add: swept_prev [OF assms(2,3)])
qed

lemma gc_delete_write_simps [simp]:
  "gc_key (gc_delete_write w c g) = gc_key g" "gc_cur_ts (gc_delete_write w c g) = gc_cur_ts g"
  "is_completed (gc_stats (gc_delete_write w c g)) = is_completed (gc_stats g)"
  by (simp_all add: gc_delete_write_def Let_def)

lemma gc_finish_ops:
  assumes "gc_inv W sp cur st" "no_version W cur"
    and "gc_ops e (gc_key g) (swept W sp cur) txn (gc_txn g)" "W = write_at e (gc_key g)"
  shows "gc_ops e (gc_key g) (collected W sp) txn (gc_txn (gc_finish st g))"
proof -
  have old: "\<And>c. c \<le> cur \<Longrightarrow> W c = None" using assms(2) by (simp add: no_version_def)
  have sw: "swept W sp cur c = (if garbage W sp c then None else W c)" for c
    using old [of c] by (auto simp: swept_def not_less)
  have nodata: "collected W sp = swept W sp cur" if "\<And>t w. latest_data W sp t w \<Longrightarrow> w_type w = WT_Put"
  proof (rule ext)
    show "collected W sp c = swept W sp cur c" for c using that by (auto simp: sw collected_def garbage_def)
  qed
  consider t w where "st = RemoveAll (Some (t, w))" "latest_data W sp t w" "w_type w = WT_Delete"
    | "gc_finish st g = g" "\<And>t w. latest_data W sp t w \<Longrightarrow> w_type w = WT_Put"
  proof (cases st)
    case (Rewind sp')
    have "W c = None" if "c \<le> sp" for c
      using assms(1) old [of c] that unfolding Rewind by (cases "c \<le> cur") auto
    with Rewind show ?thesis by (intro that(2)) (auto simp: latest_data_def)
  next
    case RemoveIdempotent
    have "\<not> latest_data W sp t w" for t w
      using assms(1) old [of t] unfolding RemoveIdempotent latest_data_def by (cases "t \<le> cur") (auto simp: not_le)
    with RemoveIdempotent show ?thesis by (intro that(2)) auto
  next
    case (RemoveAll d)
    show ?thesis
    proof (cases d)
      case None
      then obtain t w where tw: "latest_data W sp t w" "w_type w = WT_Put" using assms(1) RemoveAll by auto
      have "w_type w' = WT_Put" if "latest_data W sp t' w'" for t' w'
        using latest_data_unique [OF tw(1) that] tw(2) by simp
      then show ?thesis using RemoveAll None by (intro that(2)) simp_all
    next
      case (Some tw)
      with RemoveAll assms(1) show ?thesis by (intro that(1) [of "fst tw" "snd tw"]) (cases tw; simp)+
    qed
  qed
  then show ?thesis
  proof cases
    case 1
    have c: "collected W sp = (swept W sp cur)(t := None)"
    proof (rule ext)
      fix c
      have "t \<le> sp" using 1(2) by (simp add: latest_data_def)
      moreover have only: "latest_data W sp c w' \<longleftrightarrow> c = t \<and> w' = w" for w'
        using latest_data_unique [OF 1(2)] 1(2) by blast
      ultimately show "collected W sp c = ((swept W sp cur)(t := None)) c"
        using 1(3) by (simp add: sw collected_def garbage_def only)
    qed
    have "write_at e (gc_key g) t = Some w" using 1(2) assms(4) by (simp add: latest_data_def)
    from gc_ops_delete [OF assms(3) this] show ?thesis using 1(1) by (simp add: c)
  next
    case 2
    then show ?thesis using assms(3) nodata by simp
  qed
qed

lemma gc_step_same [simp]:
  assumes "gc_step st g w c = (st', g')"
  shows "gc_key g' = gc_key g" "is_completed (gc_stats g') = is_completed (gc_stats g)"
  using assms by (cases st; auto split: write_type.splits if_splits)+

lemma gc_loop_ok:
  assumes "wf_store (r_engine r)" "W = write_at (r_engine r) (from_raw raw)" "W 0 = None" "gc_key g = from_raw raw"
    and "gc_inv W sp (gc_cur_ts g) st" "gc_ops (r_engine r) (from_raw raw) (swept W sp (gc_cur_ts g)) txn (gc_txn g)"
    and "\<not> is_completed (gc_stats g)"
  shows "\<exists>info txn' W'. gc_loop r st g = Ok (info, txn') \<and> gc_ops (r_engine r) (from_raw raw) W' txn txn' \<and>
    gc_result W sp W' \<and> (is_completed info \<longrightarrow> W' = collected W sp)"
  using assms(4-)
proof (induction "unat (gc_cur_ts g)" arbitrary: g st rule: less_induct)
  case less
  show ?case
  proof (rule seek_write_cases [OF assms(1), of raw "gc_cur_ts g"], goal_cases)
    case (1 c w)
    note latest = 1(2) [folded assms(2)]
    have c: "0 < c" "c \<le> gc_cur_ts g" using latest assms(3) by (auto simp: is_latest_def word_gt_0)
    let ?g = "g\<lparr>gc_cur_ts := c - 1, gc_stats := (gc_stats g)\<lparr>found_versions := found_versions (gc_stats g) + 1\<rparr>\<rparr>"
    have next_w: "gc_next_write r g = Ok (Some (c, w), ?g)"
      using 1(1) less.prems(1) c(1) by (simp add: gc_next_write_def ts_prev_pos)
    show ?case
    proof (cases "t_write_size (gc_txn ?g) \<ge> MAX_TXN_WRITE_SIZE")
      case True
      then have "gc_loop r st g = Ok (gc_stats ?g, gc_txn g)"
        using next_w by (subst gc_loop.simps) simp
      moreover have "gc_result W sp (swept W sp (gc_cur_ts g))" by (auto simp: gc_result_def)
      ultimately show ?thesis using less.prems(3,4) by fastforce
    next
      case False
      obtain st' g' where step: "gc_step st ?g w c = (st', g')" by force
      have key: "gc_key ?g = from_raw raw" using less.prems(1) by simp
      have "gc_ops (r_engine r) (gc_key ?g) (swept W sp (gc_cur_ts g)) txn (gc_txn ?g)"
        using less.prems(3) key by simp
      from gc_step_ops [OF less.prems(2) latest c(1) step this] have ops:
        "gc_ops (r_engine r) (from_raw raw) (swept W sp (c - 1)) txn (gc_txn g')" using assms(2) key by simp
      have cur: "gc_cur_ts g' = c - 1" using gc_cur_ts_step [OF step] by simp
      have inv: "gc_inv W sp (c - 1) st'" using gc_step_ok [OF less.prems(2) latest c(1) step] by simp
      have same: "gc_key g' = from_raw raw" "\<not> is_completed (gc_stats g')"
        using gc_step_same [OF step] key less.prems(4) by simp_all
      have "\<exists>info txn' W'. gc_loop r st' g' = Ok (info, txn') \<and> gc_ops (r_engine r) (from_raw raw) W' txn txn' \<and>
          gc_result W sp W' \<and> (is_completed info \<longrightarrow> W' = collected W sp)"
        by (rule less.hyps) (use prev_measure [OF c] cur inv ops same in simp_all)
      moreover have "gc_loop r st g = gc_loop r st' g'"
        using next_w False step by (subst gc_loop.simps) simp
      ultimately show ?thesis by simp
    qed
  next
    case 2
    note none = 2(2) [folded assms(2)]
    have "gc_next_write r g = Ok (None, g)" using 2(1) less.prems(1) by (simp add: gc_next_write_def)
    then have "gc_loop r st g = Ok ((gc_stats (gc_finish st g))\<lparr>is_completed := True\<rparr>, gc_txn (gc_finish st g))"
      by (subst gc_loop.simps) (simp add: Let_def)
    moreover have "gc_ops (r_engine r) (from_raw raw) (collected W sp) txn (gc_txn (gc_finish st g))"
      using gc_finish_ops [OF less.prems(2) none, of "r_engine r" g txn] less.prems(1,3) assms(2) by simp
    ultimately show ?case by (fastforce simp: gc_result_def)
  qed
qed

lemma gc_ok:
  assumes "wf_store (r_engine r)" "W = write_at (r_engine r) (from_raw raw)" "W 0 = None"
  shows "\<exists>info txn' W'. gc txn r (from_raw raw) sp = Ok (info, txn') \<and> gc_ops (r_engine r) (from_raw raw) W' txn txn' \<and>
    gc_result W sp W' \<and> (is_completed info \<longrightarrow> W' = collected W sp)"
proof -
  have "\<not> ts_max < c" for c :: TimeStamp by (simp add: ts_max_def)
  then have "swept W sp ts_max = W" "gc_inv W sp ts_max (Rewind sp)" by (auto simp: swept_def fun_eq_iff)
  then show ?thesis
    unfolding gc_def using assms gc_ops_refl [of "r_engine r" "from_raw raw" txn]
    by (intro gc_loop_ok) (simp_all add: gc_new_def)
qed

section \<open>The store after a collection\<close>

abbreviation store_reader :: "engine \<Rightarrow> mvcc_reader" where
  "store_reader e \<equiv> reader_new \<lparr> s_engine = e, s_txn_ext = None \<rparr> None"

lemma store_reader_engine [simp]: "r_engine (store_reader e) = e"
  by (simp add: reader_new_def)

lemma gc_store_ok:
  assumes wf: "wf_store e" and W: "W = write_at e (from_raw raw)" and "W 0 = None" "one_record W"
  obtains info txn' e' where "gc (txn_new s cm) (store_reader e) (from_raw raw) sp = Ok (info, txn')"
    "apply_txn e txn' = Ok e'" "wf_store e'" "lock_at e' = lock_at e"
    "\<forall>k \<noteq> from_raw raw. write_at e' k = write_at e k \<and> data_at e' k = data_at e k"
    "gc_result W sp (write_at e' (from_raw raw))"
    "is_completed info \<longrightarrow> write_at e' (from_raw raw) = collected W sp"
    "\<And>c w. write_at e' (from_raw raw) c = Some w \<Longrightarrow>
      data_at e' (from_raw raw) (w_start_ts w) = data_at e (from_raw raw) (w_start_ts w)"
proof -
  obtain info txn' W' where gc: "gc (txn_new s cm) (store_reader e) (from_raw raw) sp = Ok (info, txn')"
    "gc_ops e (from_raw raw) W' (txn_new s cm) txn'" "gc_result W sp W'" "is_completed info \<longrightarrow> W' = collected W sp"
    using gc_ok [of "store_reader e" W raw "txn_new s cm" sp] assms(1-3) by auto
  obtain ops where ops: "txn_adds (txn_new s cm) ops txn'" "list_all wf_op ops"
    "ops_write ops (write_at e) = (write_at e)(from_raw raw := W')" "ops_lock ops (lock_at e) = lock_at e"
    "\<And>k t. ops_data ops (data_at e) k t \<noteq> data_at e k t \<Longrightarrow>
       k = from_raw raw \<and> (\<exists>c w. W c = Some w \<and> W' c = None \<and> w_start_ts w = t)"
    using gc(2) unfolding gc_ops_def W by blast
  obtain e' where e': "apply_txn e txn' = Ok e'" "wf_store e'" "write_at e' = ops_write ops (write_at e)"
    "lock_at e' = ops_lock ops (lock_at e)" "data_at e' = ops_data ops (data_at e)"
    by (rule apply_txn_ok [OF wf ops(2,1)])
  have w': "write_at e' (from_raw raw) = W'" using e'(3) ops(3) by simp
  have "data_at e' (from_raw raw) (w_start_ts w) = data_at e (from_raw raw) (w_start_ts w)"
    if c: "W' c = Some w" for c w
  proof (rule ccontr)
    assume "data_at e' (from_raw raw) (w_start_ts w) \<noteq> data_at e (from_raw raw) (w_start_ts w)"
    then obtain d p where d: "W d = Some p" "W' d = None" "w_start_ts p = w_start_ts w"
      using ops(5) e'(5) by metis
    then have "d = c" using assms(4) gc_result_sub [OF gc(3) c] unfolding one_record_def by blast
    with d(2) c show False by simp
  qed
  moreover have "\<forall>k \<noteq> from_raw raw. write_at e' k = write_at e k \<and> data_at e' k = data_at e k"
  proof (intro allI impI conjI)
    fix k assume k: "k \<noteq> from_raw raw"
    show "write_at e' k = write_at e k" using e'(3) ops(3) k by simp
    show "data_at e' k = data_at e k" using ops(5) [of k] k e'(5) by (intro ext) metis
  qed
  ultimately show thesis
    using that [OF gc(1) e'(1,2)] e'(4) ops(4) gc(3,4) unfolding w' by presburger
qed

section \<open>Garbage collection is invisible\<close>

text \<open>
  C22: Collecting the garbage of a key never fails and is invisible to readers at or after the safe
  point: whether or not the collection came to its end, a snapshot read of the key there returns what
  it returned before, locks and other keys are untouched, and what readers rely on (the last-change
  hints and that values are stored) still holds. A collection that is completed leaves at most one
  version at or below the safe point, the latest change, and only if it is a Put.
\<close>

theorem gc_keeps_reads:
  assumes "wf_store e" "one_record (write_at e (from_raw raw))" "last_change_ok (write_at e (from_raw raw))"
    and "write_at e (from_raw raw) 0 = None" "data_complete e raw"
  shows "\<exists>info txn' e'. gc (txn_new s cm) (store_reader e) (from_raw raw) sp = Ok (info, txn') \<and>
    apply_txn e txn' = Ok e' \<and> wf_store e' \<and> lock_at e' = lock_at e \<and>
    (\<forall>k \<noteq> from_raw raw. write_at e' k = write_at e k \<and> data_at e' k = data_at e k) \<and>
    last_change_ok (write_at e' (from_raw raw)) \<and> data_complete e' raw \<and>
    (\<forall>ts lim. sp \<le> ts \<longrightarrow> fence_free (write_at e (from_raw raw)) lim ts \<longrightarrow>
      reader_get (store_reader e') (from_raw raw) ts lim = reader_get (store_reader e) (from_raw raw) ts lim) \<and>
    (is_completed info \<longrightarrow> (\<forall>c w. c \<le> sp \<longrightarrow> write_at e' (from_raw raw) c = Some w \<longrightarrow>
      latest_data (write_at e (from_raw raw)) sp c w \<and> w_type w = WT_Put))"
proof -
  let ?W = "write_at e (from_raw raw)"
  obtain info txn' e' where r: "gc (txn_new s cm) (store_reader e) (from_raw raw) sp = Ok (info, txn')"
    "apply_txn e txn' = Ok e'" "wf_store e'" "lock_at e' = lock_at e"
    "\<forall>k \<noteq> from_raw raw. write_at e' k = write_at e k \<and> data_at e' k = data_at e k"
    "gc_result ?W sp (write_at e' (from_raw raw))"
    "is_completed info \<longrightarrow> write_at e' (from_raw raw) = collected ?W sp"
    and data: "\<And>c w. write_at e' (from_raw raw) c = Some w \<Longrightarrow>
      data_at e' (from_raw raw) (w_start_ts w) = data_at e (from_raw raw) (w_start_ts w)"
    using gc_store_ok [OF assms(1) refl assms(4,2), where s = s and cm = cm and sp = sp] by blast
  let ?W' = "write_at e' (from_raw raw)"
  have lc: "last_change_ok ?W'" by (rule gc_result_last_change [OF r(6) assms(3)])
  have dc: "data_complete e' raw"
    using assms(5) data gc_result_sub [OF r(6)] unfolding data_complete_def by metis
  have zero: "?W' 0 = None" using gc_result_sub [OF r(6), of 0] assms(4) by (cases "?W' 0") auto
  have "reader_get (store_reader e') (from_raw raw) ts lim = reader_get (store_reader e) (from_raw raw) ts lim"
    if ts: "sp \<le> ts" "fence_free ?W lim ts" for ts lim
  proof -
    obtain res where res: "reader_get (store_reader e) (from_raw raw) ts lim = Ok res"
      "\<forall>v. res = Some v \<longleftrightarrow> reads e raw ts v"
      using reader_get_ok [of "store_reader e", unfolded store_reader_engine, OF assms(1) refl assms(3,4) ts(2) assms(5)]
      by blast
    obtain res' where res': "reader_get (store_reader e') (from_raw raw) ts lim = Ok res'"
      "\<forall>v. res' = Some v \<longleftrightarrow> reads e' raw ts v"
      using reader_get_ok [of "store_reader e'", unfolded store_reader_engine, OF r(3) refl lc zero
          gc_result_fence_free [OF r(6) ts] dc] by blast
    have "reads e' raw ts v \<longleftrightarrow> reads e raw ts v" for v
      by (rule gc_result_reads [OF r(6) ts(1)]) (rule data)
    then have "res' = Some v \<longleftrightarrow> res = Some v" for v using res(2) res'(2) by simp
    then have "res' = res" by (cases res) auto
    then show ?thesis using res(1) res'(1) by simp
  qed
  moreover have "latest_data ?W sp c w \<and> w_type w = WT_Put"
    if "is_completed info" "c \<le> sp" "?W' c = Some w" for c w
    using r(7) that by (auto simp: collected_def latest_data_def split: if_splits)
  ultimately show ?thesis using r(1-5) lc dc by blast
qed

theorem gc_keeps_reads_witness:
  "\<exists>info txn' e'. gc (txn_new 9 demo_cm) (store_reader demo_store) (from_raw [1]) 6 = Ok (info, txn') \<and>
     apply_txn demo_store txn' = Ok e' \<and>
     reader_get (store_reader e') (from_raw [1]) 7 None = reader_get (store_reader demo_store) (from_raw [1]) 7 None"
proof -
  have pre: "one_record (write_at demo_store (from_raw [1]))" "last_change_ok (write_at demo_store (from_raw [1]))"
    "write_at demo_store (from_raw [1]) 0 = None" "data_complete demo_store [1]"
    "fence_free (write_at demo_store (from_raw [1])) None 7"
    by (simp_all add: demo_view one_record_def last_change_ok_def write_new_def is_data_def data_complete_def
        fence_free_def gc_fence_passed_def)
  have "(6 :: TimeStamp) \<le> 7" by simp
  with gc_keeps_reads [OF demo_view(1) pre(1-4), where s = 9 and cm = demo_cm and sp = 6] pre(5) show ?thesis by blast
qed

end
