(* ===== verification/TxnCommands.thy ===== *)
theory TxnCommands
  imports TxnGc TxnPrewrite "HOL-Library.Product_Lexorder"
begin

text \<open>
  The commands that resolve transactions (\<open>src/storage/txn/commands\<close>): commit, rollback, cleanup, the
  rollback of pessimistic locks, the heartbeat, the resolution of locks, and the checks of a
  transaction's primary and secondary locks. A command runs actions on several keys over one snapshot
  and collects their modifications, which the engine then writes as one batch. The request's context
  is left out; the clock and the oracle for the maximal timestamp are arguments.
\<close>

section \<open>The result of a command\<close>

text \<open>Of the errors, results and follow-up commands the variants that these commands produce.\<close>

datatype cmd_error =
    CE_Mvcc mvcc_error
  | InvalidTxnTso TimeStamp TimeStamp

type_synonym 'a cmd_result = "(cmd_error, 'a) result"

abbreviation of_mvcc :: "'a mvcc_result \<Rightarrow> 'a cmd_result" where
  "of_mvcc r \<equiv> map_error CE_Mvcc r"

datatype secondary_locks_status =
    SL_Locked "lock_info list"
  | SL_Committed TimeStamp
  | SL_RolledBack

datatype next_command =
    ResolveLockReadPhase "TimeStamp \<rightharpoonup> TimeStamp" "Key option"
  | PessimisticRollbackReadPhase TimeStamp TimeStamp "Key option"

datatype process_result =
    ProcRes
  | ProcMultiRes
  | ProcTxnStatus txn_status
  | ProcSecondaryLocks secondary_locks_status
  | NextCommand next_command

record write_result =
  wr_modifies :: "modify list"
  wr_rows :: nat
  wr_pr :: process_result
  wr_released_locks :: "released_lock list"
  wr_new_acquired_locks :: "lock_info list"
  wr_known_txn_status :: "(TimeStamp \<times> TimeStamp) list"

fun released_push :: "released_lock option \<Rightarrow> released_lock list \<Rightarrow> released_lock list" where
  "released_push (Some l) ls = ls @ [l]"
| "released_push None ls = ls"

definition finish_command ::
    "mvcc_txn \<Rightarrow> nat \<Rightarrow> process_result \<Rightarrow> released_lock list \<Rightarrow> (TimeStamp \<times> TimeStamp) list \<Rightarrow>
     write_result cmd_result" where
  "finish_command txn rows pr released known =
     (case take_new_locks txn of
        (new_locks, txn) \<Rightarrow>
          rbind (into_modifies txn) (\<lambda>modifies.
            Ok \<lparr> wr_modifies = modifies, wr_rows = rows, wr_pr = pr, wr_released_locks = released,
                 wr_new_acquired_locks = new_locks, wr_known_txn_status = known \<rparr>))"

text \<open>The loop over the keys of a command: the first error ends it.\<close>

type_synonym key_step = "mvcc_txn \<Rightarrow> Key \<Rightarrow> (released_lock option \<times> mvcc_txn) mvcc_result"

fun for_keys :: "key_step \<Rightarrow> Key list \<Rightarrow> released_lock list \<Rightarrow> mvcc_txn \<Rightarrow> (released_lock list \<times> mvcc_txn) mvcc_result" where
  "for_keys step [] released txn = Ok (released, txn)"
| "for_keys step (k # ks) released txn =
     rbind (step txn k) (\<lambda>(rl, txn). for_keys step ks (released_push rl released) txn)"

section \<open>The commands\<close>

definition commit_command ::
    "concurrency_manager \<Rightarrow> snapshot \<Rightarrow> Key list \<Rightarrow> TimeStamp \<Rightarrow> TimeStamp \<Rightarrow> commit_role option \<Rightarrow>
     write_result cmd_result" where
  "commit_command cm snap keys lock_ts commit_ts commit_role =
     (if commit_ts \<le> lock_ts then Err (InvalidTxnTso lock_ts commit_ts)
      else
        let reader = snapshot_reader_new lock_ts snap in
        rbind (of_mvcc (for_keys (\<lambda>txn k. commit txn reader k commit_ts commit_role) keys [] (txn_new lock_ts cm)))
          (\<lambda>(released, txn).
            finish_command txn (length keys) (ProcTxnStatus (StatusCommitted commit_ts)) released [(lock_ts, commit_ts)]))"

definition rollback_command ::
    "concurrency_manager \<Rightarrow> snapshot \<Rightarrow> Key list \<Rightarrow> TimeStamp \<Rightarrow> write_result cmd_result" where
  "rollback_command cm snap keys start_ts =
     (let reader = snapshot_reader_new start_ts snap in
      rbind (of_mvcc (for_keys (\<lambda>txn k. cleanup txn reader k ts_zero False) keys [] (txn_new start_ts cm)))
        (\<lambda>(released, txn). finish_command txn (length keys) ProcRes released []))"

text \<open>Commands that first push the maximal timestamp return the manager beside their result.\<close>

definition with_max_ts ::
    "env \<Rightarrow> TimeStamp \<Rightarrow> concurrency_manager \<Rightarrow> (concurrency_manager \<Rightarrow> write_result cmd_result) \<Rightarrow>
     write_result cmd_result \<times> concurrency_manager" where
  "with_max_ts env ts cm f =
     (case update_max_ts (env_now env) (env_tso env) ts cm of
        (res, cm) \<Rightarrow>
          (rbind (of_mvcc (map_error (\<lambda>(ts, limit). InvalidMaxTsUpdate ts limit) res)) (\<lambda>_. f cm), cm))"

definition cleanup_command ::
    "env \<Rightarrow> concurrency_manager \<Rightarrow> snapshot \<Rightarrow> Key \<Rightarrow> TimeStamp \<Rightarrow> TimeStamp \<Rightarrow>
     write_result cmd_result \<times> concurrency_manager" where
  "cleanup_command env cm snap key start_ts current_ts =
     with_max_ts env start_ts cm (\<lambda>cm.
       rbind (of_mvcc (cleanup (txn_new start_ts cm) (snapshot_reader_new start_ts snap) key current_ts True))
         (\<lambda>(rl, txn). finish_command txn 1 ProcRes (released_push rl []) []))"

definition pessimistic_rollback_key :: "snapshot_reader \<Rightarrow> TimeStamp \<Rightarrow> TimeStamp \<Rightarrow> key_step" where
  "pessimistic_rollback_key reader start_ts for_update_ts txn key =
     rbind (sr_load_lock reader key) (\<lambda>res.
       case res of
         Some l \<Rightarrow>
           if is_pessimistic_lock l \<and> l_ts l = start_ts \<and> l_for_update_ts l \<le> for_update_ts
           then Ok (unlock_key key True ts_zero txn) else Ok (None, txn)
       | None \<Rightarrow> Ok (None, txn))"

definition pessimistic_rollback_command ::
    "concurrency_manager \<Rightarrow> snapshot \<Rightarrow> Key list \<Rightarrow> TimeStamp \<Rightarrow> TimeStamp \<Rightarrow> Key option \<Rightarrow> write_result cmd_result" where
  "pessimistic_rollback_command cm snap keys start_ts for_update_ts scan_key =
     (let reader = snapshot_reader_new start_ts snap in
      rbind (of_mvcc (for_keys (pessimistic_rollback_key reader start_ts for_update_ts) keys [] (txn_new start_ts cm)))
        (\<lambda>(released, txn).
          finish_command txn (length keys)
            (if scan_key = None then ProcMultiRes
             else NextCommand (PessimisticRollbackReadPhase start_ts for_update_ts scan_key)) released []))"

definition heart_beat_lock :: "lock \<Rightarrow> u64 \<Rightarrow> u64 \<Rightarrow> bool \<times> lock" where
  "heart_beat_lock l advise_ttl min_commit_ts =
     (let (updated, l) = (if l_ttl l < advise_ttl then (True, l\<lparr>l_ttl := advise_ttl\<rparr>) else (False, l)) in
      if \<not> l_use_async_commit l \<and> l_generation l > 0 \<and> min_commit_ts > 0 \<and> l_min_commit_ts l < min_commit_ts
      then (True, l\<lparr>l_min_commit_ts := min_commit_ts\<rparr>) else (updated, l))"

definition txn_heart_beat_command ::
    "concurrency_manager \<Rightarrow> snapshot \<Rightarrow> Key \<Rightarrow> TimeStamp \<Rightarrow> u64 \<Rightarrow> u64 \<Rightarrow> write_result cmd_result" where
  "txn_heart_beat_command cm snap primary_key start_ts advise_ttl min_commit_ts =
     (let txn = txn_new start_ts cm in
      rbind (of_mvcc (rbind (sr_load_lock (snapshot_reader_new start_ts snap) primary_key) (\<lambda>res.
        let not_found = rbind (of_codec (into_raw primary_key)) (\<lambda>raw. Err (TxnNotFound start_ts raw)) in
        case res of
          Some l \<Rightarrow>
            if l_ts l = start_ts
            then
              let (updated, l) = heart_beat_lock l advise_ttl min_commit_ts in
              rbind (if updated then put_lock primary_key l False txn else Ok txn) (\<lambda>txn. Ok (l, txn))
            else not_found
        | None \<Rightarrow> not_found))) (\<lambda>(l, txn).
        finish_command txn 1 (ProcTxnStatus (Uncommitted l False)) [] []))"

subsection \<open>Resolving locks\<close>

definition resolve_lite_key :: "snapshot_reader \<Rightarrow> TimeStamp \<Rightarrow> key_step" where
  "resolve_lite_key reader commit_ts txn key =
     (if \<not> is_zero commit_ts then commit txn reader key commit_ts None
      else cleanup txn reader key ts_zero False)"

definition resolve_lock_lite_command ::
    "concurrency_manager \<Rightarrow> snapshot \<Rightarrow> TimeStamp \<Rightarrow> TimeStamp \<Rightarrow> Key list \<Rightarrow> write_result cmd_result" where
  "resolve_lock_lite_command cm snap start_ts commit_ts resolve_keys =
     (let reader = snapshot_reader_new start_ts snap in
      rbind (of_mvcc (for_keys (resolve_lite_key reader commit_ts) resolve_keys [] (txn_new start_ts cm)))
        (\<lambda>(released, txn).
          finish_command txn (length resolve_keys) ProcRes released
            (if \<not> is_zero commit_ts then [(start_ts, commit_ts)] else [])))"

text \<open>
  One lock of a resolution: the released lock, and whether the transaction is now known to be
  committed. The buffer and the reader take the timestamp of the lock's transaction.
\<close>

definition resolve_one ::
    "(TimeStamp \<rightharpoonup> TimeStamp) \<Rightarrow> snapshot_reader \<Rightarrow> mvcc_txn \<Rightarrow> Key \<Rightarrow> lock \<Rightarrow>
     ((released_lock option \<times> (TimeStamp \<times> TimeStamp) list) \<times> mvcc_txn) cmd_result" where
  "resolve_one txn_status reader txn key l =
     (let txn = txn\<lparr>t_start_ts := l_ts l\<rparr>;
          reader = reader\<lparr>sr_start_ts := l_ts l\<rparr> in
      case txn_status (l_ts l) of
        None \<Rightarrow> Panic
      | Some commit_ts \<Rightarrow>
          if is_zero commit_ts
          then rbind (of_mvcc (cleanup txn reader key ts_zero False)) (\<lambda>(rl, txn). Ok ((rl, []), txn))
          else if commit_ts > l_ts l
          then
            (case commit txn reader key commit_ts None of
               Ok (rl, txn) \<Rightarrow> Ok ((rl, [(l_ts l, commit_ts)]), txn)
             | Err (TxnLockNotFound a b c d) \<Rightarrow>
                 if is_pessimistic_lock l then Ok ((None, []), txn)
                 else Err (CE_Mvcc (TxnLockNotFound a b c d))
             | Err err \<Rightarrow> Err (CE_Mvcc err)
             | Panic \<Rightarrow> Panic)
          else Err (InvalidTxnTso (l_ts l) commit_ts))"

text \<open>The loop stops after a key once the batch is large; that key is scanned again by the next command.\<close>

fun resolve_loop ::
    "(TimeStamp \<rightharpoonup> TimeStamp) \<Rightarrow> snapshot_reader \<Rightarrow> (Key \<times> lock) list \<Rightarrow> Key option \<Rightarrow> released_lock list \<Rightarrow>
     (TimeStamp \<times> TimeStamp) list \<Rightarrow> mvcc_txn \<Rightarrow>
     (Key option \<times> released_lock list \<times> (TimeStamp \<times> TimeStamp) list \<times> mvcc_txn) cmd_result" where
  "resolve_loop txn_status reader [] scan_key released known txn = Ok (scan_key, released, known, txn)"
| "resolve_loop txn_status reader ((key, l) # key_locks) scan_key released known txn =
     rbind (resolve_one txn_status reader txn key l) (\<lambda>((rl, status), txn).
       let released = released_push rl released; known = known @ status in
       if t_write_size txn \<ge> MAX_TXN_WRITE_SIZE then Ok (Some key, released, known, txn)
       else resolve_loop txn_status reader key_locks scan_key released known txn)"

definition resolve_lock_command ::
    "concurrency_manager \<Rightarrow> snapshot \<Rightarrow> (TimeStamp \<rightharpoonup> TimeStamp) \<Rightarrow> Key option \<Rightarrow> (Key \<times> lock) list \<Rightarrow>
     write_result cmd_result" where
  "resolve_lock_command cm snap txn_status scan_key key_locks =
     rbind (resolve_loop txn_status (snapshot_reader_new ts_zero snap) key_locks scan_key [] [] (txn_new ts_zero cm))
       (\<lambda>(scan_key, released, known, txn).
         finish_command txn (length key_locks)
           (if scan_key = None then ProcRes else NextCommand (ResolveLockReadPhase txn_status scan_key))
           released (remdups_adj (sort known)))"

subsection \<open>Checking a transaction\<close>

definition check_txn_status_command ::
    "env \<Rightarrow> concurrency_manager \<Rightarrow> snapshot \<Rightarrow> Key \<Rightarrow> TimeStamp \<Rightarrow> TimeStamp \<Rightarrow> TimeStamp \<Rightarrow> bool \<Rightarrow> bool \<Rightarrow> bool \<Rightarrow>
     bool \<Rightarrow> write_result cmd_result \<times> concurrency_manager" where
  "check_txn_status_command env cm snap primary_key lock_ts caller_start_ts current_ts rollback_if_not_exist
       force_sync_commit resolving_pessimistic_lock verify_is_primary =
     (let new_max_ts = (if \<not> is_max current_ts \<and> current_ts > lock_ts then current_ts else lock_ts);
          new_max_ts = (if \<not> is_max caller_start_ts \<and> caller_start_ts > new_max_ts then caller_start_ts else new_max_ts) in
      with_max_ts env new_max_ts cm (\<lambda>cm.
        let txn = txn_new lock_ts cm;
            reader = snapshot_reader_new lock_ts snap in
        rbind (of_mvcc (rbind (sr_load_lock reader primary_key) (\<lambda>res.
          let missing = rbind (check_txn_status_missing_lock txn reader primary_key res
                (TxnActions.rollback_action rollback_if_not_exist) resolving_pessimistic_lock) (\<lambda>(status, txn).
                  Ok ((status, None), txn)) in
          case res of
            Some l \<Rightarrow>
              if l_ts l = lock_ts
              then check_txn_status_lock_exists txn reader primary_key l current_ts caller_start_ts
                force_sync_commit resolving_pessimistic_lock verify_is_primary rollback_if_not_exist
              else missing
          | None \<Rightarrow> missing))) (\<lambda>((status, released), txn).
          finish_command txn 1 (ProcTxnStatus status) (released_push released [])
            (case status of StatusCommitted commit_ts \<Rightarrow> [(lock_ts, commit_ts)] | _ \<Rightarrow> []))))"

datatype secondary_lock_status =
    SecLocked lock
  | SecCommitted TimeStamp
  | SecRolledBack

definition check_determined_secondary ::
    "snapshot_reader \<Rightarrow> Key \<Rightarrow> (secondary_lock_status \<times> bool \<times> overlapped_write option) mvcc_result" where
  "check_determined_secondary reader key =
     rbind (sr_get_txn_commit_record reader key) (\<lambda>rec.
       case rec of
         SingleRecord commit_ts w \<Rightarrow>
           Ok (if w_type w \<noteq> WT_Rollback then SecCommitted commit_ts else SecRolledBack, False, None)
       | OverlappedRollback _ \<Rightarrow> Ok (SecRolledBack, False, None)
       | TCR_None overlapped_write \<Rightarrow> Ok (SecRolledBack, True, overlapped_write))"

definition check_status_from_lock ::
    "mvcc_txn \<Rightarrow> snapshot_reader \<Rightarrow> lock \<Rightarrow> Key \<Rightarrow>
     ((secondary_lock_status \<times> bool \<times> overlapped_write option \<times> released_lock option) \<times> mvcc_txn) mvcc_result" where
  "check_status_from_lock txn reader l key =
     rbind (if is_pessimistic_lock_with_conflict l
            then rbind (check_determined_secondary reader key) (\<lambda>r. Ok (Some r)) else Ok None) (\<lambda>determined.
       case determined of
         Some (status, False, overlapped) \<Rightarrow>
           (case unlock_key key True ts_zero txn of
              (released, txn) \<Rightarrow> Ok ((status, False, overlapped, released), txn))
       | _ \<Rightarrow>
           if is_pessimistic_lock l
           then
             (case unlock_key key True ts_zero txn of
                (released, txn) \<Rightarrow>
                  rbind (case determined of
                           Some (_, _, overlapped) \<Rightarrow> Ok overlapped
                         | None \<Rightarrow> rbind (sr_get_txn_commit_record reader key) unwrap_none) (\<lambda>overlapped.
                    Ok ((SecRolledBack, True, overlapped, released), txn)))
           else Ok ((SecLocked l, False, None, None), txn))"

text \<open>One secondary key: its status and the lock it releases.\<close>

definition check_secondary_key ::
    "snapshot_reader \<Rightarrow> TimeStamp \<Rightarrow> mvcc_txn \<Rightarrow> Key \<Rightarrow>
     ((secondary_lock_status \<times> released_lock option) \<times> mvcc_txn) mvcc_result" where
  "check_secondary_key reader start_ts txn key =
     rbind (sr_load_lock reader key) (\<lambda>res.
     rbind (case res of
              Some l \<Rightarrow>
                if l_ts l = start_ts
                then rbind (check_status_from_lock txn reader l key)
                  (\<lambda>((status, need_rollback, overlapped, released), txn).
                    Ok (status, need_rollback, overlapped, released, None, txn))
                else rbind (check_determined_secondary reader key)
                  (\<lambda>(status, need_rollback, overlapped). Ok (status, need_rollback, overlapped, None, Some l, txn))
            | None \<Rightarrow>
                rbind (check_determined_secondary reader key)
                  (\<lambda>(status, need_rollback, overlapped). Ok (status, need_rollback, overlapped, None, None, txn)))
       (\<lambda>(status, need_rollback, overlapped, released, mismatch_lock, txn).
     rbind (if need_rollback
            then
              rbind (case mismatch_lock of
                       Some l \<Rightarrow> mark_rollback_on_mismatching_lock key l True txn
                     | None \<Rightarrow> Ok txn) (\<lambda>txn.
              rbind (make_rollback start_ts True overlapped) (\<lambda>w.
                case w of
                  Some w \<Rightarrow> collapse_prev_rollback (put_write key start_ts (write_to_bytes w) txn) reader key
                | None \<Rightarrow> Ok txn))
            else Ok txn) (\<lambda>txn.
       Ok ((status, released), txn))))"

fun check_secondary_loop ::
    "snapshot_reader \<Rightarrow> TimeStamp \<Rightarrow> Key list \<Rightarrow> lock_info list \<Rightarrow> released_lock list \<Rightarrow> mvcc_txn \<Rightarrow>
     (secondary_locks_status \<times> released_lock list \<times> mvcc_txn) mvcc_result" where
  "check_secondary_loop reader start_ts [] infos released txn = Ok (SL_Locked infos, released, txn)"
| "check_secondary_loop reader start_ts (key # keys) infos released txn =
     rbind (check_secondary_key reader start_ts txn key) (\<lambda>((status, rl), txn).
       let released = released_push rl released in
       case status of
         SecLocked l \<Rightarrow>
           rbind (of_codec (to_raw key)) (\<lambda>raw.
             check_secondary_loop reader start_ts keys (infos @ [into_lock_info l raw]) released txn)
       | SecCommitted commit_ts \<Rightarrow> Ok (SL_Committed commit_ts, released, txn)
       | SecRolledBack \<Rightarrow> Ok (SL_RolledBack, released, txn))"

definition check_secondary_locks_command ::
    "env \<Rightarrow> concurrency_manager \<Rightarrow> snapshot \<Rightarrow> Key list \<Rightarrow> TimeStamp \<Rightarrow>
     write_result cmd_result \<times> concurrency_manager" where
  "check_secondary_locks_command env cm snap keys start_ts =
     with_max_ts env start_ts cm (\<lambda>cm.
       rbind (of_mvcc (check_secondary_loop (snapshot_reader_new start_ts snap) start_ts keys [] [] (txn_new start_ts cm)))
         (\<lambda>(result, released, txn).
           finish_command txn (if result = SL_RolledBack then 1 else 0) (ProcSecondaryLocks result) released
             (case result of SL_Committed commit_ts \<Rightarrow> [(start_ts, commit_ts)] | _ \<Rightarrow> [])))"

section \<open>Actions on one key\<close>

text \<open>
  An action on a key is local: whatever is in the buffer, it has the same outcome and appends the same
  modifications, all of them on entries of the key.
\<close>

fun entry_on :: "Key \<Rightarrow> cf \<Rightarrow> Key \<Rightarrow> bool" where
  "entry_on key CF_LOCK k \<longleftrightarrow> k = key"
| "entry_on key _ k \<longleftrightarrow> (\<exists>ts. k = append_ts key ts)"

fun modify_on :: "Key \<Rightarrow> modify \<Rightarrow> bool" where
  "modify_on key (Put cf k v) \<longleftrightarrow> entry_on key cf k"
| "modify_on key (Delete cf k) \<longleftrightarrow> entry_on key cf k"
| "modify_on key _ \<longleftrightarrow> False"

definition appends :: "modify list \<Rightarrow> mvcc_txn \<Rightarrow> mvcc_txn \<Rightarrow> bool" where
  "appends ms txn txn' \<longleftrightarrow> t_modifies txn' = t_modifies txn @ ms \<and> t_start_ts txn' = t_start_ts txn \<and>
     t_locks_for_1pc txn' = t_locks_for_1pc txn"

fun runs_as :: "Key \<Rightarrow> (mvcc_error, 'a \<times> modify list) result \<Rightarrow> mvcc_txn \<Rightarrow> ('a \<times> mvcc_txn) mvcc_result \<Rightarrow> bool" where
  "runs_as key (Ok (a, ms)) txn r \<longleftrightarrow> list_all (modify_on key) ms \<and> (\<exists>txn'. r = Ok (a, txn') \<and> appends ms txn txn')"
| "runs_as key (Err err) txn r \<longleftrightarrow> r = Err err"
| "runs_as key Panic txn r \<longleftrightarrow> r = Panic"

definition key_local :: "Key \<Rightarrow> (mvcc_txn \<Rightarrow> ('a \<times> mvcc_txn) mvcc_result) \<Rightarrow> bool" where
  "key_local key f \<longleftrightarrow> (\<forall>s. \<exists>out. \<forall>txn. t_start_ts txn = s \<longrightarrow> runs_as key out txn (f txn))"

definition buf_local :: "Key \<Rightarrow> (mvcc_txn \<Rightarrow> mvcc_txn) \<Rightarrow> bool" where
  "buf_local key g \<longleftrightarrow> (\<forall>s. \<exists>ms. list_all (modify_on key) ms \<and> (\<forall>txn. t_start_ts txn = s \<longrightarrow> appends ms txn (g txn)))"

named_theorems local_intros

lemma appends_trans: "appends ms txn txn' \<Longrightarrow> appends ns txn' txn'' \<Longrightarrow> appends (ms @ ns) txn txn''"
  by (simp add: appends_def)

lemma local_pure [local_intros]: "key_local key (\<lambda>txn. Ok (a, txn))"
  unfolding key_local_def by (intro allI exI [of _ "Ok (a, [])"]) (simp add: appends_def)

lemma local_Err [local_intros]: "key_local key (\<lambda>txn. Err err)"
  unfolding key_local_def by (intro allI exI [of _ "Err err"]) simp

lemma local_Panic [local_intros]: "key_local key (\<lambda>txn. Panic)"
  unfolding key_local_def by (intro allI exI [of _ Panic]) simp

lemma local_if [local_intros]:
  "(b \<Longrightarrow> key_local key f) \<Longrightarrow> (\<not> b \<Longrightarrow> key_local key g) \<Longrightarrow> key_local key (\<lambda>txn. if b then f txn else g txn)"
  by (cases b) simp_all

lemma local_option [local_intros]:
  "(x = None \<Longrightarrow> key_local key f) \<Longrightarrow> (\<And>y. x = Some y \<Longrightarrow> key_local key (g y)) \<Longrightarrow>
   key_local key (\<lambda>txn. case x of None \<Rightarrow> f txn | Some y \<Rightarrow> g y txn)"
  by (cases x) simp_all

lemma local_prod [local_intros]:
  "(\<And>a b. x = (a, b) \<Longrightarrow> key_local key (g a b)) \<Longrightarrow> key_local key (\<lambda>txn. case x of (a, b) \<Rightarrow> g a b txn)"
  by (cases x) simp

lemma local_lift [local_intros]:
  "(\<And>x. r = Ok x \<Longrightarrow> key_local key (f x)) \<Longrightarrow> key_local key (\<lambda>txn. rbind r (\<lambda>x. f x txn))"
  by (cases r) (auto intro: local_intros)

lemma local_bind [local_intros]:
  assumes f: "key_local key f" and g: "\<And>a. key_local key (g a)"
  shows "key_local key (\<lambda>txn. rbind (f txn) (\<lambda>(a, txn). g a txn))"
  unfolding key_local_def
proof
  fix s
  obtain out where out: "\<And>txn. t_start_ts txn = s \<Longrightarrow> runs_as key out txn (f txn)" using f unfolding key_local_def by blast
  show "\<exists>out. \<forall>txn. t_start_ts txn = s \<longrightarrow> runs_as key out txn (rbind (f txn) (\<lambda>(a, txn). g a txn))"
  proof (cases out)
    case (Ok x)
    obtain a ms where x: "x = (a, ms)" by (cases x)
    obtain out' where out': "\<And>txn. t_start_ts txn = s \<Longrightarrow> runs_as key out' txn (g a txn)"
      using g [of a] unfolding key_local_def by blast
    have step: "\<exists>txn'. f txn = Ok (a, txn') \<and> appends ms txn txn' \<and> runs_as key out' txn' (g a txn')"
      and on: "list_all (modify_on key) ms" if "t_start_ts txn = s" for txn
      using out [OF that] out' that unfolding Ok x by (auto simp: appends_def)
    show ?thesis
    proof (cases out')
      case ok: (Ok y)
      obtain b ns where y: "y = (b, ns)" by (cases y)
      show ?thesis
      proof (intro exI [of _ "Ok (b, ms @ ns)"] allI impI)
        fix txn :: mvcc_txn assume t: "t_start_ts txn = s"
        show "runs_as key (Ok (b, ms @ ns)) txn (rbind (f txn) (\<lambda>(a, txn). g a txn))"
          using step [OF t] on [OF t] unfolding ok y by (auto intro: appends_trans)
      qed
    next
      case (Err err)
      show ?thesis by (intro exI [of _ "Err err"]) (use step Err in fastforce)
    next
      case Panic
      show ?thesis by (intro exI [of _ Panic]) (use step Panic in fastforce)
    qed
  next
    case (Err err)
    show ?thesis by (intro exI [of _ "Err err"]) (use out Err in fastforce)
  next
    case Panic
    show ?thesis by (intro exI [of _ Panic]) (use out Panic in fastforce)
  qed
qed

lemma local_buf:
  assumes f: "key_local key f" and g: "buf_local key g"
  shows "key_local key (\<lambda>txn. f (g txn))"
proof -
  have "key_local key (\<lambda>txn. Ok ((), g txn))"
    unfolding key_local_def
  proof
    fix s
    obtain ms where "list_all (modify_on key) ms" "\<And>txn. t_start_ts txn = s \<Longrightarrow> appends ms txn (g txn)"
      using g unfolding buf_local_def by blast
    then show "\<exists>out. \<forall>txn. t_start_ts txn = s \<longrightarrow> runs_as key out txn (Ok ((), g txn))"
      by (intro exI [of _ "Ok ((), ms)"]) auto
  qed
  from local_bind [OF this, of "\<lambda>_. f"] f show ?thesis by simp
qed

lemma buf_push:
  assumes "modify_on key m"
  shows "buf_local key (push_modify m)"
  unfolding buf_local_def using assms by (intro allI exI [of _ "[m]"]) (simp add: appends_def push_modify_def)

lemma buf_id: "buf_local key (\<lambda>txn. txn)"
  unfolding buf_local_def by (intro allI exI [of _ "[]"]) (simp add: appends_def)

lemma buf_writes:
  "buf_local key (put_write key ts v)" "buf_local key (delete_write key ts)"
  "buf_local key (put_value key ts v)" "buf_local key (delete_value key ts)"
  "buf_local key (put_write_opt key ts w)"
  unfolding put_write_def delete_write_def put_value_def delete_value_def put_write_opt_def
  by (cases w; auto intro!: buf_push buf_id)+

lemma local_unlock [local_intros]: "key_local key (\<lambda>txn. Ok (unlock_key key p ts txn))"
  unfolding key_local_def
proof
  fix s
  show "\<exists>out. \<forall>txn. t_start_ts txn = s \<longrightarrow> runs_as key out txn (Ok (unlock_key key p ts txn))"
    by (intro exI [of _ "Ok (Some \<lparr> rl_start_ts = s, rl_commit_ts = ts, rl_key = key, rl_pessimistic = p \<rparr>, [Delete CF_LOCK key])"])
      (simp add: unlock_key_def push_modify_def appends_def)
qed

lemma local_buf_if:
  assumes "key_local key f" "buf_local key g"
  shows "key_local key (\<lambda>txn. f (if b then g txn else txn))"
  using local_buf [OF assms] assms(1) by (cases b) simp_all

lemma commit_local: "key_local key (\<lambda>txn. commit txn r key c role)"
  unfolding commit_def commit_lock_missing_def
  by (intro local_intros local_buf [OF local_unlock buf_writes(1)])

lemma collapse_local:
  assumes "key_local key f"
  shows "key_local key (\<lambda>txn. rbind (collapse_prev_rollback txn r key) f)"
proof -
  have "(\<lambda>txn. rbind (collapse_prev_rollback txn r key) f) = (\<lambda>txn. rbind (sr_seek_write r key (sr_start_ts r)) (\<lambda>res.
      case res of None \<Rightarrow> f txn | Some cw \<Rightarrow> (case cw of (commit_ts, w) \<Rightarrow>
        f (if w_type w = WT_Rollback \<and> \<not> is_protected w then delete_write key commit_ts txn else txn))))"
    by (rule ext, cases "sr_seek_write r key (sr_start_ts r)") (simp_all add: collapse_prev_rollback_def split: option.split prod.split)
  then show ?thesis by (simp only:) (intro local_intros assms local_buf_if [OF assms buf_writes(2)])
qed

lemma collapse_if_local:
  assumes "key_local key f"
  shows "key_local key (\<lambda>txn. rbind (if b then collapse_prev_rollback txn r key else Ok txn) f)"
  using collapse_local [OF assms] assms by (cases b) simp_all

lemma put_lock_local:
  assumes "key_local key f"
  shows "key_local key (\<lambda>txn. rbind (put_lock key l False txn) f)"
  using local_buf [OF assms buf_push, of "Put CF_LOCK key (lock_to_bytes l)"]
  by (simp add: put_lock_def push_new_lock_def)

lemma rollback_lock_local: "key_local key (\<lambda>txn. rollback_lock txn r key l p collapse)"
proof -
  have "key_local key (\<lambda>txn. rbind (make_rollback s protect ov) (\<lambda>w.
      rbind (if collapse then collapse_prev_rollback (put_write_opt key s w txn) r key else Ok (put_write_opt key s w txn))
        (\<lambda>txn. Ok (unlock_key key p ts_zero txn))))" for s protect ov
    by (intro local_lift local_buf [OF collapse_if_local [OF local_unlock] buf_writes(5)])
  from local_buf_if [OF this buf_writes(4)]
  have none: "key_local key (\<lambda>txn. rbind (make_rollback s protect ov) (\<lambda>w.
      rbind (if collapse
             then collapse_prev_rollback (put_write_opt key s w (if b then delete_value key t txn else txn)) r key
             else Ok (put_write_opt key s w (if b then delete_value key t txn else txn)))
        (\<lambda>txn. Ok (unlock_key key p ts_zero txn))))" for s protect ov b t .
  show ?thesis
    unfolding rollback_lock_def Let_def
  proof (rule local_lift)
    fix rec
    show "key_local key (\<lambda>txn. case rec of
         TCR_None overlapped \<Rightarrow>
           rbind (make_rollback (sr_start_ts r) (key_is_encoded_from key (l_primary l) \<or> l_generation l > 0) overlapped) (\<lambda>w.
              rbind (if collapse then collapse_prev_rollback (put_write_opt key (sr_start_ts r) w
                    (if l_short_value l = None \<and> l_type l = LT_Put then delete_value key (l_ts l) txn else txn)) r key
                  else Ok (put_write_opt key (sr_start_ts r) w
                    (if l_short_value l = None \<and> l_type l = LT_Put then delete_value key (l_ts l) txn else txn))) (\<lambda>txn.
                Ok (unlock_key key p ts_zero txn)))
       | SingleRecord commit_ts w \<Rightarrow>
           if w_type w \<noteq> WT_Rollback then Panic else Ok (unlock_key key p ts_zero txn)
       | OverlappedRollback _ \<Rightarrow> Ok (unlock_key key p ts_zero txn))"
      by (cases rec) (simp_all add: none local_unlock local_Panic local_if)
  qed
qed

lemma local_start: "(\<And>s. key_local key (g s)) \<Longrightarrow> key_local key (\<lambda>txn. g (t_start_ts txn) txn)"
  unfolding key_local_def by metis

lemma mark_rollback_local:
  assumes "key_local key f"
  shows "key_local key (\<lambda>txn. rbind (mark_rollback_on_mismatching_lock key l p txn) f)"
proof -
  let ?g = "\<lambda>s txn. if l_ts l = s then Panic else if \<not> p \<or> s < l_min_commit_ts l \<or> \<not> l_use_async_commit l then f txn
    else rbind (put_lock key (l\<lparr>l_rollback_ts := l_rollback_ts l @ [s]\<rparr>) False txn) f"
  have "(\<lambda>txn. rbind (mark_rollback_on_mismatching_lock key l p txn) f) = (\<lambda>txn. ?g (t_start_ts txn) txn)"
    by (rule ext) (simp add: mark_rollback_on_mismatching_lock_def)
  moreover have "key_local key (?g s)" for s by (intro local_intros put_lock_local assms)
  ultimately show ?thesis using local_start [of key ?g] by simp
qed

lemma missing_lock_local: "key_local key (\<lambda>txn. check_txn_status_missing_lock txn r key ml action resolving)"
proof -
  have put: "key_local key (\<lambda>txn. rbind wr (\<lambda>w. Ok (LockNotExist, put_write_opt key s w txn)))" for wr s
    by (intro local_lift local_buf [OF local_pure buf_writes(5)])
  have "key_local key (\<lambda>txn. rbind (case (ml, ov) of
          (Some l, None) \<Rightarrow> mark_rollback_on_mismatching_lock key l p txn
        | _ \<Rightarrow> Ok txn) (\<lambda>txn. rbind wr (\<lambda>w. Ok (LockNotExist, put_write_opt key s w txn))))" for ov p wr s
    by (cases ml; cases ov) (simp_all add: put mark_rollback_local)
  from collapse_if_local [OF this]
  have none: "key_local key (\<lambda>txn. rbind (if collapse then collapse_prev_rollback txn r key else Ok txn) (\<lambda>txn.
      rbind (case (ml, ov) of
          (Some l, None) \<Rightarrow> mark_rollback_on_mismatching_lock key l p txn
        | _ \<Rightarrow> Ok txn) (\<lambda>txn. rbind wr (\<lambda>w. Ok (LockNotExist, put_write_opt key s w txn)))))" for collapse ov p wr s .
  show ?thesis
    unfolding check_txn_status_missing_lock_def
  proof (rule local_lift, goal_cases)
    case (1 rec)
    show ?case
    proof (cases rec)
      case (TCR_None ov)
      show ?thesis unfolding TCR_None txn_commit_record.case by (intro local_intros none)
    qed (auto intro: local_intros)
  qed
qed

lemma cleanup_missing_local: "key_local key (\<lambda>txn. cleanup_missing txn r key l protect)"
  unfolding cleanup_missing_def
proof (rule local_bind [OF missing_lock_local])
  fix status
  show "key_local key (\<lambda>txn. case status of
           StatusCommitted commit_ts \<Rightarrow>
             rbind (of_codec (into_raw key)) (\<lambda>raw. Err (Committed (sr_start_ts r) commit_ts raw))
         | RolledBack \<Rightarrow> Ok (None, txn)
         | LockNotExist \<Rightarrow> Ok (None, txn)
         | _ \<Rightarrow> Panic)"
    by (cases status) (auto intro: local_intros)
qed

lemma cleanup_local: "key_local key (\<lambda>txn. cleanup txn r key current_ts protect)"
  unfolding cleanup_def by (intro local_intros rollback_lock_local cleanup_missing_local)

lemma pessimistic_rollback_local: "key_local key (\<lambda>txn. pessimistic_rollback_key r s fu txn key)"
  unfolding pessimistic_rollback_key_def by (intro local_intros)

section \<open>The batch of a command\<close>

fun put_entry :: "modify \<Rightarrow> (cf \<Rightarrow> Key \<Rightarrow> Value option) \<Rightarrow> cf \<Rightarrow> Key \<Rightarrow> Value option" where
  "put_entry (Put cf k v) g = g(cf := (g cf)(k \<mapsto> v))"
| "put_entry (Delete cf k) g = g(cf := (g cf)(k := None))"
| "put_entry _ g = g"

definition sorted_engine :: "engine \<Rightarrow> bool" where
  "sorted_engine e \<longleftrightarrow> (\<forall>cf. sorted_tree (get_cf_tree e cf))"

lemma wf_store_sorted: "wf_store e \<Longrightarrow> sorted_engine e"
  by (simp add: sorted_engine_def wf_storeD)

lemma write_modify_entries:
  assumes "sorted_engine e" "modify_on key m"
  obtains e' where "write_modify e m = (Ok e' :: ('e, engine) result)" "sorted_engine e'" "get_cf e' = put_entry m (get_cf e)"
proof (cases m)
  case (Put cf k v)
  with assms show ?thesis
    by (intro that [of "set_cf_tree e cf (tree_insert k v (get_cf_tree e cf))"])
      (auto simp: sorted_engine_def sorted_tree_insert get_cf_def btree.get_insert fun_eq_iff
        simp del: get_cf_tree.simps set_cf_tree.simps)
next
  case (Delete cf k)
  with assms show ?thesis
    by (intro that [of "set_cf_tree e cf (tree_remove k (get_cf_tree e cf))"])
      (auto simp: sorted_engine_def sorted_tree_remove get_cf_def btree.get_remove fun_eq_iff
        simp del: get_cf_tree.simps set_cf_tree.simps)
qed (use assms in auto)

lemma write_modifies_entries:
  assumes "sorted_engine e" "\<forall>m \<in> set ms. \<exists>key. modify_on key m"
  obtains e' where "write_modifies e ms = (Ok e' :: ('e, engine) result)" "sorted_engine e'" "get_cf e' = fold put_entry ms (get_cf e)"
  using assms
proof (induction ms arbitrary: e thesis)
  case (Cons m ms)
  then obtain key where "modify_on key m" by auto
  then obtain e\<^sub>1 where "write_modify e m = (Ok e\<^sub>1 :: ('e, engine) result)" "sorted_engine e\<^sub>1"
    "get_cf e\<^sub>1 = put_entry m (get_cf e)" by (rule write_modify_entries [OF Cons.prems(2)])
  note e\<^sub>1 = this
  obtain e' where "write_modifies e\<^sub>1 ms = (Ok e' :: ('e, engine) result)" "sorted_engine e'"
    "get_cf e' = fold put_entry ms (get_cf e\<^sub>1)" using Cons.IH [OF _ e\<^sub>1(2)] Cons.prems(3) by auto
  with e\<^sub>1 show ?case by (intro Cons.prems(1)) auto
qed simp

text \<open>Entries of different keys do not meet.\<close>

lemma entry_on_unique: "entry_on k cf x \<Longrightarrow> entry_on k' cf x \<Longrightarrow> k = k'"
  by (cases cf) auto

lemma put_entry_cong: "g cf x = h cf x \<Longrightarrow> put_entry m g cf x = put_entry m h cf x"
  by (cases m) auto

lemma put_entries_cong: "g cf x = h cf x \<Longrightarrow> fold put_entry ms g cf x = fold put_entry ms h cf x"
proof (induction ms arbitrary: g h)
  case (Cons m ms)
  from Cons.IH [of "put_entry m g" "put_entry m h"] put_entry_cong [of g cf x h, OF Cons.prems] show ?case by simp
qed simp

lemma put_entries_other:
  "list_all (modify_on k) ms \<Longrightarrow> \<not> entry_on k cf x \<Longrightarrow> fold put_entry ms g cf x = g cf x"
proof (induction ms arbitrary: g)
  case (Cons m ms)
  then have "put_entry m g cf x = g cf x" by (cases m) auto
  with Cons show ?case by simp
qed simp

lemma put_entries_batch:
  assumes "distinct ks" "\<forall>k \<in> set ks. list_all (modify_on k) (ms k)"
  shows "fold put_entry (concat (map ms ks)) g cf x =
    (case List.find (\<lambda>k. entry_on k cf x) ks of None \<Rightarrow> g cf x | Some k \<Rightarrow> fold put_entry (ms k) g cf x)"
  using assms
proof (induction ks arbitrary: g)
  case (Cons k ks)
  let ?h = "fold put_entry (ms k) g"
  have IH: "fold put_entry (concat (map ms ks)) ?h cf x =
    (case List.find (\<lambda>k. entry_on k cf x) ks of None \<Rightarrow> ?h cf x | Some k \<Rightarrow> fold put_entry (ms k) ?h cf x)"
    using Cons by simp
  show ?case
  proof (cases "entry_on k cf x")
    case True
    then have "List.find (\<lambda>k. entry_on k cf x) ks = None"
      using Cons.prems(1) entry_on_unique by (fastforce simp: find_None_iff)
    with True IH show ?thesis by simp
  next
    case False
    then have "?h cf x = g cf x" using Cons.prems(2) by (intro put_entries_other) auto
    then have "fold put_entry (ms k') ?h cf x = fold put_entry (ms k') g cf x" for k' by (rule put_entries_cong)
    with False IH \<open>?h cf x = g cf x\<close> show ?thesis by (simp split: option.split)
  qed
qed simp

text \<open>Two stores that hold the same on a key.\<close>

definition same_key :: "engine \<Rightarrow> engine \<Rightarrow> bytes \<Rightarrow> bool" where
  "same_key e' e raw \<longleftrightarrow> write_at e' (from_raw raw) = write_at e (from_raw raw) \<and>
     lock_at e' (from_raw raw) = lock_at e (from_raw raw) \<and> data_at e' (from_raw raw) = data_at e (from_raw raw)"

lemma same_keyI:
  assumes "\<And>cf x. entry_on (from_raw raw) cf x \<Longrightarrow> get_cf e' cf x = get_cf e cf x"
  shows "same_key e' e raw"
  using assms [of CF_WRITE] assms [of CF_LOCK] assms [of CF_DEFAULT]
  by (simp add: same_key_def view_defs fun_eq_iff)

lemma same_key_ok: "same_key e' e raw \<Longrightarrow> key_ok e raw \<Longrightarrow> wf_store e' \<Longrightarrow> key_ok e' raw"
  by (simp add: same_key_def key_ok_def)

lemma wf_store_entries:
  "wf_store e \<longleftrightarrow> sorted_engine e \<and> (\<forall>cf k v. get_cf e cf k = Some v \<longrightarrow> wf_entry cf (k, v))"
proof
  assume e: "sorted_engine e \<and> (\<forall>cf k v. get_cf e cf k = Some v \<longrightarrow> wf_entry cf (k, v))"
  have "get_cf e cf k = Some v" if "(k, v) \<in> set (get_cf_tree e cf)" for cf k v
    using e that by (auto simp: get_cf_def tree_get_def sorted_engine_def sorted_tree_def strict_sorted_iff
        intro!: map_of_is_SomeI)
  with e show "wf_store e" by (auto simp: wf_store_def sorted_engine_def)
qed (auto simp: wf_store_sorted wf_store_entry)

text \<open>The outcome of an action on a key, whatever the buffer.\<close>

lemma local_outcome:
  assumes "\<And>key. key_local key (\<lambda>txn. step txn key)"
  obtains out where "\<And>txn key. t_start_ts txn = s \<Longrightarrow> runs_as key (out key) txn (step txn key)"
proof -
  have "\<forall>key. \<exists>out. \<forall>txn. t_start_ts txn = s \<longrightarrow> runs_as key out txn (step txn key)"
    using assms unfolding key_local_def by blast
  then obtain out where "\<forall>key txn. t_start_ts txn = s \<longrightarrow> runs_as key (out key) txn (step txn key)" by metis
  then show thesis by (intro that [of out]) blast
qed

fun outcome_modifies :: "(mvcc_error, 'a \<times> modify list) result \<Rightarrow> modify list" where
  "outcome_modifies (Ok (a, ms)) = ms"
| "outcome_modifies _ = []"

lemma set_released_push [simp]: "set (released_push rl ls) = set ls \<union> set_option rl"
  by (cases rl) auto

lemma for_keys_outcome:
  assumes out: "\<And>txn key. t_start_ts txn = s \<Longrightarrow> runs_as key (out key) txn (step txn key)"
    and txn: "t_start_ts txn = s"
  shows "case for_keys step ks released txn of
      Ok (released', txn') \<Rightarrow> (\<forall>k \<in> set ks. \<exists>rl ms. out k = Ok (rl, ms)) \<and>
        appends (concat (map (outcome_modifies \<circ> out) ks)) txn txn' \<and>
        (\<forall>rl. rl \<in> set released' \<longleftrightarrow> rl \<in> set released \<or> (\<exists>k \<in> set ks. \<exists>ms. out k = Ok (Some rl, ms)))
    | Err err \<Rightarrow> \<exists>k \<in> set ks. out k = Err err
    | Panic \<Rightarrow> \<exists>k \<in> set ks. out k = Panic"
  using txn
proof (induction ks arbitrary: released txn)
  case Nil
  then show ?case by (simp add: appends_def)
next
  case (Cons k ks)
  show ?case
  proof (cases "out k")
    case (Ok r)
    obtain rl ms where k: "out k = Ok (rl, ms)" using Ok by (cases r) auto
    then obtain txn' where s: "step txn k = Ok (rl, txn')" "appends ms txn txn'" using out [OF Cons.prems, of k] by auto
    then have "t_start_ts txn' = s" using Cons.prems by (simp add: appends_def)
    from Cons.IH [OF this, of "released_push rl released"] show ?thesis
      using k s by (auto split: result.splits intro: appends_trans)
  next
    case (Err err)
    with out [OF Cons.prems, of k] show ?thesis by simp
  next
    case Panic
    with out [OF Cons.prems, of k] show ?thesis by simp
  qed
qed

text \<open>
  An action that commands run on several keys. It is local to its key and, alone, leaves a
  well-formed store; then the batch of the command has, on every key, the effect of the action alone.
\<close>

locale key_action =
  fixes act :: "engine \<Rightarrow> TimeStamp \<Rightarrow> key_step"
    and pre :: "engine \<Rightarrow> TimeStamp \<Rightarrow> bytes \<Rightarrow> bool"
  assumes act_local: "key_local key (\<lambda>txn. act e s txn key)"
    and act_store: "key_ok e raw \<Longrightarrow> pre e s raw \<Longrightarrow> act e s (txn_new s cm) (from_raw raw) = Ok (rl, txn') \<Longrightarrow>
      apply_txn e txn' = Ok e' \<Longrightarrow> wf_store e'"
    and act_total: "key_ok e raw \<Longrightarrow> pre e s raw \<Longrightarrow> act e s (txn_new s cm) (from_raw raw) \<noteq> Panic"
begin

lemma alone:
  assumes out: "\<And>txn key. t_start_ts txn = s \<Longrightarrow> runs_as key (out key) txn (act e s txn key)"
    and ok: "key_ok e raw" "pre e s raw" "out (from_raw raw) = Ok (rl, ms)"
  obtains txn' e' where "act e s (txn_new s cm) (from_raw raw) = Ok (rl, txn')" "apply_txn e txn' = Ok e'"
    "wf_store e'" "get_cf e' = fold put_entry ms (get_cf e)" "list_all (modify_on (from_raw raw)) ms"
proof -
  obtain txn' where r: "act e s (txn_new s cm) (from_raw raw) = Ok (rl, txn')" "appends ms (txn_new s cm) txn'"
    and ms: "list_all (modify_on (from_raw raw)) ms"
    using out [of "txn_new s cm" "from_raw raw"] ok(3) by auto
  obtain e' where e': "write_modifies e ms = (Ok e' :: engine mvcc_result)" "get_cf e' = fold put_entry ms (get_cf e)"
    by (rule write_modifies_entries [OF wf_store_sorted [OF key_ok_wf [OF ok(1)]], of ms])
      (use ms in \<open>auto simp: list_all_iff\<close>)
  have "apply_txn e txn' = Ok e'" using r(2) e'(1) by (simp add: apply_txn_def into_modifies_def appends_def)
  with r(1) e'(2) ms act_store [OF ok(1,2) r(1)] show thesis by (intro that)
qed

lemma batch:
  assumes ok: "\<forall>raw \<in> set raws. key_ok e raw \<and> pre e s raw" "distinct raws" "wf_store e"
  shows "case for_keys (act e s) (map from_raw raws) [] (txn_new s cm) of
      Ok (released, txn') \<Rightarrow> \<exists>e'. apply_txn e txn' = Ok e' \<and> wf_store e' \<and>
        (\<forall>raw \<in> set raws. \<exists>rl txn\<^sub>1 e\<^sub>1. act e s (txn_new s cm) (from_raw raw) = Ok (rl, txn\<^sub>1) \<and>
          apply_txn e txn\<^sub>1 = Ok e\<^sub>1 \<and> wf_store e\<^sub>1 \<and> same_key e' e\<^sub>1 raw) \<and>
        (\<forall>raw. raw \<notin> set raws \<longrightarrow> same_key e' e raw) \<and>
        (\<forall>rl. rl \<in> set released \<longleftrightarrow>
          (\<exists>raw \<in> set raws. \<exists>txn\<^sub>1. act e s (txn_new s cm) (from_raw raw) = Ok (Some rl, txn\<^sub>1)))
    | Err err \<Rightarrow> \<exists>raw \<in> set raws. act e s (txn_new s cm) (from_raw raw) = Err err
    | Panic \<Rightarrow> False"
proof -
  obtain out where out: "\<And>txn key. t_start_ts txn = s \<Longrightarrow> runs_as key (out key) txn (act e s txn key)"
    using local_outcome [of "act e s" s] act_local by metis
  let ?ks = "map from_raw raws :: Key list" and ?ms = "outcome_modifies \<circ> out"
  have run: "runs_as key (out key) (txn_new s cm) (act e s (txn_new s cm) key)" for key by (rule out) simp
  note keys = for_keys_outcome [of s out "act e s" "txn_new s cm" ?ks "[]", OF out txn_new_simps(1)]
  show ?thesis
  proof (cases "for_keys (act e s) ?ks [] (txn_new s cm)")
    case (Ok r)
    obtain released txn' where fk: "for_keys (act e s) ?ks [] (txn_new s cm) = Ok (released, txn')"
      using Ok by (cases r) auto
    have outs: "\<forall>raw \<in> set raws. \<exists>rl ms. out (from_raw raw) = Ok (rl, ms)"
      and app: "appends (concat (map ?ms ?ks)) (txn_new s cm) txn'"
      and rel: "\<forall>rl. rl \<in> set released \<longleftrightarrow> (\<exists>raw \<in> set raws. \<exists>ms. out (from_raw raw) = Ok (Some rl, ms))"
      using keys unfolding fk by auto
    have on: "list_all (modify_on k) (?ms k)" for k
      using run [of k] by (cases "out k" rule: outcome_modifies.cases) auto
    obtain e' where e': "write_modifies e (concat (map ?ms ?ks)) = (Ok e' :: engine mvcc_result)"
      "sorted_engine e'" "get_cf e' = fold put_entry (concat (map ?ms ?ks)) (get_cf e)"
      by (rule write_modifies_entries [OF wf_store_sorted [OF ok(3)], of "concat (map ?ms ?ks)"])
        (use on in \<open>auto simp: list_all_iff\<close>)
    have "distinct ?ks" using ok(2) by (simp add: distinct_map inj_on_def)
    from put_entries_batch [OF this, of ?ms "get_cf e"] on
    have entries: "get_cf e' cf x = (case List.find (\<lambda>k. entry_on k cf x) ?ks of
        None \<Rightarrow> get_cf e cf x | Some k \<Rightarrow> fold put_entry (?ms k) (get_cf e) cf x)" for cf x
      unfolding e'(3) by blast
    have on_key: "get_cf e' cf x = fold put_entry (?ms (from_raw raw)) (get_cf e) cf x"
      if "raw \<in> set raws" "entry_on (from_raw raw) cf x" for raw cf x
    proof -
      have "List.find (\<lambda>k. entry_on k cf x) ?ks = Some (from_raw raw)"
      proof (cases "List.find (\<lambda>k. entry_on k cf x) ?ks")
        case None
        with that show ?thesis by (auto simp: find_None_iff)
      next
        case (Some k)
        then show ?thesis using entry_on_unique [OF that(2)] by (auto simp: find_Some_iff)
      qed
      with entries show ?thesis by simp
    qed
    have off_key: "get_cf e' cf x = get_cf e cf x" if "\<And>raw. raw \<in> set raws \<Longrightarrow> \<not> entry_on (from_raw raw) cf x" for cf x
    proof -
      have "List.find (\<lambda>k. entry_on k cf x) ?ks = None" using that by (auto simp: find_None_iff)
      with entries show ?thesis by simp
    qed
    have single: "\<exists>rl txn\<^sub>1 e\<^sub>1. act e s (txn_new s cm) (from_raw raw) = Ok (rl, txn\<^sub>1) \<and>
        apply_txn e txn\<^sub>1 = Ok e\<^sub>1 \<and> wf_store e\<^sub>1 \<and> (\<forall>cf x. entry_on (from_raw raw) cf x \<longrightarrow> get_cf e' cf x = get_cf e\<^sub>1 cf x)"
      if raw: "raw \<in> set raws" for raw
    proof -
      obtain rl ms where o: "out (from_raw raw) = Ok (rl, ms)" using outs raw by blast
      show ?thesis
        by (rule alone [OF out _ _ o, where cm = cm]) (use ok(1) raw on_key [OF raw] o in auto)
    qed
    have "wf_store e'"
      unfolding wf_store_entries
    proof (intro conjI allI impI e'(2))
      fix cf k v
      assume "get_cf e' cf k = Some v"
      then show "wf_entry cf (k, v)"
        using off_key [of cf k] single wf_store_entry ok(3) by metis
    qed
    moreover have "same_key e' e raw" if "raw \<notin> set raws" for raw
      by (rule same_keyI, rule off_key) (use that entry_on_unique in fastforce)
    moreover have "apply_txn e txn' = Ok e'" using app e'(1) by (simp add: apply_txn_def into_modifies_def appends_def)
    moreover have "\<exists>rl txn\<^sub>1 e\<^sub>1. act e s (txn_new s cm) (from_raw raw) = Ok (rl, txn\<^sub>1) \<and>
          apply_txn e txn\<^sub>1 = Ok e\<^sub>1 \<and> wf_store e\<^sub>1 \<and> same_key e' e\<^sub>1 raw" if "raw \<in> set raws" for raw
      using single [OF that] same_keyI by blast
    moreover have "(\<exists>ms. out key = Ok (Some rl, ms)) \<longleftrightarrow> (\<exists>txn\<^sub>1. act e s (txn_new s cm) key = Ok (Some rl, txn\<^sub>1))" for key rl
      using run [of key] by (cases "out key" rule: outcome_modifies.cases) auto
    ultimately show ?thesis using rel unfolding fk by (simp only: result.case prod.case) blast
  next
    case (Err err)
    with keys obtain raw where raw: "raw \<in> set raws" "out (from_raw raw) = Err err" by auto
    then have "act e s (txn_new s cm) (from_raw raw) = Err err" using run [of "from_raw raw"] by simp
    with raw(1) Err show ?thesis by auto
  next
    case Panic
    with keys obtain raw where "raw \<in> set raws" "out (from_raw raw) = Panic" by auto
    with run [of "from_raw raw"] act_total [of e raw s cm] ok(1) show ?thesis by simp
  qed
qed

end

text \<open>What a commit alone does to a key, by its specification.\<close>

fun committed_as :: "commit_outcome \<Rightarrow> engine \<Rightarrow> bytes \<Rightarrow> TimeStamp \<Rightarrow> engine \<Rightarrow> bool" where
  "committed_as (CommitWrite w) e raw c e' \<longleftrightarrow> write_at e' (from_raw raw) = (write_at e (from_raw raw))(c \<mapsto> w) \<and>
     lock_at e' (from_raw raw) = None \<and> data_at e' (from_raw raw) = data_at e (from_raw raw)"
| "committed_as CommitUnlock e raw c e' \<longleftrightarrow> write_at e' (from_raw raw) = write_at e (from_raw raw) \<and>
     lock_at e' (from_raw raw) = None \<and> data_at e' (from_raw raw) = data_at e (from_raw raw)"
| "committed_as CommitDone e raw c e' \<longleftrightarrow> same_key e' e raw"
| "committed_as _ e raw c e' \<longleftrightarrow> False"

fun refused :: "commit_outcome \<Rightarrow> bool" where
  "refused CommitMissing \<longleftrightarrow> True"
| "refused (CommitEarly m) \<longleftrightarrow> True"
| "refused _ \<longleftrightarrow> False"

abbreviation key_commit :: "engine \<Rightarrow> TimeStamp \<Rightarrow> TimeStamp \<Rightarrow> bytes \<Rightarrow> commit_outcome" where
  "key_commit e s c raw \<equiv> commit_spec (lock_at e (from_raw raw)) (write_at e (from_raw raw)) s c"

lemma committed_as_same: "same_key e' e\<^sub>1 raw \<Longrightarrow> committed_as out e raw c e\<^sub>1 \<Longrightarrow> committed_as out e raw c e'"
  by (cases out) (auto simp: same_key_def)

lemma apply_txn_new [simp]: "apply_txn e (txn_new s cm) = Ok e"
  by (simp add: apply_txn_def into_modifies_def)

lemma commit_alone:
  assumes "key_ok e raw"
  shows "if refused (key_commit e s c raw)
    then \<exists>err. commit (txn_new s cm) (reader_at e s) (from_raw raw) c role = Err err
    else \<exists>rl txn' e'. commit (txn_new s cm) (reader_at e s) (from_raw raw) c role = Ok (rl, txn') \<and>
      apply_txn e txn' = Ok e' \<and> wf_store e' \<and> committed_as (key_commit e s c raw) e raw c e'"
proof (cases "key_commit e s c raw")
  case (CommitWrite w)
  with commit_by_spec [OF assms, where s = s and c = c and cm = cm and role = role] show ?thesis by fastforce
next
  case CommitUnlock
  with commit_by_spec [OF assms, where s = s and c = c and cm = cm and role = role] show ?thesis by fastforce
next
  case CommitDone
  with commit_by_spec [OF assms, where s = s and c = c and cm = cm and role = role] key_ok_wf [OF assms] show ?thesis by (simp add: same_key_def)
next
  case CommitMissing
  with commit_by_spec [OF assms, where s = s and c = c and cm = cm and role = role] show ?thesis by auto
next
  case (CommitEarly m)
  with commit_by_spec [OF assms, where s = s and c = c and cm = cm and role = role] show ?thesis by auto
qed

definition commit_act :: "TimeStamp \<Rightarrow> commit_role option \<Rightarrow> engine \<Rightarrow> TimeStamp \<Rightarrow> key_step" where
  "commit_act c role e s txn key = commit txn (reader_at e s) key c role"

interpretation cmt: key_action "commit_act c role" "\<lambda>_ _ _. True" for c role
proof unfold_locales
  show "key_local key (\<lambda>txn. commit_act c role e s txn key)" for key e s
    unfolding commit_act_def by (rule commit_local)
next
  fix e :: engine and raw :: bytes and s cm rl txn' e'
  assume "key_ok e raw" "commit_act c role e s (txn_new s cm) (from_raw raw) = Ok (rl, txn')" "apply_txn e txn' = Ok e'"
  then show "wf_store e'"
    using commit_alone [where e = e and raw = raw and s = s and c = c and cm = cm and role = role] by (auto simp: commit_act_def split: if_splits)
next
  fix e :: engine and raw :: bytes and s cm
  assume "key_ok e raw"
  then show "commit_act c role e s (txn_new s cm) (from_raw raw) \<noteq> Panic"
    using commit_alone [where e = e and raw = raw and s = s and c = c and cm = cm and role = role] by (auto simp: commit_act_def split: if_splits)
qed

subsection \<open>From the loop to the result\<close>

definition snap_at :: "engine \<Rightarrow> snapshot" where
  "snap_at e = \<lparr> s_engine = e, s_txn_ext = None \<rparr>"

lemma reader_snap [simp]: "snapshot_reader_new s (snap_at e) = reader_at e s"
  by (simp add: snap_at_def reader_at_def)

lemma finish_ok:
  assumes "apply_txn e txn = Ok e'"
  obtains wr :: write_result where "finish_command txn rows pr released known = Ok wr" "write_modifies e (wr_modifies wr) = (Ok e' :: engine mvcc_result)"
    "wr_released_locks wr = released" "wr_pr wr = pr" "wr_known_txn_status wr = known" "wr_rows wr = rows"
  using assms by (auto simp: finish_command_def apply_txn_def take_new_locks_def into_modifies_def split: if_splits)

lemma map_error_cases:
  "map_error f r = Ok x \<longleftrightarrow> r = Ok x" "map_error f r = Err y \<longleftrightarrow> (\<exists>z. r = Err z \<and> y = f z)" "map_error f r = Panic \<longleftrightarrow> r = Panic"
  by (cases r; auto)+

text \<open>A command that runs the action on its keys and returns the batch.\<close>

context key_action
begin

lemma command:
  assumes ok: "\<forall>raw \<in> set raws. key_ok e raw \<and> pre e s raw" "distinct raws" "wf_store e"
  shows "case rbind (of_mvcc (for_keys (act e s) (map from_raw raws) [] (txn_new s cm)))
        (\<lambda>(released, txn). finish_command txn rows pr released known) of
      Ok wr \<Rightarrow> wr_pr wr = pr \<and> wr_known_txn_status wr = known \<and>
        (\<exists>e'. write_modifies e (wr_modifies wr) = (Ok e' :: engine mvcc_result) \<and> wf_store e' \<and>
          (\<forall>raw \<in> set raws. \<exists>rl txn\<^sub>1 e\<^sub>1. act e s (txn_new s cm) (from_raw raw) = Ok (rl, txn\<^sub>1) \<and>
            apply_txn e txn\<^sub>1 = Ok e\<^sub>1 \<and> wf_store e\<^sub>1 \<and> same_key e' e\<^sub>1 raw) \<and>
          (\<forall>raw. raw \<notin> set raws \<longrightarrow> same_key e' e raw)) \<and>
        (\<forall>rl. rl \<in> set (wr_released_locks wr) \<longleftrightarrow>
          (\<exists>raw \<in> set raws. \<exists>txn\<^sub>1. act e s (txn_new s cm) (from_raw raw) = Ok (Some rl, txn\<^sub>1)))
    | Err err \<Rightarrow> \<exists>raw \<in> set raws. \<exists>m. err = CE_Mvcc m \<and> act e s (txn_new s cm) (from_raw raw) = Err m
    | Panic \<Rightarrow> False"
proof (cases "for_keys (act e s) (map from_raw raws) [] (txn_new s cm)")
  case (Ok r)
  obtain released txn' where r: "r = (released, txn')" by (cases r)
  obtain e' where e': "apply_txn e txn' = Ok e'" "wf_store e'"
    "\<forall>raw \<in> set raws. \<exists>rl txn\<^sub>1 e\<^sub>1. act e s (txn_new s cm) (from_raw raw) = Ok (rl, txn\<^sub>1) \<and>
        apply_txn e txn\<^sub>1 = Ok e\<^sub>1 \<and> wf_store e\<^sub>1 \<and> same_key e' e\<^sub>1 raw"
    "\<forall>raw. raw \<notin> set raws \<longrightarrow> same_key e' e raw"
    "\<forall>rl. rl \<in> set released \<longleftrightarrow>
      (\<exists>raw \<in> set raws. \<exists>txn\<^sub>1. act e s (txn_new s cm) (from_raw raw) = Ok (Some rl, txn\<^sub>1))"
    using batch [OF ok, of cm] unfolding Ok r by auto
  obtain wr :: write_result where wr: "finish_command txn' rows pr released known = Ok wr"
    "write_modifies e (wr_modifies wr) = (Ok e' :: engine mvcc_result)"
    "wr_released_locks wr = released" "wr_pr wr = pr" "wr_known_txn_status wr = known"
    by (rule finish_ok [OF e'(1)])
  have eq: "rbind (of_mvcc (for_keys (act e s) (map from_raw raws) [] (txn_new s cm)))
      (\<lambda>(released, txn). finish_command txn rows pr released known) = Ok wr" using Ok r wr(1) by simp
  show ?thesis unfolding eq result.case using e'(2-5) wr(2-5) by blast
next
  case (Err err)
  with batch [OF ok, of cm] show ?thesis by auto
next
  case Panic
  with batch [OF ok, of cm] show ?thesis by simp
qed

end

subsection \<open>Commit and rollback\<close>

lemma commit_keys_run:
  assumes ok: "\<forall>raw \<in> set raws. key_ok e raw" "distinct raws" "wf_store e"
    and cmd: "cmd = rbind (of_mvcc (for_keys (commit_act c role e s) (map from_raw raws) [] (txn_new s cm)))
      (\<lambda>(released, txn). finish_command txn rows pr released known)"
  shows "case cmd of
      Ok wr \<Rightarrow> wr_known_txn_status wr = known \<and>
        (\<exists>e'. write_modifies e (wr_modifies wr) = (Ok e' :: engine mvcc_result) \<and> wf_store e' \<and>
          (\<forall>raw \<in> set raws. committed_as (key_commit e s c raw) e raw c e') \<and>
          (\<forall>raw. raw \<notin> set raws \<longrightarrow> same_key e' e raw))
    | Err err \<Rightarrow> (\<exists>m. err = CE_Mvcc m) \<and> (\<exists>raw \<in> set raws. refused (key_commit e s c raw))
    | Panic \<Rightarrow> False"
proof -
  note run = cmt.command [where c = c and role = role and raws = raws and e = e and s = s and cm = cm and
      rows = rows and pr = pr and known = known, folded cmd, simplified, OF ok]
  note one = commit_alone [where e = e and s = s and c = c and cm = cm and role = role]
  have as: "committed_as (key_commit e s c raw) e raw c e'"
    if "raw \<in> set raws" "commit_act c role e s (txn_new s cm) (from_raw raw) = Ok (rl, txn\<^sub>1)"
      "apply_txn e txn\<^sub>1 = Ok e\<^sub>1" "same_key e' e\<^sub>1 raw" for raw rl txn\<^sub>1 e\<^sub>1 e'
    by (rule committed_as_same [OF that(4)]) (use one [of raw] ok(1) that in \<open>auto simp: commit_act_def split: if_splits\<close>)
  have no: "refused (key_commit e s c raw)"
    if "raw \<in> set raws" "commit_act c role e s (txn_new s cm) (from_raw raw) = Err m" for raw m
    using one [of raw] ok(1) that by (auto simp: commit_act_def split: if_splits)
  show ?thesis
  proof (cases cmd)
    case (Ok wr)
    from run obtain e' where "wr_known_txn_status wr = known"
      "write_modifies e (wr_modifies wr) = (Ok e' :: engine mvcc_result)" "wf_store e'"
      "\<forall>raw. raw \<notin> set raws \<longrightarrow> same_key e' e raw"
      "\<forall>raw \<in> set raws. \<exists>rl txn\<^sub>1 e\<^sub>1. commit_act c role e s (txn_new s cm) (from_raw raw) = Ok (rl, txn\<^sub>1) \<and>
        apply_txn e txn\<^sub>1 = Ok e\<^sub>1 \<and> wf_store e\<^sub>1 \<and> same_key e' e\<^sub>1 raw"
      unfolding Ok result.case by blast
    with as show ?thesis unfolding Ok result.case by blast
  next
    case (Err err)
    with run no show ?thesis by auto
  next
    case Panic
    with run show ?thesis by simp
  qed
qed

lemma commit_command_run:
  assumes "\<forall>raw \<in> set raws. key_ok e raw" "distinct raws" "wf_store e" "s < c"
  shows "case commit_command cm (snap_at e) (map from_raw raws) s c role of
      Ok wr \<Rightarrow> wr_known_txn_status wr = [(s, c)] \<and>
        (\<exists>e'. write_modifies e (wr_modifies wr) = (Ok e' :: engine mvcc_result) \<and> wf_store e' \<and>
          (\<forall>raw \<in> set raws. committed_as (key_commit e s c raw) e raw c e') \<and>
          (\<forall>raw. raw \<notin> set raws \<longrightarrow> same_key e' e raw))
    | Err err \<Rightarrow> (\<exists>m. err = CE_Mvcc m) \<and> (\<exists>raw \<in> set raws. refused (key_commit e s c raw))
    | Panic \<Rightarrow> False"
  by (rule commit_keys_run [OF assms(1-3), where role = role and cm = cm and rows = "length raws" and
        pr = "ProcTxnStatus (StatusCommitted c)"])
    (use leD [of c s] assms(4) in \<open>auto simp: commit_command_def commit_act_def [abs_def]\<close>)

section \<open>Properties of the commands\<close>

text \<open>
  C8: A commit command is atomic over its keys. It succeeds only when the commit timestamp follows the
  start timestamp and no key refuses, and then the one batch it returns gives every key the outcome
  of the commit's specification and leaves all other keys alone. Otherwise it returns no batch, and
  the error is due to the timestamps or to a key that lacks the lock or has a later lower bound for
  its commit timestamp. It never panics.
\<close>

theorem commit_command_atomic:
  assumes "\<forall>raw \<in> set raws. key_ok e raw" "distinct raws" "wf_store e"
  shows "case commit_command cm (snap_at e) (map from_raw raws) s c role of
      Ok wr \<Rightarrow> s < c \<and> (\<exists>e'. write_modifies e (wr_modifies wr) = (Ok e' :: engine mvcc_result) \<and> wf_store e' \<and>
        wr_known_txn_status wr = [(s, c)] \<and>
        (\<forall>raw \<in> set raws. committed_as (key_commit e s c raw) e raw c e') \<and>
        (\<forall>raw. raw \<notin> set raws \<longrightarrow> same_key e' e raw))
    | Err (InvalidTxnTso s' c') \<Rightarrow> c \<le> s \<and> s' = s \<and> c' = c
    | Err (CE_Mvcc err) \<Rightarrow> s < c \<and> (\<exists>raw \<in> set raws. refused (key_commit e s c raw))
    | Panic \<Rightarrow> False"
proof (cases "s < c")
  case True
  from commit_command_run [OF assms True, of cm role] True show ?thesis by (auto split: result.splits cmd_error.splits)
next
  case False
  then show ?thesis by (simp add: commit_command_def not_less)
qed

text \<open>Two keys prewritten by transaction 5.\<close>

definition pair_store :: engine where
  "pair_store = store_of [PutLock (from_raw [1]) demo_lock, PutLock (from_raw [2]) demo_lock]"

lemma pair_view:
  "wf_store pair_store" "write_at pair_store = (\<lambda>_ _. None)" "data_at pair_store = (\<lambda>_ _. None)"
  "lock_at pair_store (from_raw [1]) = Some demo_lock" "lock_at pair_store (from_raw [2]) = Some demo_lock"
proof -
  have wf: "list_all wf_op [PutLock (from_raw [1]) demo_lock, PutLock (from_raw [2]) demo_lock]"
    using demo_wf by auto
  show "wf_store pair_store" "write_at pair_store = (\<lambda>_ _. None)" "data_at pair_store = (\<lambda>_ _. None)"
    "lock_at pair_store (from_raw [1]) = Some demo_lock" "lock_at pair_store (from_raw [2]) = Some demo_lock"
    unfolding pair_store_def using store_of_view [OF wf] by simp_all
qed

lemma pair_ok: "\<forall>raw \<in> set [[1], [2]]. key_ok pair_store raw"
  by (simp add: key_ok_def pair_view key_inv_def one_record_def committed_at_def)

lemma pair_commit: "raw \<in> set [[1], [2]] \<Longrightarrow>
    key_commit pair_store 5 8 raw = CommitWrite (write_new WT_Put 5 (Some [7]))"
  by (auto simp: commit_spec_def pair_view demo_lock_def lock_new_def committed_write_def write_new_def)

theorem commit_command_atomic_witness:
  "\<exists>wr e'. commit_command demo_cm (snap_at pair_store) [from_raw [1], from_raw [2]] 5 8 None = Ok wr \<and>
     write_modifies pair_store (wr_modifies wr) = (Ok e' :: engine mvcc_result) \<and>
     write_at e' (from_raw [1]) 8 = Some (write_new WT_Put 5 (Some [7])) \<and>
     write_at e' (from_raw [2]) 8 = Some (write_new WT_Put 5 (Some [7]))"
proof -
  have "\<not> refused (key_commit pair_store 5 8 raw)" if "raw \<in> set [[1], [2]]" for raw
    by (simp only: pair_commit [OF that] refused.simps) simp
  then show ?thesis
    using commit_command_atomic [OF pair_ok _ pair_view(1), where cm = demo_cm and s = 5 and c = 8 and role = None] pair_commit [of "[1]"] pair_commit [of "[2]"]
    by (auto split: result.splits cmd_error.splits)
qed

definition cleanup_act :: "engine \<Rightarrow> TimeStamp \<Rightarrow> key_step" where
  "cleanup_act e s txn key = cleanup txn (reader_at e s) key ts_zero False"

abbreviation key_room :: "engine \<Rightarrow> TimeStamp \<Rightarrow> bytes \<Rightarrow> bool" where
  "key_room e s raw \<equiv> rollback_room (lock_at e (from_raw raw))"

lemma cleanup_alone:
  assumes "key_ok e raw" "key_room e s raw"
  shows "(\<exists>c. committed_at (write_at e (from_raw raw)) s c \<and>
      cleanup_act e s (txn_new s cm) (from_raw raw) = Err (Committed s c raw)) \<or>
    (\<exists>rl txn' e'. cleanup_act e s (txn_new s cm) (from_raw raw) = Ok (rl, txn') \<and>
      apply_txn e txn' = Ok e' \<and> cleanup_store cm ts_zero False e s raw e')"
proof (cases "\<exists>c. committed_at (write_at e (from_raw raw)) s c")
  case True
  then show ?thesis using cleanup_committed [OF assms(1), of s] by (auto simp: cleanup_act_def)
next
  case False
  then obtain rl txn' e' where "cleanup (txn_new s cm) (reader_at e s) (from_raw raw) ts_zero False = Ok (rl, txn')"
    "apply_txn e txn' = Ok e'"
    using cleanup_rolls_back [OF assms, where s = s and current_ts = ts_zero and cm = cm and protect = False]
    by (auto simp: is_zero_def ts_zero_def)
  with assms(2) show ?thesis unfolding cleanup_act_def cleanup_store_def by blast
qed

interpretation rbk: key_action cleanup_act key_room
proof unfold_locales
  show "key_local key (\<lambda>txn. cleanup_act e s txn key)" for key e s
    unfolding cleanup_act_def by (rule cleanup_local)
next
  fix e :: engine and raw :: bytes and s cm rl txn' e'
  assume "key_ok e raw" "key_room e s raw" "cleanup_act e s (txn_new s cm) (from_raw raw) = Ok (rl, txn')" "apply_txn e txn' = Ok e'"
  then have "key_ok e raw" "cleanup_store cm ts_zero False e s raw e'"
    by (auto simp: cleanup_act_def cleanup_store_def)
  then have "rollback_store e s raw e'" by (rule cl.act_store)
  then show "wf_store e'" by (simp add: rollback_store_def)
next
  fix e :: engine and raw :: bytes and s cm
  assume "key_ok e raw" "key_room e s raw"
  then show "cleanup_act e s (txn_new s cm) (from_raw raw) \<noteq> Panic" using cleanup_alone [of e raw s cm] by auto
qed

lemma reads_same_key: "same_key e' e raw \<Longrightarrow> reads e' raw ts v \<longleftrightarrow> reads e raw ts v"
  unfolding same_key_def reads_def by metis

text \<open>After a rollback of one of its keys a commit command cannot succeed.\<close>

lemma refused_command:
  assumes keys: "\<forall>raw \<in> set keys. key_ok e raw" "distinct keys" "wf_store e"
    and raw: "raw \<in> set keys" "refused (key_commit e s c raw)"
  shows "commit_command cm (snap_at e) (map from_raw keys) s c role \<noteq> Ok wr"
proof
  assume cc: "commit_command cm (snap_at e) (map from_raw keys) s c role = Ok wr"
  then have "s < c" by (auto simp: commit_command_def split: if_splits)
  from commit_command_run [OF keys this, of cm role] raw(1)
  obtain e' where "committed_as (key_commit e s c raw) e raw c e'" unfolding cc by auto
  with raw(2) show False by (cases "key_commit e s c raw") auto
qed

lemma rolled_back_refused:
  assumes "key_ok e raw" "cleanup_store cm current_ts protect e s raw e\<^sub>1" "same_key e' e\<^sub>1 raw"
  shows "refused (key_commit e' s c raw)"
proof -
  have "refused (key_commit e\<^sub>1 s c raw)"
    using commit_alone [OF cl.act_key_ok [OF assms(1,2)], where s = s and c = c and cm = cm and role = None]
      cl.act_commit_fails [OF assms(1,2), of "txn_new s cm" c None] by (auto split: if_splits)
  then show ?thesis using assms(3) by (simp add: same_key_def)
qed

lemma rollback_command_run:
  assumes "\<forall>raw \<in> set raws. key_ok e raw \<and> key_room e s raw" "distinct raws" "wf_store e"
  shows "case rollback_command cm (snap_at e) (map from_raw raws) s of
      Ok wr \<Rightarrow> \<exists>e'. write_modifies e (wr_modifies wr) = (Ok e' :: engine mvcc_result) \<and> wf_store e' \<and>
        (\<forall>raw \<in> set raws. \<exists>e\<^sub>1. cleanup_store cm ts_zero False e s raw e\<^sub>1 \<and> same_key e' e\<^sub>1 raw) \<and>
        (\<forall>raw. raw \<notin> set raws \<longrightarrow> same_key e' e raw)
    | Err err \<Rightarrow> \<exists>raw \<in> set raws. \<exists>c. committed_at (write_at e (from_raw raw)) s c \<and> err = CE_Mvcc (Committed s c raw)
    | Panic \<Rightarrow> False"
proof -
  have cmd: "rollback_command cm (snap_at e) (map from_raw raws) s =
      rbind (of_mvcc (for_keys (cleanup_act e s) (map from_raw raws) [] (txn_new s cm)))
        (\<lambda>(released, txn). finish_command txn (length raws) ProcRes released [])"
    by (simp add: rollback_command_def cleanup_act_def [abs_def])
  note run = rbk.command [OF assms, where s = s and cm = cm and rows = "length raws" and pr = ProcRes and known = "[]",
      folded cmd]
  show ?thesis
  proof (cases "rollback_command cm (snap_at e) (map from_raw raws) s")
    case (Ok wr)
    from run obtain e' where e': "write_modifies e (wr_modifies wr) = (Ok e' :: engine mvcc_result)" "wf_store e'"
      "\<forall>raw. raw \<notin> set raws \<longrightarrow> same_key e' e raw"
      "\<forall>raw \<in> set raws. \<exists>rl txn\<^sub>1 e\<^sub>1. cleanup_act e s (txn_new s cm) (from_raw raw) = Ok (rl, txn\<^sub>1) \<and>
        apply_txn e txn\<^sub>1 = Ok e\<^sub>1 \<and> wf_store e\<^sub>1 \<and> same_key e' e\<^sub>1 raw"
      unfolding Ok result.case by blast
    have "\<exists>e\<^sub>1. cleanup_store cm ts_zero False e s raw e\<^sub>1 \<and> same_key e' e\<^sub>1 raw" if "raw \<in> set raws" for raw
      using e'(4) assms(1) that unfolding cleanup_store_def cleanup_act_def by blast
    with e' show ?thesis unfolding Ok result.case by blast
  next
    case (Err err)
    then obtain raw m where raw: "raw \<in> set raws" "err = CE_Mvcc m" "cleanup_act e s (txn_new s cm) (from_raw raw) = Err m"
      using run by auto
    then have "\<exists>c. committed_at (write_at e (from_raw raw)) s c \<and> m = Committed s c raw"
      using cleanup_alone [of e raw s cm] assms(1) by auto
    with raw Err show ?thesis by auto
  next
    case Panic
    with run show ?thesis by simp
  qed
qed


lemma pair_room: "\<forall>raw \<in> set [[1], [2]]. key_ok pair_store raw \<and> key_room pair_store 5 raw"
  using pair_ok by (simp add: pair_view rollback_room_def demo_lock_def lock_new_def ISIZE_MAX_def)


subsection \<open>Pessimistic rollback and heartbeat\<close>

definition stale_pessimistic :: "TimeStamp \<Rightarrow> TimeStamp \<Rightarrow> lock \<Rightarrow> bool" where
  "stale_pessimistic s fu l \<longleftrightarrow> is_pessimistic_lock l \<and> l_ts l = s \<and> l_for_update_ts l \<le> fu"

definition unlocked_pessimistic :: "TimeStamp \<Rightarrow> TimeStamp \<Rightarrow> lock option \<Rightarrow> lock option" where
  "unlocked_pessimistic s fu lo = (case lo of Some l \<Rightarrow> if stale_pessimistic s fu l then None else Some l | None \<Rightarrow> None)"

definition pessimistic_act :: "TimeStamp \<Rightarrow> engine \<Rightarrow> TimeStamp \<Rightarrow> key_step" where
  "pessimistic_act fu e s = pessimistic_rollback_key (reader_at e s) s fu"

lemma pessimistic_alone:
  assumes "key_ok e raw"
  shows "\<exists>rl txn' e'. pessimistic_act fu e s (txn_new s cm) (from_raw raw) = Ok (rl, txn') \<and>
    apply_txn e txn' = Ok e' \<and> wf_store e' \<and> write_at e' = write_at e \<and> data_at e' = data_at e \<and>
    lock_at e' = (lock_at e)(from_raw raw := unlocked_pessimistic s fu (lock_at e (from_raw raw)))"
proof (cases "\<exists>l. lock_at e (from_raw raw) = Some l \<and> stale_pessimistic s fu l")
  case True
  then obtain l where l: "lock_at e (from_raw raw) = Some l" "stale_pessimistic s fu l" by blast
  obtain txn' where u: "unlock_key (from_raw raw) True ts_zero (txn_new s cm) =
      (Some \<lparr> rl_start_ts = t_start_ts (txn_new s cm), rl_commit_ts = ts_zero, rl_key = from_raw raw,
              rl_pessimistic = True \<rparr>, txn')"
    "txn_adds (txn_new s cm) [DelLock (from_raw raw)] txn'" by (rule unlock_key_obtain)
  obtain e' where "apply_txn e txn' = Ok e'" "wf_store e'"
    "write_at e' = ops_write [DelLock (from_raw raw)] (write_at e)"
    "lock_at e' = ops_lock [DelLock (from_raw raw)] (lock_at e)"
    "data_at e' = ops_data [DelLock (from_raw raw)] (data_at e)"
    by (rule apply_txn_ok [OF key_ok_wf [OF assms] _ u(2)]) auto
  with u l show ?thesis using sr_load_lock_ok [OF key_ok_clean [OF assms, of s]]
    by (auto simp: pessimistic_act_def pessimistic_rollback_key_def stale_pessimistic_def unlocked_pessimistic_def)
next
  case False
  then have "pessimistic_act fu e s (txn_new s cm) (from_raw raw) = Ok (None, txn_new s cm)"
    using sr_load_lock_ok [OF key_ok_clean [OF assms, of s]]
    by (auto simp: pessimistic_act_def pessimistic_rollback_key_def stale_pessimistic_def split: option.split)
  moreover have "unlocked_pessimistic s fu (lock_at e (from_raw raw)) = lock_at e (from_raw raw)"
    using False by (auto simp: unlocked_pessimistic_def split: option.split)
  ultimately show ?thesis using key_ok_wf [OF assms] by simp
qed

interpretation pes: key_action "pessimistic_act fu" "\<lambda>_ _ _. True" for fu
proof unfold_locales
  show "key_local key (\<lambda>txn. pessimistic_act fu e s txn key)" for key e s
    unfolding pessimistic_act_def by (rule pessimistic_rollback_local)
next
  fix e :: engine and raw :: bytes and s cm rl txn' e'
  assume "key_ok e raw" "pessimistic_act fu e s (txn_new s cm) (from_raw raw) = Ok (rl, txn')" "apply_txn e txn' = Ok e'"
  then show "wf_store e'" using pessimistic_alone [of e raw fu s cm] by auto
next
  fix e :: engine and raw :: bytes and s cm
  assume "key_ok e raw"
  then show "pessimistic_act fu e s (txn_new s cm) (from_raw raw) \<noteq> Panic" using pessimistic_alone [of e raw fu s cm] by auto
qed

text \<open>
  C19: The rollback of pessimistic locks never fails. It removes, on the keys it names, exactly the
  pessimistic locks of its transaction whose for-update timestamp is not above the request's; a
  prewritten lock, a lock of another transaction and a lock taken by a later statement stay, and
  so do all records, values and other keys.
\<close>

theorem pessimistic_rollback_exact:
  assumes "\<forall>raw \<in> set raws. key_ok e raw" "distinct raws" "wf_store e"
  shows "\<exists>wr e'. pessimistic_rollback_command cm (snap_at e) (map from_raw raws) s fu scan_key = Ok wr \<and>
    write_modifies e (wr_modifies wr) = (Ok e' :: engine mvcc_result) \<and> wf_store e' \<and>
    (\<forall>raw. write_at e' (from_raw raw) = write_at e (from_raw raw) \<and> data_at e' (from_raw raw) = data_at e (from_raw raw) \<and>
      lock_at e' (from_raw raw) =
        (if raw \<in> set raws then unlocked_pessimistic s fu (lock_at e (from_raw raw)) else lock_at e (from_raw raw)))"
proof -
  let ?pr = "if scan_key = None then ProcMultiRes else NextCommand (PessimisticRollbackReadPhase s fu scan_key)"
  have cmd: "pessimistic_rollback_command cm (snap_at e) (map from_raw raws) s fu scan_key =
      rbind (of_mvcc (for_keys (pessimistic_act fu e s) (map from_raw raws) [] (txn_new s cm)))
        (\<lambda>(released, txn). finish_command txn (length raws) ?pr released [])"
    by (simp add: pessimistic_rollback_command_def pessimistic_act_def)
  note run = pes.command [where fu = fu and e = e and raws = raws and s = s and cm = cm and rows = "length raws" and
      pr = ?pr and known = "[]", folded cmd, simplified, OF assms]
  have ok: "\<exists>rl txn' e'. pessimistic_act fu e s (txn_new s cm) (from_raw raw) = Ok (rl, txn') \<and>
    apply_txn e txn' = Ok e' \<and> wf_store e' \<and> write_at e' = write_at e \<and> data_at e' = data_at e \<and>
    lock_at e' = (lock_at e)(from_raw raw := unlocked_pessimistic s fu (lock_at e (from_raw raw)))" if "raw \<in> set raws" for raw
    using pessimistic_alone [of e raw] assms(1) that by blast
  obtain wr where wr: "pessimistic_rollback_command cm (snap_at e) (map from_raw raws) s fu scan_key = Ok wr"
    using run ok by (cases "pessimistic_rollback_command cm (snap_at e) (map from_raw raws) s fu scan_key") force+
  from run obtain e' where e': "write_modifies e (wr_modifies wr) = (Ok e' :: engine mvcc_result)" "wf_store e'"
    and other: "\<And>raw. raw \<notin> set raws \<Longrightarrow> same_key e' e raw"
    and each: "\<And>raw. raw \<in> set raws \<Longrightarrow> \<exists>rl txn\<^sub>1 e\<^sub>1. pessimistic_act fu e s (txn_new s cm) (from_raw raw) = Ok (rl, txn\<^sub>1) \<and>
      apply_txn e txn\<^sub>1 = Ok e\<^sub>1 \<and> wf_store e\<^sub>1 \<and> same_key e' e\<^sub>1 raw"
    unfolding wr result.case by blast
  have "write_at e' (from_raw raw) = write_at e (from_raw raw) \<and> data_at e' (from_raw raw) = data_at e (from_raw raw) \<and>
      lock_at e' (from_raw raw) =
        (if raw \<in> set raws then unlocked_pessimistic s fu (lock_at e (from_raw raw)) else lock_at e (from_raw raw))" for raw
    using each [of raw] ok [of raw] other [of raw] by (cases "raw \<in> set raws") (auto simp: same_key_def)
  with wr e' show ?thesis by blast
qed

text \<open>A pessimistic lock of transaction 5 beside a prewritten one.\<close>

definition waiting_lock :: lock where
  "waiting_lock = lock_new LT_Pessimistic [1] 5 10 None 6 1 7 False"

definition mixed_store :: engine where
  "mixed_store = store_of [PutLock (from_raw [1]) waiting_lock, PutLock (from_raw [2]) demo_lock]"

lemma mixed_view:
  "wf_store mixed_store" "write_at mixed_store = (\<lambda>_ _. None)"
  "lock_at mixed_store (from_raw [1]) = Some waiting_lock" "lock_at mixed_store (from_raw [2]) = Some demo_lock"
proof -
  have wf: "list_all wf_op [PutLock (from_raw [1]) waiting_lock, PutLock (from_raw [2]) demo_lock]"
    using demo_wf by (auto simp: waiting_lock_def lock_new_def wf_lock_def wf_last_change_def ISIZE_MAX_def)
  show "wf_store mixed_store" "write_at mixed_store = (\<lambda>_ _. None)"
    "lock_at mixed_store (from_raw [1]) = Some waiting_lock" "lock_at mixed_store (from_raw [2]) = Some demo_lock"
    unfolding mixed_store_def using store_of_view [OF wf] by simp_all
qed

lemma mixed_ok: "\<forall>raw \<in> set [[1], [2]]. key_ok mixed_store raw"
  by (simp add: key_ok_def mixed_view key_inv_def one_record_def committed_at_def)

theorem pessimistic_rollback_exact_witness:
  "\<exists>wr e'. pessimistic_rollback_command demo_cm (snap_at mixed_store) [from_raw [1], from_raw [2]] 5 6 None = Ok wr \<and>
     write_modifies mixed_store (wr_modifies wr) = (Ok e' :: engine mvcc_result) \<and>
     lock_at e' (from_raw [1]) = None \<and> lock_at e' (from_raw [2]) = Some demo_lock"
proof -
  have "unlocked_pessimistic 5 6 (Some waiting_lock) = None" "unlocked_pessimistic 5 6 (Some demo_lock) = Some demo_lock"
    by (simp_all add: unlocked_pessimistic_def stale_pessimistic_def is_pessimistic_lock_def waiting_lock_def demo_lock_def lock_new_def)
  then show ?thesis
    using pessimistic_rollback_exact [OF mixed_ok _ mixed_view(1), where cm = demo_cm and s = 5 and fu = 6 and scan_key = None]
    by (fastforce simp: mixed_view)
qed

lemma heart_beat_lock_eq:
  "heart_beat_lock l ttl mc = (updated, l') \<Longrightarrow>
   l' = l\<lparr>l_ttl := max (l_ttl l) ttl,
          l_min_commit_ts := (if \<not> l_use_async_commit l \<and> l_generation l > 0 then max (l_min_commit_ts l) mc else l_min_commit_ts l)\<rparr> \<and>
   (\<not> updated \<longrightarrow> l' = l)"
  by (auto simp: heart_beat_lock_def Let_def max_def not_less split: if_splits)

text \<open>
  C20: A heartbeat keeps its transaction's primary lock alive. When the key is locked by the
  transaction, the stored lock gets the larger of its time to live and the advised one; only a
  pipelined transaction without async commit also gets the larger lower bound of its commit
  timestamp. Nothing else of the lock and nothing else in the store changes, and the returned
  status shows the stored lock. Otherwise the transaction is reported missing. It never panics.
\<close>

theorem heart_beat_extends:
  assumes "key_ok e raw"
  shows "case txn_heart_beat_command cm (snap_at e) (from_raw raw) s ttl mc of
      Ok wr \<Rightarrow> \<exists>l l' e'. lock_at e (from_raw raw) = Some l \<and> l_ts l = s \<and>
        l' = l\<lparr>l_ttl := max (l_ttl l) ttl,
          l_min_commit_ts := (if \<not> l_use_async_commit l \<and> l_generation l > 0 then max (l_min_commit_ts l) mc else l_min_commit_ts l)\<rparr> \<and>
        wr_pr wr = ProcTxnStatus (Uncommitted l' False) \<and>
        write_modifies e (wr_modifies wr) = (Ok e' :: engine mvcc_result) \<and> wf_store e' \<and>
        lock_at e' = (lock_at e)(from_raw raw \<mapsto> l') \<and> write_at e' = write_at e \<and> data_at e' = data_at e
    | Err err \<Rightarrow> err = CE_Mvcc (TxnNotFound s raw) \<and> (\<forall>l. lock_at e (from_raw raw) = Some l \<longrightarrow> l_ts l \<noteq> s)
    | Panic \<Rightarrow> False"
proof (cases "\<exists>l. lock_at e (from_raw raw) = Some l \<and> l_ts l = s")
  case True
  then obtain l where l: "lock_at e (from_raw raw) = Some l" "l_ts l = s" by blast
  obtain updated l' where hb: "heart_beat_lock l ttl mc = (updated, l')" by (cases "heart_beat_lock l ttl mc")
  note eq = heart_beat_lock_eq [OF hb]
  have "wf_lock l'" using key_ok_lock [OF assms l(1)] eq by (cases "l_use_async_commit l") (simp_all add: wf_lock_def)
  obtain txn' ops where txn': "(if updated then put_lock (from_raw raw) l' False (txn_new s cm) else Ok (txn_new s cm)) = Ok txn'"
    "txn_adds (txn_new s cm) ops txn'" "ops = (if updated then [PutLock (from_raw raw) l'] else [])"
    using put_lock_adds [of "from_raw raw" raw l' False "txn_new s cm"] by (cases updated) auto
  have wf: "list_all wf_op ops" using \<open>wf_lock l'\<close> txn'(3) by auto
  obtain e' where e': "apply_txn e txn' = Ok e'" "wf_store e'" "write_at e' = ops_write ops (write_at e)"
    "lock_at e' = ops_lock ops (lock_at e)" "data_at e' = ops_data ops (data_at e)"
    by (rule apply_txn_ok [OF key_ok_wf [OF assms] wf txn'(2)])
  obtain wr :: write_result where wr: "finish_command txn' 1 (ProcTxnStatus (Uncommitted l' False)) [] [] = Ok wr"
    "write_modifies e (wr_modifies wr) = (Ok e' :: engine mvcc_result)" "wr_pr wr = ProcTxnStatus (Uncommitted l' False)"
    by (rule finish_ok [OF e'(1)])
  have cmd: "txn_heart_beat_command cm (snap_at e) (from_raw raw) s ttl mc = Ok wr"
    using sr_load_lock_ok [OF key_ok_clean [OF assms, of s]] l hb txn'(1) wr(1)
    by (simp add: txn_heart_beat_command_def)
  have "lock_at e' = (lock_at e)(from_raw raw \<mapsto> l')" "write_at e' = write_at e" "data_at e' = data_at e"
    using e'(3-5) txn'(3) eq l(1) by (auto split: if_splits)
  with l eq e'(2) wr(2,3) show ?thesis unfolding cmd result.case by blast
next
  case False
  then have "txn_heart_beat_command cm (snap_at e) (from_raw raw) s ttl mc = Err (CE_Mvcc (TxnNotFound s raw))"
    using sr_load_lock_ok [OF key_ok_clean [OF assms, of s]]
    by (cases "lock_at e (from_raw raw)") (simp_all add: txn_heart_beat_command_def Let_def)
  with False show ?thesis by simp
qed

theorem heart_beat_extends_witness:
  "\<exists>wr e'. txn_heart_beat_command demo_cm (snap_at demo_store) (from_raw [1]) 5 20 9 = Ok wr \<and>
     write_modifies demo_store (wr_modifies wr) = (Ok e' :: engine mvcc_result) \<and>
     lock_at e' (from_raw [1]) = Some (demo_lock\<lparr>l_ttl := 20\<rparr>)"
proof -
  have "l_ts demo_lock = 5" "l_ttl demo_lock = 10" "l_generation demo_lock = 0" "l_min_commit_ts demo_lock = 6"
    by (simp_all add: demo_lock_def lock_new_def)
  then show ?thesis
    using heart_beat_extends [OF demo_ok, where cm = demo_cm and s = 5 and ttl = 20 and mc = 9]
    by (auto simp: demo_view split: result.splits)
qed

section \<open>Checking secondary locks\<close>

text \<open>The protected rollback that the check writes when a transaction has no record on a key.\<close>

lemma protected_rollback_ok:
  assumes ok: "key_ok e raw" and W: "W = write_at e (from_raw raw)" and rec: "commit_record_ok W s (TCR_None ov)"
  obtains txn' ops W' where "rbind (make_rollback s True ov) (\<lambda>w.
      case w of
        Some w \<Rightarrow> collapse_prev_rollback (put_write (from_raw raw) s (write_to_bytes w) txn) (reader_at e s) (from_raw raw)
      | None \<Rightarrow> Ok txn) = Ok txn'"
    "txn_adds txn ops txn'" "rollback_ops (from_raw raw) s W W' ops" "\<And>L. ops_lock ops L = L" "rollback_recorded W' s"
proof -
  let ?key = "from_raw raw"
  obtain wo pw W\<^sub>1 where pw: "make_rollback s True ov = Ok wo"
    "\<And>txn. txn_adds txn pw (put_write_opt ?key s wo txn)" "\<And>L. ops_lock pw L = L"
    "\<And>co. collapsible W s co \<Longrightarrow>
       rollback_ops ?key s W (fold (\<lambda>c W. W(c := None)) co W\<^sub>1) (pw @ map (DelWrite ?key) co)"
    "\<And>co. collapsible W s co \<Longrightarrow> rollback_recorded (fold (\<lambda>c W. W(c := None)) co W\<^sub>1) s"
    by (rule rollback_record [OF key_ok_wf [OF ok] W rec key_ok_inv [OF ok, folded W], of True]) (rule that; simp)
  obtain w where w: "wo = Some w" using pw(1) by (auto simp: make_rollback_def split: option.splits if_splits)
  obtain co txn' where co: "collapse_prev_rollback (put_write_opt ?key s wo txn) (reader_at e s) ?key = Ok txn'"
    "txn_adds (put_write_opt ?key s wo txn) (map (DelWrite ?key) co) txn'" "collapsible W s co"
    using collapse_prev_rollback_ok [OF key_ok_clean [OF ok, of s], of "put_write_opt ?key s wo txn"]
      commit_record_TCR_None [OF rec] W by (auto simp: collapsible_def)
  show thesis
  proof (rule that [OF _ txn_adds_trans [OF pw(2) co(2)] pw(4) [OF co(3)] _ pw(5) [OF co(3)]])
    show "rbind (make_rollback s True ov) (\<lambda>w. case w of
        Some w \<Rightarrow> collapse_prev_rollback (put_write ?key s (write_to_bytes w) txn) (reader_at e s) ?key
      | None \<Rightarrow> Ok txn) = Ok txn'" using pw(1) co(1) w by (simp add: put_write_opt_def)
    show "ops_lock (pw @ map (DelWrite ?key) co) L = L" for L using pw(3) by simp
  qed
qed

text \<open>
  A pessimistic lock without conflict is only held by a transaction that was not rolled back on the
  key; the check panics otherwise.
\<close>

definition live_pessimistic :: "engine \<Rightarrow> TimeStamp \<Rightarrow> bytes \<Rightarrow> bool" where
  "live_pessimistic e s raw \<longleftrightarrow> (\<forall>l. lock_at e (from_raw raw) = Some l \<longrightarrow> l_ts l = s \<longrightarrow> is_pessimistic_lock l \<longrightarrow>
     \<not> is_pessimistic_lock_with_conflict l \<longrightarrow> \<not> rollback_recorded (write_at e (from_raw raw)) s)"

definition secondary_store :: "concurrency_manager \<Rightarrow> engine \<Rightarrow> TimeStamp \<Rightarrow> bytes \<Rightarrow> engine \<Rightarrow> bool" where
  "secondary_store cm e s raw e' \<longleftrightarrow> key_room e s raw \<and> live_pessimistic e s raw \<and>
     (\<exists>rl txn'. check_secondary_key (reader_at e s) s (txn_new s cm) (from_raw raw) = Ok ((SecRolledBack, rl), txn') \<and>
       apply_txn e txn' = Ok e')"

lemma determined_secondary:
  assumes "key_ok e raw" "W = write_at e (from_raw raw)"
  obtains (committed) c where "committed_at W s c"
      "check_determined_secondary (reader_at e s) (from_raw raw) = Ok (SecCommitted c, False, None)"
    | (rolled) "rollback_recorded W s" "\<And>c. \<not> committed_at W s c"
      "check_determined_secondary (reader_at e s) (from_raw raw) = Ok (SecRolledBack, False, None)"
    | (missing) ov where "commit_record_ok W s (TCR_None ov)" "\<And>c. \<not> committed_at W s c"
      "sr_get_txn_commit_record (reader_at e s) (from_raw raw) = Ok (TCR_None ov)"
      "check_determined_secondary (reader_at e s) (from_raw raw) = Ok (SecRolledBack, True, ov)"
proof -
  obtain rec where rec: "sr_get_txn_commit_record (reader_at e s) (from_raw raw) = Ok rec" "commit_record_ok W s rec"
    using sr_commit_record_ok [OF key_ok_clean [OF assms(1), of s]] assms(2) by auto
  show thesis
  proof (cases "\<exists>c. committed_at W s c")
    case True
    then obtain c where c: "committed_at W s c" by blast
    then have "\<not> no_record W s" by (auto simp: committed_at_def no_record_def)
    then obtain c' w where r: "rec = SingleRecord c' w" "W c' = Some w" "w_start_ts w = s"
      using rec(2) by (cases rec) (auto dest: commit_record_TCR_None)
    then have "c' = c" "w_type w \<noteq> WT_Rollback"
      using c key_inv_one_record [OF key_ok_inv [OF assms(1)]] assms(2) unfolding committed_at_def one_record_def by (metis option.inject)+
    with r c rec(1) show thesis by (intro committed [OF c]) (simp add: check_determined_secondary_def)
  next
    case False
    then have no: "\<And>c. \<not> committed_at W s c" by blast
    from rec(2) key_ok_inv [OF assms(1), folded assms(2)] no show thesis
    proof (cases rule: commit_record_not_committed [consumes 3, case_names none rollback overlapped])
      case (none ov)
      with rec no show thesis by (intro missing [of ov]) (simp_all add: check_determined_secondary_def)
    next
      case (rollback w)
      with rec no show thesis by (intro rolled) (simp_all add: check_determined_secondary_def)
    next
      case overlapped
      with rec no show thesis by (intro rolled) (simp_all add: check_determined_secondary_def)
    qed
  qed
qed

lemma rollback_store_refl:
  assumes "key_ok e raw" "\<forall>l. lock_at e (from_raw raw) = Some l \<longrightarrow> l_ts l \<noteq> s"
  shows "rollback_store e s raw e"
  using assms key_ok_wf by (auto simp: rollback_store_def intro!: exI [of _ "write_at e (from_raw raw)"])

lemma rollback_ops_unlock_first:
  "rollback_ops key s W W' ops \<Longrightarrow> rollback_ops key s W W' (DelLock key # ops)"
  by (auto simp: rollback_ops_def)

text \<open>A secondary key that the transaction does not lock, and has neither committed nor rolled back.\<close>

lemma secondary_missing:
  assumes ok: "key_ok e raw" and room: "key_room e s raw" and W: "W = write_at e (from_raw raw)"
    and free: "\<forall>l. lock_at e (from_raw raw) = Some l \<longrightarrow> l_ts l \<noteq> s"
    and rec: "commit_record_ok W s (TCR_None ov)"
    and det: "check_determined_secondary (reader_at e s) (from_raw raw) = Ok (SecRolledBack, True, ov)"
  shows "\<exists>txn' e'. check_secondary_key (reader_at e s) s (txn_new s cm) (from_raw raw) = Ok ((SecRolledBack, None), txn') \<and>
    apply_txn e txn' = Ok e' \<and> rollback_store e s raw e' \<and> rollback_recorded (write_at e' (from_raw raw)) s"
proof -
  let ?key = "from_raw raw" and ?mismatch = "lock_at e (from_raw raw)"
  have mismatch: "\<forall>l. ?mismatch = Some l \<longrightarrow> wf_lock l \<and> rollback_room (Some l) \<and> l_ts l \<noteq> s"
    using key_ok_lock [OF ok] free room by (cases ?mismatch) auto
  obtain ml txn\<^sub>1 where ml: "(case (?mismatch, None :: overlapped_write option) of
        (Some l, None) \<Rightarrow> mark_rollback_on_mismatching_lock ?key l (ProtectedRollback = ProtectedRollback) (txn_new s cm)
      | _ \<Rightarrow> Ok (txn_new s cm)) = Ok txn\<^sub>1" "txn_adds (txn_new s cm) ml txn\<^sub>1"
    "ml = [] \<or> (\<exists>l. ml = [PutLock ?key l] \<and> wf_op (PutLock ?key l))"
    "\<And>L. L ?key = ?mismatch \<Longrightarrow> ops_lock ml L =
      (if (None :: overlapped_write option) = None then L(?key := map_option (remember_rollback ProtectedRollback s) ?mismatch) else L)"
    by (rule mismatch_mark_ok [OF txn_new_simps(1) mismatch]) (rule that)
  obtain txn' ops W' where rb: "rbind (make_rollback s True ov) (\<lambda>w. case w of
        Some w \<Rightarrow> collapse_prev_rollback (put_write ?key s (write_to_bytes w) txn\<^sub>1) (reader_at e s) ?key
      | None \<Rightarrow> Ok txn\<^sub>1) = Ok txn'"
    "txn_adds txn\<^sub>1 ops txn'" "rollback_ops ?key s W W' ops" "\<And>L. ops_lock ops L = L" "rollback_recorded W' s"
    by (rule protected_rollback_ok [OF ok W rec]) (rule that)
  have check: "check_secondary_key (reader_at e s) s (txn_new s cm) ?key = Ok ((SecRolledBack, None), txn')"
    using sr_load_lock_ok [OF key_ok_clean [OF ok, of s]] free det ml(1) rb(1)
    by (cases ?mismatch) (simp_all add: check_secondary_key_def)
  have ops: "rollback_ops ?key s (write_at e ?key) W' (ml @ ops)"
    using rollback_ops_insert_lock [of ?key s W W' "[]" ops ml] rb(3) ml(3) W by simp
  let ?lo = "map_option (remember_rollback ProtectedRollback s) ?mismatch"
  obtain e' where "apply_txn e txn' = Ok e'" "rollback_store e s raw e'" "write_at e' ?key = W'"
  proof (rule rollback_ops_store [OF key_ok_wf [OF ok] ops txn_adds_trans [OF ml(2) rb(2)]])
    show "ops_lock (ml @ ops) (lock_at e) = (lock_at e)(?key := ?lo)" using ml(4) [of "lock_at e"] rb(4) by simp
    show "\<forall>l. ?lo = Some l \<longrightarrow> l_ts l \<noteq> s \<and>
       (\<exists>l\<^sub>0. lock_at e ?key = Some l\<^sub>0 \<and> (l = l\<^sub>0 \<or> l = l\<^sub>0\<lparr>l_rollback_ts := l_rollback_ts l\<^sub>0 @ [s]\<rparr>))"
      using free by (auto simp: remember_rollback_def)
  qed
  with check rb(5) show ?thesis by blast
qed

text \<open>A secondary key that the transaction locks pessimistically.\<close>

lemma secondary_pessimistic:
  assumes ok: "key_ok e raw" and live: "live_pessimistic e s raw"
    and l: "lock_at e (from_raw raw) = Some l" "l_ts l = s" "is_pessimistic_lock l"
  shows "\<exists>rl txn' e'. check_secondary_key (reader_at e s) s (txn_new s cm) (from_raw raw) = Ok ((SecRolledBack, rl), txn') \<and>
    apply_txn e txn' = Ok e' \<and> rollback_store e s raw e' \<and> rollback_recorded (write_at e' (from_raw raw)) s"
proof -
  let ?key = "from_raw raw" and ?W = "write_at e (from_raw raw)"
  obtain txn\<^sub>1 where u: "unlock_key ?key True ts_zero (txn_new s cm) =
      (Some \<lparr> rl_start_ts = t_start_ts (txn_new s cm), rl_commit_ts = ts_zero, rl_key = ?key, rl_pessimistic = True \<rparr>, txn\<^sub>1)"
    "txn_adds (txn_new s cm) [DelLock ?key] txn\<^sub>1" by (rule unlock_key_obtain)
  have load: "sr_load_lock (reader_at e s) ?key = Ok (Some l)" using sr_load_lock_ok [OF key_ok_clean [OF ok, of s]] l(1) by simp
  have store: "\<exists>e'. apply_txn e txn' = Ok e' \<and> rollback_store e s raw e' \<and> rollback_recorded (write_at e' ?key) s"
    if ops: "txn_adds txn\<^sub>1 ops txn'" "rollback_ops ?key s ?W W' ops" "\<And>L. ops_lock ops L = L" "rollback_recorded W' s"
    for ops txn' W'
  proof -
    have adds: "txn_adds (txn_new s cm) (DelLock ?key # ops) txn'" using txn_adds_trans [OF u(2) ops(1)] by simp
    have "ops_lock (DelLock ?key # ops) (lock_at e) = (lock_at e)(?key := None)" using ops(3) by simp
    from rollback_ops_store [OF key_ok_wf [OF ok] rollback_ops_unlock_first [OF ops(2)] adds this] ops(4)
    show ?thesis by blast
  qed
  show ?thesis
  proof (rule determined_secondary [OF ok refl, of s], goal_cases)
    case (1 c)
    then show ?case using ok l by (auto simp: key_ok_def)
  next
    case 2
    then have "is_pessimistic_lock_with_conflict l" using live l by (auto simp: live_pessimistic_def)
    with 2 load l u(1) have "check_secondary_key (reader_at e s) s (txn_new s cm) ?key = Ok ((SecRolledBack, fst (unlock_key ?key True ts_zero (txn_new s cm))), txn\<^sub>1)"
      by (simp add: check_secondary_key_def check_status_from_lock_def)
    with store [OF txn_adds_refl rollback_ops_refl] 2(1) show ?case by auto
  next
    case (3 ov)
    obtain txn' ops W' where rb: "rbind (make_rollback s True ov) (\<lambda>w. case w of
          Some w \<Rightarrow> collapse_prev_rollback (put_write ?key s (write_to_bytes w) txn\<^sub>1) (reader_at e s) ?key
        | None \<Rightarrow> Ok txn\<^sub>1) = Ok txn'"
      "txn_adds txn\<^sub>1 ops txn'" "rollback_ops ?key s ?W W' ops" "\<And>L. ops_lock ops L = L" "rollback_recorded W' s"
      by (rule protected_rollback_ok [OF ok refl 3(1)]) (rule that)
    have "check_secondary_key (reader_at e s) s (txn_new s cm) ?key = Ok ((SecRolledBack, fst (unlock_key ?key True ts_zero (txn_new s cm))), txn')"
      using 3 load l u(1) rb(1) by (cases "is_pessimistic_lock_with_conflict l") (simp_all add: check_secondary_key_def check_status_from_lock_def)
    with store [OF rb(2-5)] show ?case by auto
  qed
qed

lemma secondary_alone:
  assumes ok: "key_ok e raw" "key_room e s raw" "live_pessimistic e s raw"
  obtains (locked) l where "lock_at e (from_raw raw) = Some l" "l_ts l = s" "\<not> is_pessimistic_lock l"
      "check_secondary_key (reader_at e s) s (txn_new s cm) (from_raw raw) = Ok ((SecLocked l, None), txn_new s cm)"
    | (committed) c where "committed_at (write_at e (from_raw raw)) s c"
      "check_secondary_key (reader_at e s) s (txn_new s cm) (from_raw raw) = Ok ((SecCommitted c, None), txn_new s cm)"
    | (rolled) rl txn' e' where
      "check_secondary_key (reader_at e s) s (txn_new s cm) (from_raw raw) = Ok ((SecRolledBack, rl), txn')"
      "apply_txn e txn' = Ok e'" "rollback_store e s raw e'" "rollback_recorded (write_at e' (from_raw raw)) s"
      "\<forall>c. \<not> committed_at (write_at e (from_raw raw)) s c"
proof (cases "\<exists>l. lock_at e (from_raw raw) = Some l \<and> l_ts l = s")
  case True
  then obtain l where l: "lock_at e (from_raw raw) = Some l" "l_ts l = s" by blast
  have "\<forall>c. \<not> committed_at (write_at e (from_raw raw)) s c" using ok(1) l by (auto simp: key_ok_def)
  with l secondary_pessimistic [OF ok(1,3) l, of cm] sr_load_lock_ok [OF key_ok_clean [OF ok(1), of s]] show thesis
    by (cases "is_pessimistic_lock l")
      (auto intro: rolled locked [OF l] simp: check_secondary_key_def check_status_from_lock_def is_pessimistic_lock_with_conflict_def)
next
  case False
  then have free: "\<forall>l. lock_at e (from_raw raw) = Some l \<longrightarrow> l_ts l \<noteq> s" by blast
  note load = sr_load_lock_ok [OF key_ok_clean [OF ok(1), of s]]
  show thesis
  proof (rule determined_secondary [OF ok(1) refl, of s], goal_cases)
    case (1 c)
    with free load show ?case
      by (intro committed [OF 1(1)]) (cases "lock_at e (from_raw raw)", simp_all add: check_secondary_key_def)
  next
    case 2
    with free load have "check_secondary_key (reader_at e s) s (txn_new s cm) (from_raw raw) = Ok ((SecRolledBack, None), txn_new s cm)"
      by (cases "lock_at e (from_raw raw)") (simp_all add: check_secondary_key_def)
    with 2 rollback_store_refl [OF ok(1) free] show ?case by (intro rolled) auto
  next
    case (3 ov)
    with secondary_missing [OF ok(1,2) refl free 3(1,4), of cm] show ?case by (auto intro: rolled)
  qed
qed

lemma secondary_store_ok:
  assumes "key_ok e raw" "secondary_store cm e s raw e'"
  shows "rollback_store e s raw e' \<and> rollback_recorded (write_at e' (from_raw raw)) s \<and>
    (\<forall>c. \<not> committed_at (write_at e (from_raw raw)) s c)"
proof -
  obtain rl txn' where r: "key_room e s raw" "live_pessimistic e s raw" "apply_txn e txn' = Ok e'"
    "check_secondary_key (reader_at e s) s (txn_new s cm) (from_raw raw) = Ok ((SecRolledBack, rl), txn')"
    using assms(2) unfolding secondary_store_def by blast
  from assms(1) r(1,2) show ?thesis
    by (cases rule: secondary_alone [where cm = cm, consumes 3, case_names locked committed rolled]) (use r(3,4) in auto)
qed

interpretation sec: rollback_action "secondary_store cm" for cm
  by unfold_locales (use secondary_store_ok in blast)+

text \<open>The keys before the one that decides are all locked and leave the buffer as it was.\<close>

fun secondary_spec ::
    "concurrency_manager \<Rightarrow> engine \<Rightarrow> TimeStamp \<Rightarrow> bytes list \<Rightarrow> lock_info list \<Rightarrow> mvcc_txn \<Rightarrow> secondary_locks_status \<Rightarrow> bool" where
  "secondary_spec cm e s raws infos txn (SL_Locked infos') \<longleftrightarrow> txn = txn_new s cm \<and>
     infos' = infos @ map (\<lambda>raw. into_lock_info (the (lock_at e (from_raw raw))) raw) raws \<and>
     (\<forall>raw \<in> set raws. \<exists>l. lock_at e (from_raw raw) = Some l \<and> l_ts l = s \<and> \<not> is_pessimistic_lock l)"
| "secondary_spec cm e s raws infos txn (SL_Committed c) \<longleftrightarrow> txn = txn_new s cm \<and>
     (\<exists>raw \<in> set raws. committed_at (write_at e (from_raw raw)) s c)"
| "secondary_spec cm e s raws infos txn SL_RolledBack \<longleftrightarrow>
     (\<exists>raw \<in> set raws. \<exists>e'. apply_txn e txn = Ok e' \<and> secondary_store cm e s raw e')"

lemma secondary_spec_Cons:
  assumes "lock_at e (from_raw raw) = Some l" "l_ts l = s" "\<not> is_pessimistic_lock l"
    and "secondary_spec cm e s raws (infos @ [into_lock_info l raw]) txn status"
  shows "secondary_spec cm e s (raw # raws) infos txn status"
  using assms by (cases status) auto

lemma secondary_loop:
  assumes "\<forall>raw \<in> set raws. key_ok e raw \<and> key_room e s raw \<and> live_pessimistic e s raw"
  shows "\<exists>result released txn'. check_secondary_loop (reader_at e s) s (map from_raw raws) infos released\<^sub>0 (txn_new s cm) =
      Ok (result, released, txn') \<and> secondary_spec cm e s raws infos txn' result"
  using assms
proof (induction raws arbitrary: infos released\<^sub>0)
  case (Cons raw raws)
  then have ok: "key_ok e raw" "key_room e s raw" "live_pessimistic e s raw" by auto
  then show ?case
  proof (cases rule: secondary_alone [where cm = cm, consumes 3, case_names locked committed rolled])
    case (locked l)
    from Cons.IH [of "infos @ [into_lock_info l raw]" released\<^sub>0] Cons.prems
    obtain result released txn' where "check_secondary_loop (reader_at e s) s (map from_raw raws)
        (infos @ [into_lock_info l raw]) released\<^sub>0 (txn_new s cm) = Ok (result, released, txn')"
      "secondary_spec cm e s raws (infos @ [into_lock_info l raw]) txn' result" by auto
    with locked(4) secondary_spec_Cons [OF locked(1-3)] show ?thesis by simp
  next
    case (committed c)
    then show ?thesis by auto
  next
    case (rolled rl txn' e')
    with ok show ?thesis by (auto simp: secondary_store_def)
  qed
qed simp


lemma mixed_live: "\<forall>raw \<in> set [[2], [1]]. key_ok mixed_store raw \<and> key_room mixed_store 5 raw \<and> live_pessimistic mixed_store 5 raw"
  using mixed_ok
  by (simp add: mixed_view rollback_room_def demo_lock_def waiting_lock_def lock_new_def ISIZE_MAX_def live_pessimistic_def
      rollback_recorded_def)


subsection \<open>Resolving locks\<close>

lemma resolve_lite_cases:
  "resolve_lock_lite_command cm (snap_at e) s c keys =
     (if c = 0 then rollback_command cm (snap_at e) keys s
      else rbind (of_mvcc (for_keys (commit_act c None e s) keys [] (txn_new s cm)))
        (\<lambda>(released, txn). finish_command txn (length keys) ProcRes released [(s, c)]))"
  by (simp add: resolve_lock_lite_command_def rollback_command_def resolve_lite_key_def [abs_def] commit_act_def [abs_def]
      is_zero_def ts_zero_def)

lemma committed_as_unlocked:
  assumes "committed_as (key_commit e s c raw) e raw c e'" "lock_at e' (from_raw raw) = Some l"
  shows "l_ts l \<noteq> s"
proof (cases "key_commit e s c raw")
  case CommitDone
  with assms have "lock_at e (from_raw raw) = Some l" by (simp add: same_key_def)
  with CommitDone show ?thesis by (auto simp: commit_spec_def split: if_splits option.splits)
qed (use assms in auto)

text \<open>
  C18: Resolving the locks of a transaction settles all the keys named, in one batch. With a commit
  timestamp every key gets the outcome of a commit, with timestamp zero every key is rolled back, and
  in both cases the transaction holds no lock on any of the keys afterwards and all other keys are
  unchanged. It fails only when one of the keys refuses the commit, or has been committed when the
  transaction is to be rolled back. It never panics.
\<close>

theorem resolve_lite_settles:
  assumes "\<forall>raw \<in> set raws. key_ok e raw \<and> key_room e s raw" "distinct raws" "wf_store e"
  shows "case resolve_lock_lite_command cm (snap_at e) s c (map from_raw raws) of
      Ok wr \<Rightarrow> \<exists>e'. write_modifies e (wr_modifies wr) = (Ok e' :: engine mvcc_result) \<and> wf_store e' \<and>
        (\<forall>raw \<in> set raws. \<forall>l. lock_at e' (from_raw raw) = Some l \<longrightarrow> l_ts l \<noteq> s) \<and>
        (\<forall>raw \<in> set raws. if c = 0 then \<exists>e\<^sub>1. rollback_store e s raw e\<^sub>1 \<and> same_key e' e\<^sub>1 raw
          else committed_as (key_commit e s c raw) e raw c e') \<and>
        (\<forall>raw. raw \<notin> set raws \<longrightarrow> same_key e' e raw)
    | Err err \<Rightarrow> \<exists>raw \<in> set raws. if c = 0 then \<exists>c'. committed_at (write_at e (from_raw raw)) s c' \<and> err = CE_Mvcc (Committed s c' raw)
        else refused (key_commit e s c raw)
    | Panic \<Rightarrow> False"
proof (cases "c = 0")
  case True
  have rolled: "rollback_store e s raw e\<^sub>1" if "raw \<in> set raws" "cleanup_store cm ts_zero False e s raw e\<^sub>1" for raw e\<^sub>1
    using cl.act_store [OF _ that(2)] assms(1) that(1) by blast
  have free: "l_ts l \<noteq> s" if "rollback_store e s raw e\<^sub>1" "same_key e' e\<^sub>1 raw" "lock_at e' (from_raw raw) = Some l" for raw e\<^sub>1 e' l
    using that by (auto simp: rollback_store_def same_key_def)
  have cmd: "resolve_lock_lite_command cm (snap_at e) s c (map from_raw raws) = rollback_command cm (snap_at e) (map from_raw raws) s"
    using True by (simp add: resolve_lite_cases)
  show ?thesis
  proof (cases "rollback_command cm (snap_at e) (map from_raw raws) s")
    case (Ok wr)
    from rollback_command_run [OF assms, where s = s and cm = cm]
    obtain e' where e': "write_modifies e (wr_modifies wr) = (Ok e' :: engine mvcc_result)" "wf_store e'"
      "\<forall>raw \<in> set raws. \<exists>e\<^sub>1. cleanup_store cm ts_zero False e s raw e\<^sub>1 \<and> same_key e' e\<^sub>1 raw"
      "\<forall>raw. raw \<notin> set raws \<longrightarrow> same_key e' e raw" unfolding Ok result.case by blast
    have each: "\<forall>raw \<in> set raws. \<exists>e\<^sub>1. rollback_store e s raw e\<^sub>1 \<and> same_key e' e\<^sub>1 raw" using e'(3) rolled by blast
    with free have "\<forall>raw \<in> set raws. \<forall>l. lock_at e' (from_raw raw) = Some l \<longrightarrow> l_ts l \<noteq> s" by blast
    with each e' show ?thesis unfolding cmd Ok result.case by (intro exI [of _ e']) (simp add: True)
  qed (use rollback_command_run [OF assms, where s = s and cm = cm] True cmd in simp_all)
next
  case False
  have keys: "\<forall>raw \<in> set raws. key_ok e raw" using assms(1) by blast
  have "resolve_lock_lite_command cm (snap_at e) s c (map from_raw raws) =
      rbind (of_mvcc (for_keys (commit_act c None e s) (map from_raw raws) [] (txn_new s cm)))
        (\<lambda>(released, txn). finish_command txn (length raws) ProcRes released [(s, c)])"
    using False by (simp add: resolve_lite_cases)
  note run = commit_keys_run [OF keys assms(2,3) this]
  show ?thesis
  proof (cases "resolve_lock_lite_command cm (snap_at e) s c (map from_raw raws)")
    case (Ok wr)
    from run obtain e' where e': "write_modifies e (wr_modifies wr) = (Ok e' :: engine mvcc_result)" "wf_store e'"
      "\<forall>raw \<in> set raws. committed_as (key_commit e s c raw) e raw c e'"
      "\<forall>raw. raw \<notin> set raws \<longrightarrow> same_key e' e raw" unfolding Ok result.case by blast
    then have "\<forall>raw \<in> set raws. \<forall>l. lock_at e' (from_raw raw) = Some l \<longrightarrow> l_ts l \<noteq> s"
      using committed_as_unlocked by blast
    with e' show ?thesis unfolding Ok result.case by (intro exI [of _ e']) (simp add: False)
  qed (use run False in simp_all)
qed

theorem resolve_lite_settles_witness:
  "\<exists>wr e'. resolve_lock_lite_command demo_cm (snap_at pair_store) 5 0 [from_raw [1], from_raw [2]] = Ok wr \<and>
     write_modifies pair_store (wr_modifies wr) = (Ok e' :: engine mvcc_result) \<and>
     (\<forall>l. lock_at e' (from_raw [1]) = Some l \<longrightarrow> l_ts l \<noteq> 5) \<and> (\<forall>l. lock_at e' (from_raw [2]) = Some l \<longrightarrow> l_ts l \<noteq> 5)"
proof -
  have "\<not> committed_at (write_at pair_store (from_raw raw)) 5 c" for raw c
    by (simp add: pair_view committed_at_def)
  then show ?thesis
    using resolve_lite_settles [OF pair_room _ pair_view(1), where s = 5 and cm = demo_cm and c = 0]
    by (auto split: result.splits)
qed

end
