(* ===== verification/Latch.thy ===== *)
theory Latch
  imports Prelude
begin

text \<open>
  The latches of the scheduler (\<open>src/storage/txn/latch.rs\<close>): a slot holds one queue for all keys
  hashed to it, with holes where an entry was removed from the middle. The queue of one hash is the
  view of the slot that its users rely on; that contract is a locale, interpreted on the single
  latch and on the array of latches.
\<close>

section \<open>One latch\<close>

record latch =
  la_waiting :: "(u64 \<times> u64) option list"

definition latch_new :: latch where
  "latch_new = \<lparr> la_waiting = [] \<rparr>"

fun first_req :: "u64 \<Rightarrow> (u64 \<times> u64) option list \<Rightarrow> u64 option" where
  "first_req hash [] = None"
| "first_req hash (None # w) = first_req hash w"
| "first_req hash (Some (h, cid) # w) = (if h = hash then Some cid else first_req hash w)"

definition get_first_req_by_hash :: "u64 \<Rightarrow> latch \<Rightarrow> u64 option" where
  "get_first_req_by_hash hash latch = first_req hash (la_waiting latch)"

fun skip_holes :: "'a option list \<Rightarrow> 'a option list" where
  "skip_holes (None # w) = skip_holes w"
| "skip_holes w = w"

text \<open>The capacity of the queue is the allocator's business.\<close>

definition maybe_shrink :: "latch \<Rightarrow> latch" where
  "maybe_shrink latch = latch\<lparr>la_waiting := skip_holes (la_waiting latch)\<rparr>"

fun take_first :: "u64 \<Rightarrow> (u64 \<times> u64) option list \<Rightarrow> (u64 \<times> u64) option \<times> (u64 \<times> u64) option list" where
  "take_first key_hash [] = (None, [])"
| "take_first key_hash (None # w) = (let (r, w') = take_first key_hash w in (r, None # w'))"
| "take_first key_hash (Some (v, cid) # w) =
     (if v = key_hash then (Some (v, cid), None # w)
      else let (r, w') = take_first key_hash w in (r, Some (v, cid) # w'))"

definition latch_pop_front :: "u64 \<Rightarrow> latch \<Rightarrow> (u64 \<times> u64) option \<times> latch" where
  "latch_pop_front key_hash latch =
     (case la_waiting latch of
        [] \<Rightarrow> (None, latch)
      | Some (k, cid) # w \<Rightarrow>
          if k = key_hash then (Some (k, cid), maybe_shrink (latch\<lparr>la_waiting := w\<rparr>))
          else let (r, w') = take_first key_hash (Some (k, cid) # w) in (r, latch\<lparr>la_waiting := w'\<rparr>)
      | None # w \<Rightarrow> let (r, w') = take_first key_hash w in (r, latch\<lparr>la_waiting := w'\<rparr>))"

definition wait_for_wake :: "u64 \<Rightarrow> u64 \<Rightarrow> latch \<Rightarrow> latch" where
  "wait_for_wake key_hash cid latch = latch\<lparr>la_waiting := la_waiting latch @ [Some (key_hash, cid)]\<rparr>"

definition push_preemptive :: "u64 \<Rightarrow> u64 \<Rightarrow> latch \<Rightarrow> latch" where
  "push_preemptive key_hash cid latch = latch\<lparr>la_waiting := Some (key_hash, cid) # la_waiting latch\<rparr>"

section \<open>The latches a command needs\<close>

text \<open>The hash of a key is the standard library's; any function will do.\<close>

record latch_lock =
  required_hashes :: "u64 list"
  owned_count :: nat

definition latch_lock_new :: "('k \<Rightarrow> u64) \<Rightarrow> 'k list \<Rightarrow> latch_lock" where
  "latch_lock_new hash keys = \<lparr> required_hashes = remdups_adj (sort (map hash keys)), owned_count = 0 \<rparr>"

definition acquired :: "latch_lock \<Rightarrow> bool" where
  "acquired l \<longleftrightarrow> length (required_hashes l) = owned_count l"

definition force_assume_acquired :: "latch_lock \<Rightarrow> latch_lock" where
  "force_assume_acquired l = l\<lparr>owned_count := length (required_hashes l)\<rparr>"

definition is_write_lock :: "latch_lock \<Rightarrow> bool" where
  "is_write_lock l \<longleftrightarrow> required_hashes l \<noteq> []"

section \<open>All latches\<close>

record latches =
  slots :: "latch list"
  latches_size :: nat

function next_power_loop :: "nat \<Rightarrow> nat \<Rightarrow> nat" where
  "next_power_loop k n = (if k = 0 \<or> n \<le> k then k else next_power_loop (2 * k) n)"
  by auto
termination by (relation "measure (\<lambda>(k, n). n - k)") auto

declare next_power_loop.simps [simp del]

text \<open>The smallest power of two that is large enough; zero when it does not fit a machine word.\<close>

definition next_power_of_two :: "nat \<Rightarrow> nat" where
  "next_power_of_two n = next_power_loop 1 n mod 2 ^ 64"

definition latches_new :: "nat \<Rightarrow> latches" where
  "latches_new n =
     (let n = next_power_of_two n in \<lparr> slots = replicate n latch_new, latches_size = n \<rparr>)"

definition slot_of :: "latches \<Rightarrow> u64 \<Rightarrow> nat" where
  "slot_of ls hash = unat (hash AND (of_nat (latches_size ls) - 1))"

definition lock_latch :: "latches \<Rightarrow> u64 \<Rightarrow> ('e, latch) result" where
  "lock_latch ls hash = (if slot_of ls hash < length (slots ls) then Ok (slots ls ! slot_of ls hash) else Panic)"

definition put_latch :: "latches \<Rightarrow> u64 \<Rightarrow> latch \<Rightarrow> latches" where
  "put_latch ls hash latch = ls\<lparr>slots := (slots ls)[slot_of ls hash := latch]\<rparr>"

text \<open>One turn of the loop in \<open>acquire\<close>: the latch is granted, or the command waits in its queue.\<close>

definition acquire_one :: "latches \<Rightarrow> u64 \<Rightarrow> u64 \<Rightarrow> ('e, bool \<times> latches) result" where
  "acquire_one ls key_hash who =
     rbind (lock_latch ls key_hash) (\<lambda>latch.
       case get_first_req_by_hash key_hash latch of
         Some cid \<Rightarrow>
           if cid = who then Ok (True, ls)
           else Ok (False, put_latch ls key_hash (wait_for_wake key_hash who latch))
       | None \<Rightarrow> Ok (True, put_latch ls key_hash (wait_for_wake key_hash who latch)))"

fun acquire_loop :: "latches \<Rightarrow> u64 list \<Rightarrow> u64 \<Rightarrow> ('e, nat \<times> latches) result" where
  "acquire_loop ls [] who = Ok (0, ls)"
| "acquire_loop ls (h # hs) who =
     rbind (acquire_one ls h who) (\<lambda>(granted, ls).
       if granted then rbind (acquire_loop ls hs who) (\<lambda>(n, ls). Ok (Suc n, ls)) else Ok (0, ls))"

definition acquire :: "latches \<Rightarrow> latch_lock \<Rightarrow> u64 \<Rightarrow> ('e, bool \<times> latch_lock \<times> latches) result" where
  "acquire ls l who =
     (if owned_count l > length (required_hashes l) then Panic
      else rbind (acquire_loop ls (drop (owned_count l) (required_hashes l)) who) (\<lambda>(n, ls).
        let l = l\<lparr>owned_count := owned_count l + n\<rparr> in Ok (acquired l, l, ls)))"

text \<open>
  One turn of the loop in \<open>release\<close>: the latch is popped and handed to the next command, to which a
  preemptive entry gives it if it is kept. The iterator over the kept hashes is the list still ahead.
\<close>

definition release_one ::
    "latches \<Rightarrow> u64 \<Rightarrow> u64 \<Rightarrow> u64 option \<Rightarrow> u64 list \<Rightarrow> ('e, u64 option \<times> u64 list \<times> latches) result" where
  "release_one ls key_hash who keep_cid keep_it =
     rbind (lock_latch ls key_hash) (\<lambda>latch.
       case latch_pop_front key_hash latch of
         (None, _) \<Rightarrow> Panic
       | (Some (v, front), latch) \<Rightarrow>
           if front \<noteq> who \<or> v \<noteq> key_hash then Panic
           else case keep_it of
             next_keep # rest \<Rightarrow>
               if \<not> next_keep \<ge> key_hash then Panic
               else if next_keep = key_hash
               then case keep_cid of
                   None \<Rightarrow> Panic
                 | Some cid \<Rightarrow> Ok (None, rest, put_latch ls key_hash (push_preemptive key_hash cid latch))
               else Ok (get_first_req_by_hash key_hash latch, keep_it, put_latch ls key_hash latch)
           | [] \<Rightarrow> Ok (get_first_req_by_hash key_hash latch, [], put_latch ls key_hash latch))"

fun release_loop ::
    "latches \<Rightarrow> u64 list \<Rightarrow> u64 \<Rightarrow> u64 option \<Rightarrow> u64 list \<Rightarrow> ('e, u64 list \<times> u64 list \<times> latches) result" where
  "release_loop ls [] who keep_cid keep_it = Ok ([], keep_it, ls)"
| "release_loop ls (h # hs) who keep_cid keep_it =
     rbind (release_one ls h who keep_cid keep_it) (\<lambda>(wakeup, keep_it, ls).
     rbind (release_loop ls hs who keep_cid keep_it) (\<lambda>(wakeups, keep_it, ls).
       Ok (case wakeup of Some w \<Rightarrow> w # wakeups | None \<Rightarrow> wakeups, keep_it, ls)))"

definition release ::
    "latches \<Rightarrow> latch_lock \<Rightarrow> u64 \<Rightarrow> (u64 \<times> latch_lock) option \<Rightarrow> ('e, u64 list \<times> latches) result" where
  "release ls l who keep =
     (let (keep_cid, keep_it) =
        (case keep of Some (cid, l) \<Rightarrow> (Some cid, required_hashes l) | None \<Rightarrow> (None, [])) in
      if owned_count l > length (required_hashes l) then Panic
      else rbind (release_loop ls (take (owned_count l) (required_hashes l)) who keep_cid keep_it)
        (\<lambda>(wakeups, keep_it, ls). if keep_it \<noteq> [] then Panic else Ok (wakeups, ls)))"

section \<open>The contract: one queue per hash\<close>

text \<open>
  A structure of queues keyed by hashes, as \<open>acquire\<close> and \<open>release\<close> use it: the first request of a
  hash, a request added at either end, the first request removed.
\<close>

locale keyed_queues =
  fixes view :: "'q \<Rightarrow> u64 \<Rightarrow> u64 list"
    and invar :: "'q \<Rightarrow> bool"
    and first :: "u64 \<Rightarrow> 'q \<Rightarrow> u64 option"
    and push_back :: "u64 \<Rightarrow> u64 \<Rightarrow> 'q \<Rightarrow> 'q"
    and push_front :: "u64 \<Rightarrow> u64 \<Rightarrow> 'q \<Rightarrow> 'q"
    and pop :: "u64 \<Rightarrow> 'q \<Rightarrow> (u64 \<times> u64) option \<times> 'q"
  assumes first_view: "invar q \<Longrightarrow> first h q = (case view q h of [] \<Rightarrow> None | c # _ \<Rightarrow> Some c)"
    and push_back_view: "invar q \<Longrightarrow> invar (push_back h c q) \<and> view (push_back h c q) = (view q)(h := view q h @ [c])"
    and push_front_view: "invar q \<Longrightarrow> invar (push_front h c q) \<and> view (push_front h c q) = (view q)(h := c # view q h)"
    and pop_view: "invar q \<Longrightarrow> pop h q = (r, q') \<Longrightarrow> invar q' \<and> view q' = (view q)(h := tl (view q h)) \<and>
      r = (case view q h of [] \<Rightarrow> None | c # _ \<Rightarrow> Some (h, c))"
begin

text \<open>Requests are served in the order they were queued, and a preemptive one before all others.\<close>

lemma first_push_back:
  "invar q \<Longrightarrow> first h (push_back h c q) = (case first h q of None \<Rightarrow> Some c | Some c' \<Rightarrow> Some c')"
  using push_back_view [of q h c] by (simp add: first_view split: list.split)

lemma first_push_front: "invar q \<Longrightarrow> first h (push_front h c q) = Some c"
  using push_front_view [of q h c] by (simp add: first_view)

lemma pop_first:
  "invar q \<Longrightarrow> pop h q = (r, q') \<Longrightarrow> r = map_option (Pair h) (first h q)"
  using pop_view [of q h r q'] by (simp add: first_view split: list.split)

end

subsection \<open>The single latch\<close>

fun requests :: "u64 \<Rightarrow> (u64 \<times> u64) option list \<Rightarrow> u64 list" where
  "requests hash [] = []"
| "requests hash (None # w) = requests hash w"
| "requests hash (Some (h, cid) # w) = (if h = hash then cid # requests hash w else requests hash w)"

definition latch_view :: "latch \<Rightarrow> u64 \<Rightarrow> u64 list" where
  "latch_view latch hash = requests hash (la_waiting latch)"

lemma requests_append [simp]: "requests h (v @ w) = requests h v @ requests h w"
  by (induction h v rule: requests.induct) auto

lemma requests_skip_holes [simp]: "requests h (skip_holes w) = requests h w"
  by (induction w rule: skip_holes.induct) auto

lemma first_req_requests: "first_req h w = (case requests h w of [] \<Rightarrow> None | c # _ \<Rightarrow> Some c)"
  by (induction h w rule: first_req.induct) auto

lemma take_first_requests:
  "take_first h w = (r, w') \<Longrightarrow>
   r = (case requests h w of [] \<Rightarrow> None | c # _ \<Rightarrow> Some (h, c)) \<and>
   requests h' w' = (if h' = h then tl (requests h w) else requests h' w)"
  by (induction h w arbitrary: r w' rule: take_first.induct) (auto split: prod.splits if_splits)

lemma latch_pop_front_view:
  "latch_pop_front h latch = (r, latch') \<Longrightarrow>
   r = (case latch_view latch h of [] \<Rightarrow> None | c # _ \<Rightarrow> Some (h, c)) \<and>
   latch_view latch' = (latch_view latch)(h := tl (latch_view latch h))"
  by (auto simp: latch_pop_front_def latch_view_def maybe_shrink_def fun_eq_iff
      split: list.splits option.splits if_splits prod.splits dest: take_first_requests)

interpretation lq: keyed_queues latch_view "\<lambda>_. True" get_first_req_by_hash wait_for_wake push_preemptive latch_pop_front
  by unfold_locales
    (auto simp: latch_view_def get_first_req_by_hash_def wait_for_wake_def push_preemptive_def
      first_req_requests dest!: latch_pop_front_view)

subsection \<open>All latches\<close>

definition wf_latches :: "latches \<Rightarrow> bool" where
  "wf_latches ls \<longleftrightarrow> (\<exists>k < 64. latches_size ls = 2 ^ k) \<and> length (slots ls) = latches_size ls"

definition queue :: "latches \<Rightarrow> u64 \<Rightarrow> u64 list" where
  "queue ls hash = latch_view (slots ls ! slot_of ls hash) hash"

lemma slot_of_bound:
  assumes "wf_latches ls"
  shows "slot_of ls h < length (slots ls)"
proof -
  obtain k where k: "k < 64" "latches_size ls = 2 ^ k" "length (slots ls) = 2 ^ k"
    using assms by (auto simp: wf_latches_def)
  then have "(of_nat (latches_size ls) :: u64) - 1 = mask k" by (simp add: mask_eq_exp_minus_1)
  then have "slot_of ls h = unat (take_bit k h)" by (simp add: slot_of_def take_bit_eq_mask)
  also have "\<dots> < 2 ^ k" by (simp add: unsigned_take_bit_eq take_bit_nat_less_exp)
  finally show ?thesis using k by simp
qed

lemma slot_of_put [simp]: "slot_of (put_latch ls h latch) h' = slot_of ls h'"
  by (simp add: slot_of_def put_latch_def)

lemma wf_put_latch [simp]: "wf_latches (put_latch ls h latch) \<longleftrightarrow> wf_latches ls"
  by (simp add: wf_latches_def put_latch_def)

lemma queue_put_latch:
  assumes "wf_latches ls" "latch_view latch = (latch_view (slots ls ! slot_of ls h))(h := q)"
  shows "queue (put_latch ls h latch) = (queue ls)(h := q)"
proof
  fix h'
  show "queue (put_latch ls h latch) h' = ((queue ls)(h := q)) h'"
    using slot_of_bound [OF assms(1), of h] assms(2)
    by (cases "slot_of ls h' = slot_of ls h") (auto simp: queue_def put_latch_def slot_of_def)
qed

definition latches_first :: "u64 \<Rightarrow> latches \<Rightarrow> u64 option" where
  "latches_first h ls = get_first_req_by_hash h (slots ls ! slot_of ls h)"

definition latches_push_back :: "u64 \<Rightarrow> u64 \<Rightarrow> latches \<Rightarrow> latches" where
  "latches_push_back h c ls = put_latch ls h (wait_for_wake h c (slots ls ! slot_of ls h))"

definition latches_push_front :: "u64 \<Rightarrow> u64 \<Rightarrow> latches \<Rightarrow> latches" where
  "latches_push_front h c ls = put_latch ls h (push_preemptive h c (slots ls ! slot_of ls h))"

definition latches_pop :: "u64 \<Rightarrow> latches \<Rightarrow> (u64 \<times> u64) option \<times> latches" where
  "latches_pop h ls =
     (case latch_pop_front h (slots ls ! slot_of ls h) of (r, latch) \<Rightarrow> (r, put_latch ls h latch))"

interpretation ls: keyed_queues queue wf_latches latches_first latches_push_back latches_push_front latches_pop
proof (unfold_locales, goal_cases)
  case (1 q h)
  then show ?case by (simp add: latches_first_def lq.first_view queue_def)
next
  case (2 q h c)
  then show ?case
    using queue_put_latch [OF 2, of "wait_for_wake h c (slots q ! slot_of q h)" h "queue q h @ [c]"]
      lq.push_back_view by (simp add: latches_push_back_def queue_def)
next
  case (3 q h c)
  then show ?case
    using queue_put_latch [OF 3, of "push_preemptive h c (slots q ! slot_of q h)" h "c # queue q h"]
      lq.push_front_view by (simp add: latches_push_front_def queue_def)
next
  case (4 q h r q')
  obtain latch where latch: "latch_pop_front h (slots q ! slot_of q h) = (r, latch)" "q' = put_latch q h latch"
    using 4(2) by (auto simp: latches_pop_def split: prod.splits)
  then show ?case
    using 4(1) lq.pop_view [OF _ latch(1)] queue_put_latch [OF 4(1), of latch h "tl (queue q h)"]
    by (simp add: queue_def)
qed
section \<open>One turn of acquire and of release\<close>

lemma lock_latch_ok: "wf_latches ls \<Longrightarrow> lock_latch ls h = Ok (slots ls ! slot_of ls h)"
  by (simp add: lock_latch_def slot_of_bound)

lemma acquire_one_view:
  assumes "wf_latches ls"
  obtains ls' where "acquire_one ls h who = Ok (queue ls h = [] \<or> hd (queue ls h) = who, ls')" "wf_latches ls'"
    "queue ls' = (if queue ls h \<noteq> [] \<and> hd (queue ls h) = who then queue ls
                  else (queue ls)(h := queue ls h @ [who]))"
proof -
  have "acquire_one ls h who = Ok (case latches_first h ls of
      Some c \<Rightarrow> if c = who then (True, ls) else (False, latches_push_back h who ls)
    | None \<Rightarrow> (True, latches_push_back h who ls))"
    by (simp add: acquire_one_def lock_latch_ok [OF assms] latches_first_def latches_push_back_def
        split: option.split)
  then show thesis
    using that ls.first_view [OF assms, of h] ls.push_back_view [OF assms, of h who] assms
    by (cases "queue ls h") (auto split: if_splits)
qed

lemma release_one_view:
  assumes wf: "wf_latches ls" and q: "queue ls h = who # q"
    and keep: "keep_it = [] \<or> h < hd keep_it \<or> hd keep_it = h \<and> keep_cid = Some nxt"
  obtains ls' where "release_one ls h who keep_cid keep_it =
      Ok (if keep_it \<noteq> [] \<and> hd keep_it = h then (None, tl keep_it, ls')
          else (case q of [] \<Rightarrow> None | c # _ \<Rightarrow> Some c, keep_it, ls'))" "wf_latches ls'"
    "queue ls' = (queue ls)(h := (if keep_it \<noteq> [] \<and> hd keep_it = h then nxt # q else q))"
proof -
  let ?latch = "slots ls ! slot_of ls h"
  obtain r latch where pop: "latch_pop_front h ?latch = (r, latch)" by force
  have r: "r = Some (h, who)" "latch_view latch = (latch_view ?latch)(h := q)"
    using lq.pop_view [OF _ pop] q by (simp_all add: queue_def)
  have put: "queue (put_latch ls h latch) = (queue ls)(h := q)"
    by (rule queue_put_latch [OF wf r(2)])
  have "latch_view (push_preemptive h nxt latch) = (latch_view ?latch)(h := nxt # q)"
    using lq.push_front_view [where q = latch and h = h and c = "nxt"] r(2) by simp
  from queue_put_latch [OF wf this]
  have pre: "queue (put_latch ls h (push_preemptive h nxt latch)) = (queue ls)(h := nxt # q)" .
  have first: "get_first_req_by_hash h latch = (case q of [] \<Rightarrow> None | c # _ \<Rightarrow> Some c)"
    using r(2) by (simp add: lq.first_view)
  show thesis
  proof (cases "keep_it \<noteq> [] \<and> hd keep_it = h")
    case True
    then obtain rest where "keep_it = h # rest" "keep_cid = Some nxt" using keep by (cases keep_it) auto
    with True show thesis
      using that [of "put_latch ls h (push_preemptive h nxt latch)"] pre wf pop r(1)
      by (simp add: release_one_def lock_latch_ok [OF wf])
  next
    case False
    then show thesis
      using that [of "put_latch ls h latch"] put wf pop r(1) first keep
      by (cases keep_it) (auto simp: release_one_def lock_latch_ok [OF wf])
  qed
qed

section \<open>Fresh latches\<close>

lemma next_power_loop_ok:
  "\<exists>j. next_power_loop (2 ^ k) n = 2 ^ (k + j) \<and> n \<le> 2 ^ (k + j) \<and> (j = 0 \<or> 2 ^ (k + j) < 2 * n)"
proof (induction "n - 2 ^ k" arbitrary: k rule: less_induct)
  case less
  show ?case
  proof (cases "n \<le> 2 ^ k")
    case True
    then show ?thesis by (intro exI [of _ 0]) (simp add: next_power_loop.simps)
  next
    case False
    moreover have "(2 :: nat) ^ k < 2 ^ Suc k" by simp
    ultimately have "n - 2 ^ Suc k < n - 2 ^ k" by linarith
    from less [OF this] obtain j where j: "next_power_loop (2 ^ Suc k) n = 2 ^ (Suc k + j)" "n \<le> 2 ^ (Suc k + j)"
      "j = 0 \<or> 2 ^ (Suc k + j) < 2 * n" by blast
    with False show ?thesis
      by (intro exI [of _ "Suc j"]) (auto simp: next_power_loop.simps [of "2 ^ k" n])
  qed
qed

lemma wf_latches_new:
  assumes "n \<le> 2 ^ 63"
  shows "wf_latches (latches_new n)" "queue (latches_new n) h = []"
proof -
  obtain j where j: "next_power_loop 1 n = 2 ^ j" "n \<le> 2 ^ j" "j = 0 \<or> 2 ^ j < 2 * n"
    using next_power_loop_ok [of 0 n] by auto
  have "(2 :: nat) ^ j < 2 ^ 64"
    using j(3) assms by auto
  then have "j < 64" by (simp only: power_strict_increasing_iff)
  with j \<open>2 ^ j < 2 ^ 64\<close> show wf: "wf_latches (latches_new n)"
    by (auto simp: wf_latches_def latches_new_def next_power_of_two_def Let_def)
  show "queue (latches_new n) h = []"
    using slot_of_bound [OF wf, of h]
    by (simp add: queue_def latch_view_def latches_new_def latch_new_def Let_def)
qed

lemma sorted_remdups_adj_strict: "sorted (xs :: u64 list) \<Longrightarrow> sorted_wrt (<) (remdups_adj xs)"
proof (induction xs rule: remdups_adj.induct)
  case (3 x y xs)
  then show ?case by (auto simp: order.strict_iff_order)
qed simp_all

lemma latch_lock_new_sorted: "sorted_wrt (<) (required_hashes (latch_lock_new hash keys))"
  by (simp add: latch_lock_new_def sorted_remdups_adj_strict)
end
