(* ===== verification/LatchSystem.thy ===== *)
theory LatchSystem
  imports Latch
begin

text \<open>
  The commands of the scheduler around the latches (\<open>src/storage/txn/scheduler.rs\<close>): a command is
  queued for its latches one by one, waits, is woken by the one that releases a latch, runs, and
  releases, possibly handing some latches to a follow-up command. Each step of the system is one
  critical section of one latch, so the steps of different commands interleave freely.
\<close>

section \<open>The state of the scheduler\<close>

text \<open>
  \<open>Acquiring i\<close> is inside \<open>acquire\<close> before its \<open>i\<close>-th hash, \<open>Releasing j\<close> inside \<open>release\<close> before the
  \<open>j\<close>-th, naming the follow-up command; \<open>Inheriting r n\<close> is a follow-up command that has been handed
  \<open>n\<close> of its latches by the releasing command \<open>r\<close>.
\<close>

datatype phase =
    Acquiring nat
  | Waiting
  | Running
  | Releasing nat "u64 option"
  | Inheriting u64 nat

record task_context =
  tk_lock :: latch_lock
  tk_phase :: phase

text \<open>
  A wakeup is first noted by a releasing command and becomes due when that command has released all
  its latches.
\<close>

record scheduler =
  sc_latches :: latches
  sc_tasks :: "u64 \<Rightarrow> task_context option"
  sc_wakes :: "(u64 option \<times> u64) list"

definition scheduler_new :: "nat \<Rightarrow> scheduler" where
  "scheduler_new n = \<lparr> sc_latches = latches_new n, sc_tasks = (\<lambda>_. None), sc_wakes = [] \<rparr>"

abbreviation req :: "task_context \<Rightarrow> u64 list" where
  "req t \<equiv> required_hashes (tk_lock t)"

abbreviation owned :: "task_context \<Rightarrow> nat" where
  "owned t \<equiv> owned_count (tk_lock t)"

definition set_task :: "u64 \<Rightarrow> task_context option \<Rightarrow> scheduler \<Rightarrow> scheduler" where
  "set_task cid t s = s\<lparr>sc_tasks := (sc_tasks s)(cid := t)\<rparr>"

definition at_phase :: "task_context \<Rightarrow> nat \<Rightarrow> phase \<Rightarrow> task_context" where
  "at_phase t n p = t\<lparr>tk_lock := (tk_lock t)\<lparr>owned_count := n\<rparr>, tk_phase := p\<rparr>"

text \<open>The hashes still to be kept for the follow-up command.\<close>

definition keep_hashes :: "scheduler \<Rightarrow> u64 option \<Rightarrow> u64 list" where
  "keep_hashes s keep =
     (case keep of
        None \<Rightarrow> []
      | Some nc \<Rightarrow>
          (case sc_tasks s nc of
             Some t \<Rightarrow> (case tk_phase t of Inheriting _ n \<Rightarrow> drop n (req t) | _ \<Rightarrow> [])
           | None \<Rightarrow> []))"

definition inherit :: "u64 option \<Rightarrow> scheduler \<Rightarrow> scheduler" where
  "inherit keep s =
     (case keep of
        None \<Rightarrow> s
      | Some nc \<Rightarrow>
          (case sc_tasks s nc of
             Some t \<Rightarrow>
               (case tk_phase t of
                  Inheriting r n \<Rightarrow> set_task nc (Some (t\<lparr>tk_phase := Inheriting r (Suc n)\<rparr>)) s
                | _ \<Rightarrow> s)
           | None \<Rightarrow> s))"

definition hand_over :: "u64 option \<Rightarrow> scheduler \<Rightarrow> scheduler" where
  "hand_over keep s =
     (case keep of
        None \<Rightarrow> s
      | Some nc \<Rightarrow>
          (case sc_tasks s nc of
             Some t \<Rightarrow>
               set_task nc (Some \<lparr> tk_lock = force_assume_acquired (tk_lock t),
                                   tk_phase = Acquiring (length (req t)) \<rparr>) s
           | None \<Rightarrow> s))"

section \<open>Steps\<close>

text \<open>
  \<open>granted\<close>, \<open>blocked\<close> and \<open>scheduled\<close> are the turns and the end of the loop of \<open>acquire\<close>, called by
  \<open>schedule_command\<close> and by \<open>acquire_lock_on_wakeup\<close>; \<open>woken\<close> and \<open>expired\<close> are the two ways through
  \<open>acquire_lock_on_wakeup\<close>, the second one when the deadline is over: it counts the latch the command
  was woken for as its own and releases. \<open>finished\<close> is the call of \<open>release_latches\<close> with nothing to
  keep, in \<open>finish_with_err\<close>, \<open>on_read_finished\<close> and \<open>on_write_finished\<close>; \<open>released\<close> and \<open>release_done\<close>
  are the turns and the end of the loop of \<open>release\<close>, after which the wakeups are made.
\<close>

inductive work_step :: "scheduler \<Rightarrow> scheduler \<Rightarrow> bool" where
  granted:
    "sc_tasks s cid = Some t \<Longrightarrow> tk_phase t = Acquiring i \<Longrightarrow> i < length (req t) \<Longrightarrow>
     acquire_one (sc_latches s) (req t ! i) cid = (Ok (True, ls) :: (unit, _) result) \<Longrightarrow>
     work_step s (set_task cid (Some (t\<lparr>tk_phase := Acquiring (Suc i)\<rparr>)) (s\<lparr>sc_latches := ls\<rparr>))"
| blocked:
    "sc_tasks s cid = Some t \<Longrightarrow> tk_phase t = Acquiring i \<Longrightarrow> i < length (req t) \<Longrightarrow>
     acquire_one (sc_latches s) (req t ! i) cid = (Ok (False, ls) :: (unit, _) result) \<Longrightarrow>
     work_step s (set_task cid (Some (at_phase t i Waiting)) (s\<lparr>sc_latches := ls\<rparr>))"
| scheduled:
    "sc_tasks s cid = Some t \<Longrightarrow> tk_phase t = Acquiring i \<Longrightarrow> i = length (req t) \<Longrightarrow>
     work_step s (set_task cid (Some (at_phase t i Running)) s)"
| woken:
    "sc_wakes s = xs @ (None, cid) # ys \<Longrightarrow> sc_tasks s cid = Some t \<Longrightarrow> tk_phase t = Waiting \<Longrightarrow>
     work_step s (set_task cid (Some (t\<lparr>tk_phase := Acquiring (owned t)\<rparr>)) (s\<lparr>sc_wakes := xs @ ys\<rparr>))"
| expired:
    "sc_wakes s = xs @ (None, cid) # ys \<Longrightarrow> sc_tasks s cid = Some t \<Longrightarrow> tk_phase t = Waiting \<Longrightarrow>
     work_step s (set_task cid (Some (at_phase t (Suc (owned t)) (Releasing 0 None))) (s\<lparr>sc_wakes := xs @ ys\<rparr>))"
| finished:
    "sc_tasks s cid = Some t \<Longrightarrow> tk_phase t = Running \<Longrightarrow>
     work_step s (set_task cid (Some (t\<lparr>tk_phase := Releasing 0 None\<rparr>)) s)"
| released:
    "sc_tasks s cid = Some t \<Longrightarrow> tk_phase t = Releasing j keep \<Longrightarrow> j < owned t \<Longrightarrow>
     release_one (sc_latches s) (req t ! j) cid keep (keep_hashes s keep) =
       (Ok (wakeup, keep_it, ls) :: (unit, _) result) \<Longrightarrow>
     s' = (if keep_it = keep_hashes s keep then s else inherit keep s) \<Longrightarrow>
     work_step s (set_task cid (Some (t\<lparr>tk_phase := Releasing (Suc j) keep\<rparr>))
       (s'\<lparr>sc_latches := ls,
          sc_wakes := sc_wakes s @ (case wakeup of Some w \<Rightarrow> [(Some cid, w)] | None \<Rightarrow> [])\<rparr>))"
| release_done:
    "sc_tasks s cid = Some t \<Longrightarrow> tk_phase t = Releasing j keep \<Longrightarrow> j = owned t \<Longrightarrow> keep_hashes s keep = [] \<Longrightarrow>
     work_step s (set_task cid None (hand_over keep
       (s\<lparr>sc_wakes := map (\<lambda>(r, w). (if r = Some cid then None else r, w)) (sc_wakes s)\<rparr>)))"

text \<open>
  \<open>arrive\<close> is \<open>schedule_command\<close> with a fresh id; \<open>finished_keeping\<close> is \<open>on_write_finished\<close> with woken-up
  requests, whose keys are among those of the finished command (the documented requirement of
  \<open>release\<close> on the lock it keeps).
\<close>

inductive sched_step :: "('k \<Rightarrow> u64) \<Rightarrow> scheduler \<Rightarrow> scheduler \<Rightarrow> bool" for hash where
  work: "work_step s s' \<Longrightarrow> sched_step hash s s'"
| arrive:
    "sc_tasks s cid = None \<Longrightarrow>
     sched_step hash s (set_task cid (Some \<lparr> tk_lock = latch_lock_new hash keys, tk_phase = Acquiring 0 \<rparr>) s)"
| finished_keeping:
    "sc_tasks s cid = Some t \<Longrightarrow> tk_phase t = Running \<Longrightarrow> sc_tasks s nc = None \<Longrightarrow>
     set (required_hashes (latch_lock_new hash keys)) \<subseteq> set (req t) \<Longrightarrow>
     sched_step hash s (set_task cid (Some (t\<lparr>tk_phase := Releasing 0 (Some nc)\<rparr>))
       (set_task nc (Some \<lparr> tk_lock = latch_lock_new hash keys, tk_phase = Inheriting cid 0 \<rparr>) s))"

inductive_cases work_stepE: "work_step s s'"
inductive_cases sched_stepE: "sched_step hash s s'"

section \<open>The invariant\<close>

text \<open>The hashes at whose queue a command must be first, and the one at whose queue it may stand.\<close>

definition holds :: "task_context \<Rightarrow> u64 list" where
  "holds t =
     (case tk_phase t of
        Acquiring i \<Rightarrow> take i (req t)
      | Waiting \<Rightarrow> take (owned t) (req t)
      | Running \<Rightarrow> req t
      | Releasing j _ \<Rightarrow> drop j (take (owned t) (req t))
      | Inheriting _ n \<Rightarrow> take n (req t))"

definition waits_at :: "task_context \<Rightarrow> u64 \<Rightarrow> bool" where
  "waits_at t h \<longleftrightarrow>
     (case tk_phase t of
        Acquiring i \<Rightarrow> i < length (req t) \<and> h = req t ! i
      | Waiting \<Rightarrow> h = req t ! owned t
      | _ \<Rightarrow> False)"

definition task_shape :: "task_context \<Rightarrow> bool" where
  "task_shape t \<longleftrightarrow> sorted_wrt (<) (req t) \<and>
     (case tk_phase t of
        Acquiring i \<Rightarrow> i \<le> length (req t)
      | Waiting \<Rightarrow> owned t < length (req t)
      | Running \<Rightarrow> owned t = length (req t)
      | Releasing j _ \<Rightarrow> j \<le> owned t \<and> owned t \<le> length (req t)
      | Inheriting _ n \<Rightarrow> n \<le> length (req t))"

abbreviation squeue :: "scheduler \<Rightarrow> u64 \<Rightarrow> u64 list" where
  "squeue s \<equiv> queue (sc_latches s)"

definition heads :: "scheduler \<Rightarrow> u64 \<Rightarrow> u64 \<Rightarrow> bool" where
  "heads s cid h \<longleftrightarrow> squeue s h \<noteq> [] \<and> hd (squeue s h) = cid"

text \<open>
  The queues say exactly who holds and who waits for what; whoever came to the front of a queue while
  waiting has a wakeup noted, and no one else has.
\<close>

definition queues_ok :: "scheduler \<Rightarrow> bool" where
  "queues_ok s \<longleftrightarrow>
     (\<forall>h. distinct (squeue s h)) \<and>
     (\<forall>h cid. cid \<in> set (squeue s h) \<longrightarrow> (\<exists>t. sc_tasks s cid = Some t \<and> (h \<in> set (holds t) \<or> waits_at t h))) \<and>
     (\<forall>h cid t. sc_tasks s cid = Some t \<longrightarrow> h \<in> set (holds t) \<longrightarrow> heads s cid h)"

definition waits_ok :: "scheduler \<Rightarrow> bool" where
  "waits_ok s \<longleftrightarrow>
     (\<forall>cid t. sc_tasks s cid = Some t \<longrightarrow> tk_phase t = Waiting \<longrightarrow>
        cid \<in> set (squeue s (req t ! owned t)) \<and>
        (heads s cid (req t ! owned t) \<longrightarrow> cid \<in> snd ` set (sc_wakes s))) \<and>
     (\<forall>cid t i. sc_tasks s cid = Some t \<longrightarrow> tk_phase t = Acquiring i \<longrightarrow> i < length (req t) \<longrightarrow>
        cid \<in> set (squeue s (req t ! i)) \<longrightarrow> heads s cid (req t ! i))"

definition wakes_ok :: "scheduler \<Rightarrow> bool" where
  "wakes_ok s \<longleftrightarrow> distinct (map snd (sc_wakes s)) \<and>
     (\<forall>(r, cid) \<in> set (sc_wakes s).
        (\<exists>t. sc_tasks s cid = Some t \<and> tk_phase t = Waiting \<and> heads s cid (req t ! owned t)) \<and>
        (\<forall>c. r = Some c \<longrightarrow> (\<exists>t j keep. sc_tasks s c = Some t \<and> tk_phase t = Releasing j keep)))"

definition keeps_ok :: "scheduler \<Rightarrow> bool" where
  "keeps_ok s \<longleftrightarrow>
     (\<forall>cid t j nc. sc_tasks s cid = Some t \<longrightarrow> tk_phase t = Releasing j (Some nc) \<longrightarrow>
        (\<exists>u n. sc_tasks s nc = Some u \<and> tk_phase u = Inheriting cid n \<and> set (drop n (req u)) \<subseteq> set (holds t))) \<and>
     (\<forall>nc u cid n. sc_tasks s nc = Some u \<longrightarrow> tk_phase u = Inheriting cid n \<longrightarrow>
        (\<exists>t j. sc_tasks s cid = Some t \<and> tk_phase t = Releasing j (Some nc)))"

definition sched_inv :: "scheduler \<Rightarrow> bool" where
  "sched_inv s \<longleftrightarrow> wf_latches (sc_latches s) \<and> finite (dom (sc_tasks s)) \<and>
     (\<forall>cid t. sc_tasks s cid = Some t \<longrightarrow> task_shape t) \<and>
     queues_ok s \<and> waits_ok s \<and> wakes_ok s \<and> keeps_ok s"
section \<open>Every step keeps the invariant\<close>

lemma set_task_simps [simp]:
  "sc_tasks (set_task cid t s) = (sc_tasks s)(cid := t)"
  "sc_latches (set_task cid t s) = sc_latches s" "sc_wakes (set_task cid t s) = sc_wakes s"
  by (simp_all add: set_task_def)

lemma at_phase_simps [simp]:
  "req (at_phase t n p) = req t" "owned (at_phase t n p) = n" "tk_phase (at_phase t n p) = p"
  by (simp_all add: at_phase_def)

lemma set_take_Suc: "i < length xs \<Longrightarrow> set (take (Suc i) xs) = insert (xs ! i) (set (take i xs))"
  by (simp add: take_Suc_conv_app_nth)

lemma set_drop_Suc: "i < length xs \<Longrightarrow> set (drop i xs) = insert (xs ! i) (set (drop (Suc i) xs))"
  by (simp add: Cons_nth_drop_Suc [symmetric])

lemma sorted_nth_notin_take:
  "sorted_wrt (<) (xs :: u64 list) \<Longrightarrow> i < length xs \<Longrightarrow> h \<in> set (take i xs) \<Longrightarrow> h < xs ! i"
  by (auto simp: in_set_conv_nth sorted_wrt_iff_nth_less)

lemma sorted_nth_less_drop:
  "sorted_wrt (<) (xs :: u64 list) \<Longrightarrow> i < length xs \<Longrightarrow> h \<in> set (drop (Suc i) xs) \<Longrightarrow> xs ! i < h"
  by (auto simp: in_set_conv_nth sorted_wrt_iff_nth_less)

text \<open>A command at a front of a queue is the only one.\<close>

lemma heads_unique: "heads s c h \<Longrightarrow> heads s c' h \<Longrightarrow> c = c'"
  by (simp add: heads_def)

lemma sched_invD:
  assumes "sched_inv s"
  shows "wf_latches (sc_latches s)" "finite (dom (sc_tasks s))" "queues_ok s" "waits_ok s" "wakes_ok s" "keeps_ok s"
    and "sc_tasks s cid = Some t \<Longrightarrow> task_shape t"
  using assms by (auto simp: sched_inv_def)

lemma queued_task:
  assumes "queues_ok s" "cid \<in> set (squeue s h)" "sc_tasks s cid = Some t"
  shows "h \<in> set (holds t) \<or> waits_at t h"
  using assms unfolding queues_ok_def by force

lemma holds_heads: "queues_ok s \<Longrightarrow> sc_tasks s cid = Some t \<Longrightarrow> h \<in> set (holds t) \<Longrightarrow> heads s cid h"
  unfolding queues_ok_def by blast

lemma heads_queued: "heads s cid h \<Longrightarrow> cid \<in> set (squeue s h)"
  by (auto simp: heads_def)

lemma waits_okD:
  assumes "waits_ok s" "sc_tasks s cid = Some t"
  shows "tk_phase t = Waiting \<Longrightarrow> cid \<in> set (squeue s (req t ! owned t))"
    and "tk_phase t = Waiting \<Longrightarrow> heads s cid (req t ! owned t) \<Longrightarrow> cid \<in> snd ` set (sc_wakes s)"
    and "tk_phase t = Acquiring i \<Longrightarrow> i < length (req t) \<Longrightarrow> cid \<in> set (squeue s (req t ! i)) \<Longrightarrow>
      heads s cid (req t ! i)"
  using assms unfolding waits_ok_def by blast+

text \<open>What changes of one command leave alone.\<close>

definition linked :: "phase \<Rightarrow> bool" where
  "linked p \<longleftrightarrow> (case p of Releasing _ _ \<Rightarrow> True | Inheriting _ _ \<Rightarrow> True | _ \<Rightarrow> False)"

lemma keeps_ok_upd:
  assumes "keeps_ok s" "sc_tasks s' = (sc_tasks s)(cid := Some t')"
    and "sc_tasks s cid = None \<or> (\<exists>t. sc_tasks s cid = Some t \<and> \<not> linked (tk_phase t))" "\<not> linked (tk_phase t')"
  shows "keeps_ok s'"
proof -
  have fwd: "sc_tasks s c = Some u" if "sc_tasks s' c = Some u" "linked (tk_phase u)" for c u
    using assms(2-4) that by (auto split: if_splits)
  have bwd: "sc_tasks s' c = Some u" if "sc_tasks s c = Some u" "linked (tk_phase u)" for c u
    using assms(2-4) that by auto
  show ?thesis
    unfolding keeps_ok_def
  proof (intro conjI allI impI, goal_cases)
    case (1 c t j nc)
    then have "sc_tasks s c = Some t" using fwd by (simp add: linked_def)
    with 1 assms(1) obtain u n where u: "sc_tasks s nc = Some u" "tk_phase u = Inheriting c n"
      "set (drop n (req u)) \<subseteq> set (holds t)" unfolding keeps_ok_def by blast
    then show ?case using bwd by (auto simp: linked_def)
  next
    case (2 nc u c n)
    then have "sc_tasks s nc = Some u" using fwd by (simp add: linked_def)
    with 2 assms(1) obtain t j where "sc_tasks s c = Some t" "tk_phase t = Releasing j (Some nc)"
      unfolding keeps_ok_def by blast
    then show ?case using bwd by (auto simp: linked_def)
  qed
qed

lemma wakes_ok_upd:
  assumes "wakes_ok s" "sc_wakes s' = sc_wakes s" "sc_tasks s' = (sc_tasks s)(cid := Some t')"
    and "\<And>t. sc_tasks s cid = Some t \<Longrightarrow> tk_phase t \<noteq> Waiting \<and> (\<forall>j k. tk_phase t \<noteq> Releasing j k)"
    and "\<And>c h. heads s c h \<Longrightarrow> heads s' c h"
  shows "wakes_ok s'"
  unfolding wakes_ok_def
proof (intro conjI ballI, goal_cases)
  case 1
  then show ?case using assms(1,2) by (simp add: wakes_ok_def)
next
  case (2 rc)
  obtain r c where rc: "rc = (r, c)" "(r, c) \<in> set (sc_wakes s)" using 2 assms(2) by (metis surj_pair)
  then obtain t where t: "sc_tasks s c = Some t" "tk_phase t = Waiting" "heads s c (req t ! owned t)"
    "\<forall>c. r = Some c \<longrightarrow> (\<exists>t j keep. sc_tasks s c = Some t \<and> tk_phase t = Releasing j keep)"
    using assms(1) unfolding wakes_ok_def by fastforce
  have "c \<noteq> cid" using assms(4) t(1,2) by auto
  moreover have "\<exists>t j keep. sc_tasks s' c' = Some t \<and> tk_phase t = Releasing j keep" if r: "r = Some c'" for c'
  proof -
    obtain u j keep where u: "sc_tasks s c' = Some u" "tk_phase u = Releasing j keep" using t(4) r by blast
    then have "c' \<noteq> cid" using assms(4) by auto
    with u assms(3) show ?thesis by auto
  qed
  ultimately show ?case using rc(1) t(1-3) assms(3,5) by auto
qed

lemma inv_granted:
  assumes inv: "sched_inv s" and t: "sc_tasks s cid = Some t" "tk_phase t = Acquiring i" "i < length (req t)"
    and one: "acquire_one (sc_latches s) (req t ! i) cid = (Ok (True, ls) :: (unit, _) result)"
  shows "sched_inv (set_task cid (Some (t\<lparr>tk_phase := Acquiring (Suc i)\<rparr>)) (s\<lparr>sc_latches := ls\<rparr>))"
    (is "sched_inv ?s'")
proof -
  let ?h = "req t ! i" and ?t' = "t\<lparr>tk_phase := Acquiring (Suc i)\<rparr>"
  note d = sched_invD [OF inv]
  have shape: "task_shape t" by (rule d(7) [OF t(1)])
  then have sorted: "sorted_wrt (<) (req t)" by (simp add: task_shape_def)
  obtain ls' where "acquire_one (sc_latches s) ?h cid =
      (Ok (squeue s ?h = [] \<or> hd (squeue s ?h) = cid, ls') :: (unit, _) result)" "wf_latches ls'"
    "queue ls' = (if squeue s ?h \<noteq> [] \<and> hd (squeue s ?h) = cid then squeue s
                  else (squeue s)(?h := squeue s ?h @ [cid]))"
    by (rule acquire_one_view [OF d(1)])
  then have ls: "wf_latches ls" and front: "squeue s ?h = [] \<or> heads s cid ?h"
    and Q': "queue ls = (if squeue s ?h = [] then (squeue s)(?h := [cid]) else squeue s)"
    using one by (auto simp: heads_def)
  have holds': "set (holds ?t') = insert ?h (set (holds t))"
    using t(2,3) by (simp add: holds_def set_take_Suc)
  have heads': "heads ?s' c h \<longleftrightarrow> heads s c h \<or> c = cid \<and> h = ?h" for c h
    using front by (auto simp: heads_def Q')
  have set': "set (squeue ?s' h) = set (squeue s h) \<union> (if h = ?h then {cid} else {})" for h
    using front by (auto simp: heads_def Q' intro: hd_in_set)
  have mine: "h \<in> set (holds t) \<or> h = ?h" if "cid \<in> set (squeue s h)" for h
    using queued_task [OF d(3) that t(1)] t(2) by (auto simp: waits_at_def)
  have "task_shape ?t'" using shape t(2,3) by (simp add: task_shape_def)
  moreover have "queues_ok ?s'"
    unfolding queues_ok_def
  proof (intro conjI allI impI, goal_cases)
    case (1 h)
    then show ?case using d(3) by (auto simp: queues_ok_def Q')
  next
    case (2 h c)
    then show ?case using mine [of h] set' [of h] d(3) holds' by (auto simp: queues_ok_def split: if_splits)
  next
    case (3 h c u)
    then show ?case
      using heads' [of c h] holds' holds_heads [OF d(3), of c _ h] t(1) by (cases "c = cid") auto
  qed
  moreover have "waits_ok ?s'"
    unfolding waits_ok_def
  proof (intro conjI allI impI, goal_cases)
    case (1 c u)
    then have "c \<noteq> cid" "sc_tasks s c = Some u" by (auto split: if_splits)
    with 1 waits_okD(1) [OF d(4)] show ?case unfolding set' by blast
  next
    case (2 c u)
    then have "c \<noteq> cid" "sc_tasks s c = Some u" by (auto split: if_splits)
    with 2 waits_okD(2) [OF d(4)] show ?case unfolding heads' by simp
  next
    case (3 c u j)
    show ?case
    proof (cases "c = cid")
      case True
      then have u: "j = Suc i" "u = ?t'" "Suc i < length (req t)" using 3 by auto
      have "req t ! j \<notin> set (holds ?t')"
        using sorted_nth_notin_take [OF sorted u(3)] u(1) by (auto simp: holds_def)
      then show ?thesis using 3 u True mine [of "req t ! j"] set' [of "req t ! j"] holds' by auto
    next
      case False
      then have "sc_tasks s c = Some u" "c \<in> set (squeue s (req u ! j))"
        using 3 set' [of "req u ! j"] by (auto split: if_splits)
      then show ?thesis using 3 waits_okD(3) [OF d(4)] unfolding heads' by blast
    qed
  qed
  moreover have "wakes_ok ?s'" by (rule wakes_ok_upd [OF d(5)]) (use t heads' in auto)
  moreover have "keeps_ok ?s'" by (rule keeps_ok_upd [OF d(6)]) (use t in \<open>auto simp: linked_def\<close>)
  ultimately show ?thesis using ls d(2,7) by (auto simp: sched_inv_def)
qed
text \<open>A change of one command that leaves the queues as they are.\<close>

lemma same_queues:
  assumes "queues_ok s" "waits_ok s" "sc_latches s' = sc_latches s" "sc_tasks s' = (sc_tasks s)(cid := Some t')"
    and holds: "\<And>h. h \<in> set (holds t') \<Longrightarrow> heads s cid h"
    and queued: "\<And>h. cid \<in> set (squeue s h) \<Longrightarrow> h \<in> set (holds t') \<or> waits_at t' h"
    and phase: "tk_phase t' \<noteq> Waiting"
      "\<And>i. tk_phase t' = Acquiring i \<Longrightarrow> i < length (req t') \<Longrightarrow> cid \<in> set (squeue s (req t' ! i)) \<Longrightarrow>
         heads s cid (req t' ! i)"
    and wakes: "\<And>c. c \<noteq> cid \<Longrightarrow> c \<in> snd ` set (sc_wakes s) \<Longrightarrow> c \<in> snd ` set (sc_wakes s')"
  shows "queues_ok s' \<and> waits_ok s'"
proof -
  have heads': "heads s' = heads s" using assms(3) by (simp add: heads_def fun_eq_iff)
  have other: "sc_tasks s' c = Some u \<longleftrightarrow> (if c = cid then u = t' else sc_tasks s c = Some u)" for c u
    using assms(4) by auto
  have "queues_ok s'"
    unfolding queues_ok_def
  proof (intro conjI allI impI, goal_cases)
    case (1 h)
    then show ?case using assms(1,3) by (simp add: queues_ok_def)
  next
    case (2 h c)
    then have c: "c \<in> set (squeue s h)" using assms(3) by simp
    then obtain u where "sc_tasks s c = Some u" "h \<in> set (holds u) \<or> waits_at u h"
      using assms(1) unfolding queues_ok_def by blast
    then show ?case using queued [of h] c other [of c] by (cases "c = cid") auto
  next
    case (3 h c u)
    then show ?case
      using holds [of h] holds_heads [OF assms(1), of c u h] other [of c u] unfolding heads' by (auto split: if_splits)
  qed
  moreover have "waits_ok s'"
    unfolding waits_ok_def
  proof (intro conjI allI impI, goal_cases)
    case (1 c u)
    then have "sc_tasks s c = Some u" using phase(1) other by (auto split: if_splits)
    with 1 waits_okD(1) [OF assms(2)] show ?case unfolding assms(3) by blast
  next
    case (2 c u)
    then have "sc_tasks s c = Some u" "c \<noteq> cid" using phase(1) other by (auto split: if_splits)
    with 2 waits_okD(2) [OF assms(2)] wakes show ?case unfolding heads' by blast
  next
    case (3 c u i)
    then show ?case
      using phase(2) waits_okD(3) [OF assms(2), of c u i] other [of c u] unfolding heads' assms(3)
      by (auto split: if_splits)
  qed
  ultimately show ?thesis by blast
qed

lemma inv_scheduled:
  assumes inv: "sched_inv s" and t: "sc_tasks s cid = Some t" "tk_phase t = Acquiring i" "i = length (req t)"
  shows "sched_inv (set_task cid (Some (at_phase t i Running)) s)" (is "sched_inv ?s'")
proof -
  let ?t' = "at_phase t i Running"
  note d = sched_invD [OF inv]
  have h: "holds ?t' = holds t" using t(2,3) by (simp add: holds_def)
  have "queues_ok ?s' \<and> waits_ok ?s'"
    by (rule same_queues [OF d(3,4), of ?s' cid ?t'], unfold h)
      (use holds_heads [OF d(3) t(1)] queued_task [OF d(3) _ t(1)] t(2,3) in \<open>auto simp: waits_at_def\<close>)
  moreover have "wakes_ok ?s'" by (rule wakes_ok_upd [OF d(5)]) (use t in \<open>auto simp: heads_def\<close>)
  moreover have "keeps_ok ?s'" by (rule keeps_ok_upd [OF d(6)]) (use t in \<open>auto simp: linked_def\<close>)
  moreover have "task_shape ?t'" using d(7) [OF t(1)] t(3) by (simp add: task_shape_def)
  ultimately show ?thesis using d(1,2,7) by (auto simp: sched_inv_def)
qed

lemma inv_finished:
  assumes inv: "sched_inv s" and t: "sc_tasks s cid = Some t" "tk_phase t = Running"
  shows "sched_inv (set_task cid (Some (t\<lparr>tk_phase := Releasing 0 None\<rparr>)) s)" (is "sched_inv ?s'")
proof -
  let ?t' = "t\<lparr>tk_phase := Releasing 0 None\<rparr>"
  note d = sched_invD [OF inv]
  have o: "owned t = length (req t)" using d(7) [OF t(1)] t(2) by (simp add: task_shape_def)
  have h: "holds ?t' = holds t" using t(2) o by (simp add: holds_def)
  have "queues_ok ?s' \<and> waits_ok ?s'"
    by (rule same_queues [OF d(3,4), of ?s' cid ?t'], unfold h)
      (use holds_heads [OF d(3) t(1)] queued_task [OF d(3) _ t(1)] t(2) in \<open>auto simp: waits_at_def\<close>)
  moreover have "wakes_ok ?s'" by (rule wakes_ok_upd [OF d(5)]) (use t in \<open>auto simp: heads_def\<close>)
  moreover have "keeps_ok ?s'"
    using d(6) t unfolding keeps_ok_def by (fastforce split: if_splits)
  moreover have "task_shape ?t'" using d(7) [OF t(1)] t(2) by (simp add: task_shape_def)
  ultimately show ?thesis using d(1,2,7) by (auto simp: sched_inv_def)
qed
lemma inv_blocked:
  assumes inv: "sched_inv s" and t: "sc_tasks s cid = Some t" "tk_phase t = Acquiring i" "i < length (req t)"
    and one: "acquire_one (sc_latches s) (req t ! i) cid = (Ok (False, ls) :: (unit, _) result)"
  shows "sched_inv (set_task cid (Some (at_phase t i Waiting)) (s\<lparr>sc_latches := ls\<rparr>))" (is "sched_inv ?s'")
proof -
  let ?h = "req t ! i" and ?t' = "at_phase t i Waiting"
  note d = sched_invD [OF inv]
  obtain ls' where "acquire_one (sc_latches s) ?h cid =
      (Ok (squeue s ?h = [] \<or> hd (squeue s ?h) = cid, ls') :: (unit, _) result)" "wf_latches ls'"
    "queue ls' = (if squeue s ?h \<noteq> [] \<and> hd (squeue s ?h) = cid then squeue s
                  else (squeue s)(?h := squeue s ?h @ [cid]))"
    by (rule acquire_one_view [OF d(1)])
  then have ls: "wf_latches ls" and ne: "squeue s ?h \<noteq> []" "hd (squeue s ?h) \<noteq> cid"
    and Q': "queue ls = (squeue s)(?h := squeue s ?h @ [cid])"
    using one by auto
  have new: "cid \<notin> set (squeue s ?h)"
    using waits_okD(3) [OF d(4) t] ne by (auto simp: heads_def)
  have h: "holds ?t' = holds t" using t(2) by (simp add: holds_def)
  have heads': "heads ?s' c g \<longleftrightarrow> heads s c g" for c g using ne(1) by (auto simp: heads_def Q')
  have set': "set (squeue ?s' g) = set (squeue s g) \<union> (if g = ?h then {cid} else {})" for g
    by (auto simp: Q')
  have mine: "g \<in> set (holds t) \<or> g = ?h" if "cid \<in> set (squeue ?s' g)" for g
    using that queued_task [OF d(3) _ t(1), of g] t(2) set' [of g] by (auto simp: waits_at_def split: if_splits)
  have "queues_ok ?s'"
    unfolding queues_ok_def
  proof (intro conjI allI impI, goal_cases)
    case (1 g)
    then show ?case using d(3) new by (auto simp: queues_ok_def Q')
  next
    case (2 g c)
    show ?case
    proof (cases "c = cid")
      case True
      then show ?thesis using mine [of g] 2 h by (auto simp: waits_at_def)
    next
      case False
      then have "c \<in> set (squeue s g)" using 2 set' [of g] by (auto split: if_splits)
      then show ?thesis using d(3) False unfolding queues_ok_def by auto
    qed
  next
    case (3 g c u)
    then show ?case using holds_heads [OF d(3), of c _ g] t(1) h unfolding heads' by (cases "c = cid") auto
  qed
  moreover have "waits_ok ?s'"
    unfolding waits_ok_def
  proof (intro conjI allI impI, goal_cases)
    case (1 c u)
    then show ?case using waits_okD(1) [OF d(4), of c u] unfolding set' by (cases "c = cid") auto
  next
    case (2 c u)
    then show ?case
      using waits_okD(2) [OF d(4), of c u] ne unfolding heads' by (cases "c = cid") (auto simp: heads_def)
  next
    case (3 c u j)
    then have c: "c \<noteq> cid" "sc_tasks s c = Some u" by (auto split: if_splits)
    then have "c \<in> set (squeue s (req u ! j))" using 3 set' [of "req u ! j"] by (auto split: if_splits)
    with 3 c waits_okD(3) [OF d(4)] show ?case unfolding heads' by blast
  qed
  moreover have "wakes_ok ?s'" by (rule wakes_ok_upd [OF d(5)]) (use t heads' in auto)
  moreover have "keeps_ok ?s'" by (rule keeps_ok_upd [OF d(6)]) (use t in \<open>auto simp: linked_def\<close>)
  moreover have "task_shape ?t'" using d(7) [OF t(1)] t(2,3) by (simp add: task_shape_def)
  ultimately show ?thesis using ls d(2,7) by (auto simp: sched_inv_def)
qed

text \<open>A due wakeup names a waiting command at the front of the queue it waits in, and only once.\<close>

lemma wakes_okD:
  assumes "wakes_ok s" "sc_wakes s = xs @ (r, cid) # ys"
  shows "\<exists>t. sc_tasks s cid = Some t \<and> tk_phase t = Waiting \<and> heads s cid (req t ! owned t)"
    and "cid \<notin> snd ` set (xs @ ys)" "distinct (map snd (xs @ ys))"
  using assms by (auto simp: wakes_ok_def)

lemma wakes_ok_remove:
  assumes "wakes_ok s" "sc_wakes s = xs @ (r, cid) # ys" "sc_wakes s' = xs @ ys"
    and "sc_tasks s' = (sc_tasks s)(cid := Some t')" "sc_latches s' = sc_latches s"
  shows "wakes_ok s'"
  unfolding wakes_ok_def
proof (intro conjI ballI, goal_cases)
  case 1
  then show ?case using wakes_okD(3) [OF assms(1,2)] assms(3) by simp
next
  case (2 rc)
  obtain r' c where rc: "rc = (r', c)" "(r', c) \<in> set (xs @ ys)" using 2 assms(3) by (metis surj_pair)
  then have "(r', c) \<in> set (sc_wakes s)" using assms(2) by auto
  then obtain t where t: "sc_tasks s c = Some t" "tk_phase t = Waiting" "heads s c (req t ! owned t)"
    "\<forall>c. r' = Some c \<longrightarrow> (\<exists>t j keep. sc_tasks s c = Some t \<and> tk_phase t = Releasing j keep)"
    using assms(1) unfolding wakes_ok_def by fastforce
  have "c \<noteq> cid" using wakes_okD(2) [OF assms(1,2)] rc(2) by force
  moreover have "\<exists>t j keep. sc_tasks s' c' = Some t \<and> tk_phase t = Releasing j keep" if r: "r' = Some c'" for c'
  proof -
    obtain u j keep where u: "sc_tasks s c' = Some u" "tk_phase u = Releasing j keep" using t(4) r by blast
    then have "c' \<noteq> cid" using wakes_okD(1) [OF assms(1,2)] by auto
    with u assms(4) show ?thesis by auto
  qed
  ultimately show ?case using rc(1) t(1-3) assms(4,5) by (auto simp: heads_def)
qed

lemma inv_woken:
  assumes inv: "sched_inv s" and w: "sc_wakes s = xs @ (None, cid) # ys"
    and t: "sc_tasks s cid = Some t" "tk_phase t = Waiting"
  shows "sched_inv (set_task cid (Some (t\<lparr>tk_phase := Acquiring (owned t)\<rparr>)) (s\<lparr>sc_wakes := xs @ ys\<rparr>))"
    (is "sched_inv ?s'")
proof -
  let ?t' = "t\<lparr>tk_phase := Acquiring (owned t)\<rparr>"
  note d = sched_invD [OF inv]
  have o: "owned t < length (req t)" using d(7) [OF t(1)] t(2) by (simp add: task_shape_def)
  have h: "holds ?t' = holds t" "waits_at ?t' = waits_at t"
    using t(2) o by (auto simp: holds_def waits_at_def fun_eq_iff)
  have front: "heads s cid (req t ! owned t)" using wakes_okD(1) [OF d(5) w] t(1) by auto
  have "queues_ok ?s' \<and> waits_ok ?s'"
    by (rule same_queues [OF d(3,4), of ?s' cid ?t'], unfold h)
      (use holds_heads [OF d(3) t(1)] queued_task [OF d(3) _ t(1)] front w in auto)
  moreover have "wakes_ok ?s'" by (rule wakes_ok_remove [OF d(5) w]) auto
  moreover have "keeps_ok ?s'" by (rule keeps_ok_upd [OF d(6)]) (use t in \<open>auto simp: linked_def\<close>)
  moreover have "task_shape ?t'" using d(7) [OF t(1)] t(2) by (simp add: task_shape_def)
  ultimately show ?thesis using d(1,2,7) by (auto simp: sched_inv_def)
qed

lemma inv_expired:
  assumes inv: "sched_inv s" and w: "sc_wakes s = xs @ (None, cid) # ys"
    and t: "sc_tasks s cid = Some t" "tk_phase t = Waiting"
  shows "sched_inv (set_task cid (Some (at_phase t (Suc (owned t)) (Releasing 0 None))) (s\<lparr>sc_wakes := xs @ ys\<rparr>))"
    (is "sched_inv ?s'")
proof -
  let ?t' = "at_phase t (Suc (owned t)) (Releasing 0 None)"
  note d = sched_invD [OF inv]
  have o: "owned t < length (req t)" using d(7) [OF t(1)] t(2) by (simp add: task_shape_def)
  have h: "set (holds ?t') = insert (req t ! owned t) (set (holds t))"
    using t(2) o by (simp add: holds_def set_take_Suc)
  have front: "heads s cid (req t ! owned t)" using wakes_okD(1) [OF d(5) w] t(1) by auto
  have "queues_ok ?s' \<and> waits_ok ?s'"
    by (rule same_queues [OF d(3,4), of ?s' cid ?t'], unfold h)
      (use holds_heads [OF d(3) t(1)] queued_task [OF d(3) _ t(1)] front w t(2) in \<open>auto simp: waits_at_def\<close>)
  moreover have "wakes_ok ?s'" by (rule wakes_ok_remove [OF d(5) w]) auto
  moreover have "keeps_ok ?s'"
    using d(6) t unfolding keeps_ok_def by (fastforce split: if_splits)
  moreover have "task_shape ?t'" using d(7) [OF t(1)] o by (simp add: task_shape_def)
  ultimately show ?thesis using d(1,2,7) by (auto simp: sched_inv_def)
qed

lemma inv_arrive:
  assumes inv: "sched_inv s" and t: "sc_tasks s cid = None" "sorted_wrt (<) (required_hashes l)"
  shows "sched_inv (set_task cid (Some \<lparr> tk_lock = l, tk_phase = Acquiring 0 \<rparr>) s)" (is "sched_inv ?s'")
proof -
  let ?t' = "\<lparr> tk_lock = l, tk_phase = Acquiring 0 \<rparr>"
  note d = sched_invD [OF inv]
  have fresh: "cid \<notin> set (squeue s h)" for h using d(3) t(1) unfolding queues_ok_def by force
  have "queues_ok ?s' \<and> waits_ok ?s'"
    by (rule same_queues [OF d(3,4), of ?s' cid ?t']) (use fresh in \<open>auto simp: holds_def\<close>)
  moreover have "wakes_ok ?s'" by (rule wakes_ok_upd [OF d(5)]) (use t in \<open>auto simp: heads_def\<close>)
  moreover have "keeps_ok ?s'" by (rule keeps_ok_upd [OF d(6)]) (use t in \<open>auto simp: linked_def\<close>)
  moreover have "task_shape ?t'" using t(2) by (simp add: task_shape_def)
  ultimately show ?thesis using d(1,2,7) by (auto simp: sched_inv_def)
qed
text \<open>What is known when a command gives up its next latch.\<close>

lemma release_facts:
  assumes inv: "sched_inv s" and t: "sc_tasks s cid = Some t" "tk_phase t = Releasing j keep" "j < owned t"
  obtains q where "squeue s (req t ! j) = cid # q" "cid \<notin> set q" "distinct q"
    "set (holds t) = insert (req t ! j) (set (holds (t\<lparr>tk_phase := Releasing (Suc j) keep\<rparr>)))"
    "\<And>g. g \<in> set (holds (t\<lparr>tk_phase := Releasing (Suc j) keep\<rparr>)) \<Longrightarrow> req t ! j < g"
    "\<And>c. c \<in> set q \<Longrightarrow> \<exists>u. sc_tasks s c = Some u \<and> tk_phase u = Waiting \<and> req u ! owned u = req t ! j \<and>
       c \<notin> snd ` set (sc_wakes s)"
    "\<And>c. heads s c (req t ! j) \<Longrightarrow> c = cid"
proof -
  let ?h = "req t ! j" and ?t' = "t\<lparr>tk_phase := Releasing (Suc j) keep\<rparr>"
  note d = sched_invD [OF inv]
  have shape: "sorted_wrt (<) (req t)" "owned t \<le> length (req t)"
    using d(7) [OF t(1)] t(2) by (simp_all add: task_shape_def)
  then have sorted: "sorted_wrt (<) (take (owned t) (req t))" "j < length (take (owned t) (req t))"
    "take (owned t) (req t) ! j = ?h"
    using t(3) by (auto intro: sorted_wrt_take)
  have h: "set (holds t) = insert ?h (set (holds ?t'))"
    using set_drop_Suc [OF sorted(2)] sorted(3) t(2) by (simp add: holds_def)
  have less: "?h < g" if "g \<in> set (holds ?t')" for g
    using sorted_nth_less_drop [OF sorted(1,2)] sorted(3) that by (simp add: holds_def)
  have "heads s cid ?h" using holds_heads [OF d(3) t(1)] h by auto
  then obtain q where q: "squeue s ?h = cid # q" by (cases "squeue s ?h") (auto simp: heads_def)
  have distinct: "cid \<notin> set q" "distinct q" using d(3) q unfolding queues_ok_def by (metis distinct.simps(2))+
  have front: "heads s c ?h \<Longrightarrow> c = cid" for c using q by (simp add: heads_def)
  have waiter: "\<exists>u. sc_tasks s c = Some u \<and> tk_phase u = Waiting \<and> req u ! owned u = ?h \<and>
      c \<notin> snd ` set (sc_wakes s)" if c: "c \<in> set q" for c
  proof -
    have "c \<noteq> cid" and queued: "c \<in> set (squeue s ?h)" using distinct(1) c q by auto
    then obtain u where u: "sc_tasks s c = Some u" "?h \<in> set (holds u) \<or> waits_at u ?h"
      using d(3) unfolding queues_ok_def by blast
    have "waits_at u ?h" using u holds_heads [OF d(3) u(1)] front \<open>c \<noteq> cid\<close> by blast
    moreover have "tk_phase u \<noteq> Acquiring i" for i
      using \<open>waits_at u ?h\<close> waits_okD(3) [OF d(4) u(1), of i] queued front \<open>c \<noteq> cid\<close>
      by (auto simp: waits_at_def)
    ultimately have w: "tk_phase u = Waiting" "req u ! owned u = ?h"
      by (auto simp: waits_at_def split: phase.splits)
    have "c \<notin> snd ` set (sc_wakes s)"
    proof
      assume "c \<in> snd ` set (sc_wakes s)"
      then obtain r where "(r, c) \<in> set (sc_wakes s)" by force
      then have "heads s c (req u ! owned u)" using d(5) u(1) unfolding wakes_ok_def by fastforce
      then show False using w front \<open>c \<noteq> cid\<close> by auto
    qed
    with u w show ?thesis by blast
  qed
  show thesis by (rule that [OF q distinct h less waiter front])
qed
lemma inv_release_pop:
  assumes inv: "sched_inv s" and t: "sc_tasks s cid = Some t" "tk_phase t = Releasing j keep" "j < owned t"
    and q: "squeue s (req t ! j) = cid # q" and ls: "wf_latches ls" "queue ls = (squeue s)(req t ! j := q)"
    and kept: "\<And>nc u n. keep = Some nc \<Longrightarrow> sc_tasks s nc = Some u \<Longrightarrow> tk_phase u = Inheriting cid n \<Longrightarrow>
      req t ! j \<notin> set (drop n (req u))"
  shows "sched_inv (set_task cid (Some (t\<lparr>tk_phase := Releasing (Suc j) keep\<rparr>)) (s\<lparr>sc_latches := ls,
     sc_wakes := sc_wakes s @ (case q of [] \<Rightarrow> [] | c # _ \<Rightarrow> [(Some cid, c)])\<rparr>))" (is "sched_inv ?s'")
proof -
  let ?h = "req t ! j" and ?t' = "t\<lparr>tk_phase := Releasing (Suc j) keep\<rparr>"
  note d = sched_invD [OF inv]
  have f: "cid \<notin> set q" "distinct q" "set (holds t) = insert ?h (set (holds ?t'))"
    "\<And>g. g \<in> set (holds ?t') \<Longrightarrow> ?h < g"
    "\<And>c. c \<in> set q \<Longrightarrow> \<exists>u. sc_tasks s c = Some u \<and> tk_phase u = Waiting \<and> req u ! owned u = ?h \<and>
       c \<notin> snd ` set (sc_wakes s)"
    "\<And>c. heads s c ?h \<Longrightarrow> c = cid"
    using release_facts [OF inv t] q by auto
  have heads': "heads ?s' c g \<longleftrightarrow> (if g = ?h then q \<noteq> [] \<and> c = hd q else heads s c g)" for c g
    by (auto simp: heads_def ls(2))
  have set': "set (squeue ?s' g) = (if g = ?h then set q else set (squeue s g))" for g
    by (simp add: ls(2))
  have sub: "c \<in> set (squeue s g)" if "c \<in> set (squeue ?s' g)" for c g
    using that q set' [of g] by (auto split: if_splits)
  have "queues_ok ?s'"
    unfolding queues_ok_def
  proof (intro conjI allI impI, goal_cases)
    case (1 g)
    then show ?case using d(3) f(2) by (auto simp: queues_ok_def ls(2))
  next
    case (2 g c)
    obtain u where u: "sc_tasks s c = Some u" "g \<in> set (holds u) \<or> waits_at u g"
      using d(3) sub [OF 2] unfolding queues_ok_def by blast
    then show ?case using 2 f(1,3) t(1,2) set' [of g] by (cases "c = cid") (auto simp: waits_at_def split: if_splits)
  next
    case (3 g c u)
    show ?case
    proof (cases "c = cid")
      case True
      then have "g \<in> set (holds ?t')" using 3 by simp
      then show ?thesis using True f(3,4) holds_heads [OF d(3) t(1), of g] unfolding heads' by auto
    next
      case False
      then show ?thesis using 3 holds_heads [OF d(3), of c u g] f(6) unfolding heads' by auto
    qed
  qed
  moreover have "waits_ok ?s'"
    unfolding waits_ok_def
  proof (intro conjI allI impI, goal_cases)
    case (1 c u)
    then have "c \<noteq> cid" "sc_tasks s c = Some u" by (auto split: if_splits)
    with 1 waits_okD(1) [OF d(4), of c u] q show ?case unfolding set' by auto
  next
    case (2 c u)
    then have "c \<noteq> cid" "sc_tasks s c = Some u" by (auto split: if_splits)
    then show ?case
      using 2 waits_okD(2) [OF d(4), of c u] heads' [of c "req u ! owned u"]
      by (cases "req u ! owned u = ?h"; cases q) auto
  next
    case (3 c u i)
    then have c: "c \<noteq> cid" "sc_tasks s c = Some u" by (auto split: if_splits)
    then have "heads s c (req u ! i)" using 3 waits_okD(3) [OF d(4) c(2)] sub by blast
    then show ?case using f(6) c(1) unfolding heads' by auto
  qed
  moreover have "wakes_ok ?s'"
    unfolding wakes_ok_def
  proof (intro conjI ballI, goal_cases)
    case 1
    then show ?case using d(5) f(5) by (cases q) (auto simp: wakes_ok_def)
  next
    case (2 rc)
    obtain r c where rc: "rc = (r, c)" by force
    consider "(r, c) \<in> set (sc_wakes s)" | "r = Some cid" "q \<noteq> []" "c = hd q"
      using 2 rc by (cases q) auto
    then show ?case
    proof cases
      case 1
      then obtain u where u: "sc_tasks s c = Some u" "tk_phase u = Waiting" "heads s c (req u ! owned u)"
        "\<forall>c. r = Some c \<longrightarrow> (\<exists>t j keep. sc_tasks s c = Some t \<and> tk_phase t = Releasing j keep)"
        using d(5) unfolding wakes_ok_def by fastforce
      then have "c \<noteq> cid" "req u ! owned u \<noteq> ?h" using t(1,2) f(6) by auto
      then show ?thesis using rc u unfolding heads' by auto
    next
      case 2
      then obtain u where "sc_tasks s c = Some u" "tk_phase u = Waiting" "req u ! owned u = ?h"
        using f(5) [of c] by auto
      moreover have "c \<noteq> cid" using 2 f(1) by auto
      ultimately show ?thesis using rc 2 unfolding heads' by auto
    qed
  qed
  moreover have "keeps_ok ?s'"
    unfolding keeps_ok_def
  proof (intro conjI allI impI, goal_cases)
    case (1 c u i nc)
    then obtain u\<^sub>0 i\<^sub>0 where u: "sc_tasks s c = Some u\<^sub>0" "tk_phase u\<^sub>0 = Releasing i\<^sub>0 (Some nc)" "c = cid \<and> u\<^sub>0 = t \<or> u\<^sub>0 = u"
      using t(1,2) by (auto split: if_splits)
    then obtain v n where v: "sc_tasks s nc = Some v" "tk_phase v = Inheriting c n" "set (drop n (req v)) \<subseteq> set (holds u\<^sub>0)"
      using d(6) unfolding keeps_ok_def by blast
    then have "nc \<noteq> cid" using t(1,2) by auto
    moreover have "set (drop n (req v)) \<subseteq> set (holds u)"
      using 1 u v kept [of nc v n] t(1,2) f(3) by (cases "c = cid") auto
    ultimately show ?case using v by auto
  next
    case (2 nc u c n)
    then have "sc_tasks s nc = Some u" by (auto split: if_splits)
    with 2 obtain v i where "sc_tasks s c = Some v" "tk_phase v = Releasing i (Some nc)"
      using d(6) unfolding keeps_ok_def by blast
    then show ?case using t(1,2) by (cases "c = cid") auto
  qed
  moreover have "task_shape ?t'" using d(7) [OF t(1)] t(2,3) by (simp add: task_shape_def)
  ultimately show ?thesis using ls d(2,7) by (auto simp: sched_inv_def)
qed
lemma keeps_ok_keep:
  assumes k: "keeps_ok s" and t: "sc_tasks s cid = Some t" "tk_phase t = Releasing j (Some nc)"
    and u: "sc_tasks s nc = Some u" "tk_phase u = Inheriting cid n" "n < length (req u)" "req u ! n = h"
      "sorted_wrt (<) (req u)"
    and holds: "set (holds t) = insert h (set (holds (t\<lparr>tk_phase := Releasing (Suc j) (Some nc)\<rparr>)))"
    and s': "sc_tasks s' = (sc_tasks s)(nc := Some (u\<lparr>tk_phase := Inheriting cid (Suc n)\<rparr>),
      cid := Some (t\<lparr>tk_phase := Releasing (Suc j) (Some nc)\<rparr>))"
  shows "keeps_ok s'"
proof -
  let ?t' = "t\<lparr>tk_phase := Releasing (Suc j) (Some nc)\<rparr>" and ?u' = "u\<lparr>tk_phase := Inheriting cid (Suc n)\<rparr>"
  have ne: "nc \<noteq> cid" using t u by auto
  have tasks': "sc_tasks s' c = Some v \<longleftrightarrow> (if c = cid then v = ?t' else if c = nc then v = ?u' else sc_tasks s c = Some v)"
    for c v using s' by auto
  have "set (drop n (req u)) \<subseteq> set (holds t)"
    using k t u(1,2) unfolding keeps_ok_def by fastforce
  moreover have "h \<notin> set (drop (Suc n) (req u))"
    using sorted_nth_less_drop [OF u(5,3)] u(4) by auto
  ultimately have sub: "set (drop (Suc n) (req u)) \<subseteq> set (holds ?t')"
    using holds set_drop_Suc [OF u(3)] by auto
  show ?thesis
    unfolding keeps_ok_def
  proof (intro conjI allI impI, goal_cases)
    case (1 c v i nd)
    show ?case
    proof (cases "c = cid")
      case True
      then have "nd = nc" "v = ?t'" using 1 unfolding tasks' by auto
      then show ?thesis using True ne sub unfolding tasks' by auto
    next
      case False
      then have v: "sc_tasks s c = Some v" using 1 unfolding tasks' by (auto split: if_splits)
      with 1 obtain x m where x: "sc_tasks s nd = Some x" "tk_phase x = Inheriting c m" "set (drop m (req x)) \<subseteq> set (holds v)"
        using k unfolding keeps_ok_def by blast
      then have "nd \<noteq> cid" "nd \<noteq> nc" using t u False by auto
      then show ?thesis using x unfolding tasks' by auto
    qed
  next
    case (2 nd x c m)
    show ?case
    proof (cases "nd = nc")
      case True
      then have "c = cid" using 2 ne unfolding tasks' by auto
      then show ?thesis using True unfolding tasks' by auto
    next
      case False
      then have "sc_tasks s nd = Some x" using 2 unfolding tasks' by (auto split: if_splits)
      with 2 obtain v i where v: "sc_tasks s c = Some v" "tk_phase v = Releasing i (Some nd)"
        using k unfolding keeps_ok_def by blast
      then have "c \<noteq> cid" "c \<noteq> nc" using t u False by auto
      then show ?thesis using v unfolding tasks' by auto
    qed
  qed
qed

lemma inv_release_keep:
  assumes inv: "sched_inv s" and t: "sc_tasks s cid = Some t" "tk_phase t = Releasing j (Some nc)" "j < owned t"
    and u: "sc_tasks s nc = Some u" "tk_phase u = Inheriting cid n" "n < length (req u)" "req u ! n = req t ! j"
    and q: "squeue s (req t ! j) = cid # q" and ls: "wf_latches ls" "queue ls = (squeue s)(req t ! j := nc # q)"
  shows "sched_inv (set_task cid (Some (t\<lparr>tk_phase := Releasing (Suc j) (Some nc)\<rparr>))
     ((set_task nc (Some (u\<lparr>tk_phase := Inheriting cid (Suc n)\<rparr>)) s)\<lparr>sc_latches := ls\<rparr>))" (is "sched_inv ?s'")
proof -
  let ?h = "req t ! j" and ?t' = "t\<lparr>tk_phase := Releasing (Suc j) (Some nc)\<rparr>"
    and ?u' = "u\<lparr>tk_phase := Inheriting cid (Suc n)\<rparr>"
  note d = sched_invD [OF inv]
  have f: "cid \<notin> set q" "distinct q" "set (holds t) = insert ?h (set (holds ?t'))"
    "\<And>g. g \<in> set (holds ?t') \<Longrightarrow> ?h < g" "\<And>c. heads s c ?h \<Longrightarrow> c = cid"
    using release_facts [OF inv t] q by auto
  have ne: "nc \<noteq> cid" using t u by auto
  have shape_u: "sorted_wrt (<) (req u)" using d(7) [OF u(1)] by (simp add: task_shape_def)
  have hu: "set (holds ?u') = insert ?h (set (holds u))" using u by (simp add: holds_def set_take_Suc)
  have "?h \<notin> set (holds u)"
    using sorted_nth_notin_take [OF shape_u u(3)] u(2,4) by (auto simp: holds_def)
  then have new: "nc \<notin> set (squeue s ?h)"
    using queued_task [OF d(3) _ u(1), of ?h] u(2) by (auto simp: waits_at_def)
  have heads': "heads ?s' c g \<longleftrightarrow> (if g = ?h then c = nc else heads s c g)" for c g
    by (auto simp: heads_def ls(2))
  have set': "set (squeue ?s' g) = (if g = ?h then insert nc (set q) else set (squeue s g))" for g
    by (simp add: ls(2))
  have sub: "c \<in> set (squeue s g) \<or> c = nc \<and> g = ?h" if "c \<in> set (squeue ?s' g)" for c g
    using that q set' [of g] by (auto split: if_splits)
  have tasks': "sc_tasks ?s' c = Some v \<longleftrightarrow> (if c = cid then v = ?t' else if c = nc then v = ?u' else sc_tasks s c = Some v)"
    for c v by auto
  have "queues_ok ?s'"
    unfolding queues_ok_def
  proof (intro conjI allI impI, goal_cases)
    case (1 g)
    then show ?case using d(3) f(2) new q by (auto simp: queues_ok_def ls(2))
  next
    case (2 g c)
    show ?case
    proof (cases "c = nc \<and> g = ?h")
      case True
      then show ?thesis using hu ne by auto
    next
      case False
      then have c: "c \<in> set (squeue s g)" using sub [OF 2] by blast
      then obtain v where v: "sc_tasks s c = Some v" "g \<in> set (holds v) \<or> waits_at v g"
        using d(3) unfolding queues_ok_def by blast
      show ?thesis
        using v 2 f(1,3) t(1,2) u(1,2) hu set' [of g] ne False
        by (cases "c = cid"; cases "c = nc") (auto simp: waits_at_def split: if_splits)
    qed
  next
    case (3 g c v)
    then consider "c = cid" "g \<in> set (holds ?t')" | "c = nc" "g \<in> set (holds ?u')"
      | "c \<noteq> cid" "sc_tasks s c = Some v" "g \<in> set (holds v)" unfolding tasks' by (auto split: if_splits)
    then show ?case
      using f(3,4,5) hu holds_heads [OF d(3)] t(1) u(1) unfolding heads' by cases fastforce+
  qed
  moreover have "waits_ok ?s'"
    unfolding waits_ok_def
  proof (intro conjI allI impI, goal_cases)
    case (1 c v)
    then have "c \<noteq> cid" "sc_tasks s c = Some v" unfolding tasks' by (auto split: if_splits)
    with 1 waits_okD(1) [OF d(4), of c v] q show ?case unfolding set' by auto
  next
    case (2 c v)
    then have "c \<noteq> nc" "sc_tasks s c = Some v" unfolding tasks' by (auto split: if_splits)
    then show ?case using 2 waits_okD(2) [OF d(4), of c v] unfolding heads' by (auto split: if_splits)
  next
    case (3 c v i)
    then have c: "c \<noteq> cid" "c \<noteq> nc" "sc_tasks s c = Some v" unfolding tasks' by (auto split: if_splits)
    then have "heads s c (req v ! i)" using 3 waits_okD(3) [OF d(4) c(3)] sub by blast
    then show ?case using f(5) c(1) unfolding heads' by auto
  qed
  moreover have "wakes_ok ?s'"
    unfolding wakes_ok_def
  proof (intro conjI ballI, goal_cases)
    case 1
    then show ?case using d(5) by (simp add: wakes_ok_def)
  next
    case (2 rc)
    obtain r c where rc: "rc = (r, c)" by force
    then obtain v where v: "sc_tasks s c = Some v" "tk_phase v = Waiting" "heads s c (req v ! owned v)"
      "\<forall>c. r = Some c \<longrightarrow> (\<exists>t j keep. sc_tasks s c = Some t \<and> tk_phase t = Releasing j keep)"
      using 2 d(5) unfolding wakes_ok_def by fastforce
    then have "c \<noteq> cid" "c \<noteq> nc" "req v ! owned v \<noteq> ?h" using t(1,2) u(1,2) f(5) by auto
    then show ?case using rc v u(1,2) unfolding heads' by auto
  qed
  moreover have "keeps_ok ?s'"
    by (rule keeps_ok_keep [OF d(6) t(1,2) u shape_u f(3)]) simp
  moreover have "task_shape ?t'" "task_shape ?u'"
    using d(7) [OF t(1)] d(7) [OF u(1)] t(2,3) u(2,3) by (simp_all add: task_shape_def)
  ultimately show ?thesis using ls d(2,7) by (auto simp: sched_inv_def)
qed
text \<open>A command that has left all queues can go.\<close>

lemma queues_ok_remove:
  assumes "queues_ok s" "waits_ok s" "\<And>h. cid \<notin> set (squeue s h)" "sc_latches s' = sc_latches s"
    and "sc_tasks s' = (sc_tasks s)(cid := None)" "snd ` set (sc_wakes s') = snd ` set (sc_wakes s)"
  shows "queues_ok s' \<and> waits_ok s'"
proof -
  have heads': "heads s' = heads s" using assms(4) by (simp add: heads_def fun_eq_iff)
  have tasks': "sc_tasks s' c = Some u \<longleftrightarrow> c \<noteq> cid \<and> sc_tasks s c = Some u" for c u using assms(5) by auto
  show ?thesis
    using assms(1-3) unfolding queues_ok_def waits_ok_def heads' tasks' assms(4,6) by blast
qed

text \<open>The follow-up command that has been handed all its latches.\<close>

definition handed :: "scheduler \<Rightarrow> u64 \<Rightarrow> u64 option \<Rightarrow> bool" where
  "handed s cid keep \<longleftrightarrow>
     (\<forall>nc. keep = Some nc \<longrightarrow> (\<exists>u. sc_tasks s nc = Some u \<and> tk_phase u = Inheriting cid (length (req u))))"

lemma hand_over_queues:
  assumes inv: "sched_inv s" and keep: "handed s cid keep"
  shows "queues_ok (hand_over keep s) \<and> waits_ok (hand_over keep s)"
proof (cases keep)
  case None
  then show ?thesis using sched_invD [OF inv] by (simp add: hand_over_def)
next
  case (Some nc)
  note d = sched_invD [OF inv]
  obtain u where u: "sc_tasks s nc = Some u" "tk_phase u = Inheriting cid (length (req u))"
    using keep Some by (auto simp: handed_def)
  let ?u' = "\<lparr> tk_lock = force_assume_acquired (tk_lock u), tk_phase = Acquiring (length (req u)) \<rparr>"
  have h: "holds ?u' = holds u" using u(2) by (simp add: holds_def force_assume_acquired_def)
  have "queues_ok (set_task nc (Some ?u') s) \<and> waits_ok (set_task nc (Some ?u') s)"
    by (rule same_queues [OF d(3,4), of _ nc ?u'], unfold h)
      (use holds_heads [OF d(3) u(1)] queued_task [OF d(3) _ u(1)] u(2) in
        \<open>auto simp: waits_at_def force_assume_acquired_def\<close>)
  then show ?thesis using Some u(1) by (simp add: hand_over_def)
qed

lemma hand_over_simps [simp]: "sc_latches (hand_over keep s) = sc_latches s" "sc_wakes (hand_over keep s) = sc_wakes s"
  by (simp_all add: hand_over_def split: option.split)

lemma hand_over_tasks:
  assumes "handed s cid keep"
  shows "sc_tasks (hand_over keep s) c =
    (if keep = Some c then map_option (\<lambda>u. \<lparr> tk_lock = force_assume_acquired (tk_lock u),
        tk_phase = Acquiring (length (req u)) \<rparr>) (sc_tasks s c) else sc_tasks s c)"
  using assms by (auto simp: hand_over_def handed_def split: option.split)

lemma inv_release_done:
  assumes inv: "sched_inv s" and t: "sc_tasks s cid = Some t" "tk_phase t = Releasing j keep" "j = owned t"
    and no_keep: "keep_hashes s keep = []"
  shows "sched_inv (set_task cid None (hand_over keep
     (s\<lparr>sc_wakes := map (\<lambda>(r, w). (if r = Some cid then None else r, w)) (sc_wakes s)\<rparr>)))" (is "sched_inv ?s'")
proof -
  let ?w = "map (\<lambda>(r, w). (if r = Some cid then None else r, w)) (sc_wakes s)"
  let ?s = "s\<lparr>sc_wakes := ?w\<rparr>"
  note d = sched_invD [OF inv]
  have snd: "map snd ?w = map snd (sc_wakes s)" by (simp add: case_prod_unfold)
  have handed: "handed s cid keep"
    unfolding handed_def
  proof (intro allI impI)
    fix nc assume "keep = Some nc"
    then obtain u n where u: "sc_tasks s nc = Some u" "tk_phase u = Inheriting cid n"
      using d(6) t(1,2) unfolding keeps_ok_def by blast
    have "n \<le> length (req u)" using d(7) [OF u(1)] u(2) by (simp add: task_shape_def)
    then have "n = length (req u)" using no_keep u \<open>keep = Some nc\<close> by (simp add: keep_hashes_def)
    then show "\<exists>u. sc_tasks s nc = Some u \<and> tk_phase u = Inheriting cid (length (req u))" using u by blast
  qed
  have gone: "cid \<notin> set (squeue s h)" for h
    using queued_task [OF d(3) _ t(1), of h] t(2,3) by (auto simp: holds_def waits_at_def)
  have w: "snd ` set ?w = snd ` set (sc_wakes s)" using arg_cong [OF snd, of set] by (simp add: image_image)
  have qw: "queues_ok ?s' \<and> waits_ok ?s'"
    by (rule queues_ok_remove [of "hand_over keep s" cid])
      (use hand_over_queues [OF inv handed] gone w in \<open>auto simp: hand_over_def split: option.split\<close>)
  have tasks': "sc_tasks ?s' c = (if c = cid then None else sc_tasks (hand_over keep s) c)" for c
    by (simp add: hand_over_def split: option.split)
  have kept: "sc_tasks ?s' c = Some u \<longleftrightarrow> sc_tasks s c = Some u"
    if "c \<noteq> cid" "keep \<noteq> Some c" for c u
    using that unfolding tasks' hand_over_tasks [OF handed] by simp
  have heads': "heads ?s' = heads s" by (simp add: heads_def fun_eq_iff)
  have nc: "keep \<noteq> Some c" if "sc_tasks s c = Some u" "\<And>r n. tk_phase u \<noteq> Inheriting r n" for c u
    using handed that by (auto simp: handed_def)
  have "wakes_ok ?s'"
    unfolding wakes_ok_def
  proof (intro conjI ballI, goal_cases)
    case 1
    have "sc_wakes ?s' = ?w" by simp
    then show ?case using d(5) unfolding wakes_ok_def by (simp only: snd)
  next
    case (2 rc)
    then obtain r c where rc: "rc = (if r = Some cid then None else r, c)" "(r, c) \<in> set (sc_wakes s)" by auto
    then obtain u where u: "sc_tasks s c = Some u" "tk_phase u = Waiting" "heads s c (req u ! owned u)"
      "\<forall>c. r = Some c \<longrightarrow> (\<exists>t j keep. sc_tasks s c = Some t \<and> tk_phase t = Releasing j keep)"
      using d(5) unfolding wakes_ok_def by fastforce
    have "c \<noteq> cid" "keep \<noteq> Some c" using u(1,2) t(1,2) nc [OF u(1)] by auto
    moreover have "\<exists>t j keep. sc_tasks ?s' c' = Some t \<and> tk_phase t = Releasing j keep"
      if r: "r = Some c'" "c' \<noteq> cid" for c'
    proof -
      obtain v i k where v: "sc_tasks s c' = Some v" "tk_phase v = Releasing i k" using u(4) r by blast
      then show ?thesis using kept [OF r(2)] nc [OF v(1)] by auto
    qed
    ultimately show ?case using rc(1) u(1-3) kept [of c u] unfolding heads' by auto
  qed
  moreover have "keeps_ok ?s'"
    unfolding keeps_ok_def
  proof (intro conjI allI impI, goal_cases)
    case (1 c v i nd)
    then have c: "c \<noteq> cid" "keep \<noteq> Some c" unfolding tasks' hand_over_tasks [OF handed] by (auto split: if_splits)
    then have v: "sc_tasks s c = Some v" using 1 kept by blast
    with 1 obtain x m where x: "sc_tasks s nd = Some x" "tk_phase x = Inheriting c m" "set (drop m (req x)) \<subseteq> set (holds v)"
      using d(6) unfolding keeps_ok_def by blast
    then have "nd \<noteq> cid" "keep \<noteq> Some nd" using t(1,2) c(1) handed by (auto simp: handed_def)
    then show ?case using x kept by blast
  next
    case (2 nd x c m)
    then have nd: "nd \<noteq> cid" "keep \<noteq> Some nd" unfolding tasks' hand_over_tasks [OF handed] by (auto split: if_splits)
    then have "sc_tasks s nd = Some x" using 2 kept by blast
    with 2 obtain v i where v: "sc_tasks s c = Some v" "tk_phase v = Releasing i (Some nd)"
      using d(6) unfolding keeps_ok_def by blast
    then have "c \<noteq> cid" using t(1,2) nd(2) by auto
    then show ?case using v kept nc [OF v(1)] by auto
  qed
  moreover have "task_shape v" if v: "sc_tasks ?s' c = Some v" for c v
  proof (cases "keep = Some c")
    case True
    then obtain u where "sc_tasks s c = Some u" "v = \<lparr> tk_lock = force_assume_acquired (tk_lock u),
        tk_phase = Acquiring (length (req u)) \<rparr>"
      using v unfolding tasks' hand_over_tasks [OF handed] by (auto split: if_splits)
    then show ?thesis using d(7) by (simp add: task_shape_def force_assume_acquired_def)
  next
    case False
    then show ?thesis using v d(7) kept [of c v] tasks' [of c] by (auto split: if_splits)
  qed
  moreover have "finite (dom (sc_tasks ?s'))"
  proof (rule finite_subset [OF _ d(2)])
    show "dom (sc_tasks ?s') \<subseteq> dom (sc_tasks s)"
      unfolding dom_def tasks' hand_over_tasks [OF handed] by auto
  qed
  ultimately show ?thesis using d(1) qw unfolding sched_inv_def by simp
qed

lemma inv_finished_keeping:
  assumes inv: "sched_inv s" and t: "sc_tasks s cid = Some t" "tk_phase t = Running" and nc: "sc_tasks s nc = None"
    and l: "sorted_wrt (<) (required_hashes l)" "set (required_hashes l) \<subseteq> set (req t)"
  shows "sched_inv (set_task cid (Some (t\<lparr>tk_phase := Releasing 0 (Some nc)\<rparr>))
     (set_task nc (Some \<lparr> tk_lock = l, tk_phase = Inheriting cid 0 \<rparr>) s))" (is "sched_inv (set_task cid (Some ?t') ?s\<^sub>1)")
proof -
  let ?u = "\<lparr> tk_lock = l, tk_phase = Inheriting cid 0 \<rparr>" and ?s' = "set_task cid (Some ?t') ?s\<^sub>1"
  note d = sched_invD [OF inv]
  have ne: "nc \<noteq> cid" using t(1) nc by auto
  have fresh: "nc \<notin> set (squeue s h)" for h using d(3) nc unfolding queues_ok_def by force
  have h: "holds ?t' = holds t"
    using d(7) [OF t(1)] t(2) by (simp add: holds_def task_shape_def)
  have qw\<^sub>1: "queues_ok ?s\<^sub>1 \<and> waits_ok ?s\<^sub>1"
    by (rule same_queues [OF d(3,4), of ?s\<^sub>1 nc ?u]) (use fresh in \<open>auto simp: holds_def\<close>)
  have qw: "queues_ok ?s' \<and> waits_ok ?s'"
    by (rule same_queues [OF qw\<^sub>1 [THEN conjunct1] qw\<^sub>1 [THEN conjunct2], of ?s' cid ?t'], unfold h)
      (use holds_heads [OF d(3) t(1)] queued_task [OF d(3) _ t(1)] t(2) in \<open>auto simp: waits_at_def heads_def\<close>)
  have "wakes_ok ?s\<^sub>1" by (rule wakes_ok_upd [OF d(5)]) (use nc in \<open>auto simp: heads_def\<close>)
  then have "wakes_ok ?s'" by (rule wakes_ok_upd) (use t ne in \<open>auto simp: heads_def\<close>)
  moreover have "keeps_ok ?s'"
    unfolding keeps_ok_def
  proof (intro conjI allI impI, goal_cases)
    case (1 c v i nd)
    show ?case
    proof (cases "c = cid")
      case True
      then show ?thesis using 1 ne l(2) h t(2) by (auto simp: holds_def)
    next
      case False
      then have v: "sc_tasks s c = Some v" using 1 by (auto split: if_splits)
      with 1 obtain x m where x: "sc_tasks s nd = Some x" "tk_phase x = Inheriting c m" "set (drop m (req x)) \<subseteq> set (holds v)"
        using d(6) unfolding keeps_ok_def by blast
      then have "nd \<noteq> cid" "nd \<noteq> nc" using t nc by auto
      then show ?thesis using x by auto
    qed
  next
    case (2 nd x c m)
    show ?case
    proof (cases "nd = nc")
      case True
      then show ?thesis using 2 ne by auto
    next
      case False
      then have "sc_tasks s nd = Some x" using 2 by (auto split: if_splits)
      with 2 obtain v i where v: "sc_tasks s c = Some v" "tk_phase v = Releasing i (Some nd)"
        using d(6) unfolding keeps_ok_def by blast
      then have "c \<noteq> cid" "c \<noteq> nc" using t nc by auto
      then show ?thesis using v by auto
    qed
  qed
  moreover have "task_shape ?t'" "task_shape ?u"
    using d(7) [OF t(1)] t(2) l(1) by (simp_all add: task_shape_def)
  ultimately show ?thesis using qw d(1,2,7) by (auto simp: sched_inv_def)
qed
lemma keep_hashes_cases:
  assumes "keeps_ok s" "sc_tasks s cid = Some t" "tk_phase t = Releasing j keep" "keep_hashes s keep \<noteq> []"
  obtains nc u n where "keep = Some nc" "sc_tasks s nc = Some u" "tk_phase u = Inheriting cid n"
    "set (drop n (req u)) \<subseteq> set (holds t)" "keep_hashes s keep = drop n (req u)"
proof (cases keep)
  case None
  then show thesis using assms(4) by (simp add: keep_hashes_def)
next
  case (Some nc)
  then obtain u n where "sc_tasks s nc = Some u" "tk_phase u = Inheriting cid n" "set (drop n (req u)) \<subseteq> set (holds t)"
    using assms(1-3) unfolding keeps_ok_def by blast
  with Some that show thesis by (simp add: keep_hashes_def)
qed

text \<open>Releasing one latch never panics: the command is at the front, and kept hashes come in order.\<close>

lemma released_cases:
  assumes inv: "sched_inv s" and t: "sc_tasks s cid = Some t" "tk_phase t = Releasing j keep" "j < owned t"
  obtains (pop) q ls where "squeue s (req t ! j) = cid # q" "wf_latches ls" "queue ls = (squeue s)(req t ! j := q)"
      "release_one (sc_latches s) (req t ! j) cid keep (keep_hashes s keep) =
        (Ok (case q of [] \<Rightarrow> None | c # _ \<Rightarrow> Some c, keep_hashes s keep, ls) :: (unit, _) result)"
      "\<And>nc u n. keep = Some nc \<Longrightarrow> sc_tasks s nc = Some u \<Longrightarrow> tk_phase u = Inheriting cid n \<Longrightarrow>
         req t ! j \<notin> set (drop n (req u))"
    | (keep) nc u n q ls where "keep = Some nc" "sc_tasks s nc = Some u" "tk_phase u = Inheriting cid n"
      "n < length (req u)" "req u ! n = req t ! j" "squeue s (req t ! j) = cid # q" "wf_latches ls"
      "queue ls = (squeue s)(req t ! j := nc # q)"
      "release_one (sc_latches s) (req t ! j) cid keep (keep_hashes s keep) =
        (Ok (None, drop (Suc n) (req u), ls) :: (unit, _) result)" "keep_hashes s keep = drop n (req u)"
proof -
  let ?h = "req t ! j"
  note d = sched_invD [OF inv]
  obtain q where f: "squeue s ?h = cid # q" "set (holds t) = insert ?h (set (holds (t\<lparr>tk_phase := Releasing (Suc j) keep\<rparr>)))"
    "\<And>g. g \<in> set (holds (t\<lparr>tk_phase := Releasing (Suc j) keep\<rparr>)) \<Longrightarrow> ?h < g"
    using release_facts [OF inv t] by metis
  have min: "?h \<le> g" if "g \<in> set (holds t)" for g using f(2,3) that by fastforce
  show thesis
  proof (cases "keep_hashes s keep \<noteq> [] \<and> hd (keep_hashes s keep) = ?h")
    case True
    then have kept: "keep_hashes s keep \<noteq> []" by blast
    obtain nc u n where u: "keep = Some nc" "sc_tasks s nc = Some u" "tk_phase u = Inheriting cid n"
      and kh: "keep_hashes s keep = drop n (req u)"
      by (rule keep_hashes_cases [OF d(6) t(1,2) kept])
    have n: "n < length (req u)" "req u ! n = ?h" using True kh by (auto simp: hd_drop_conv_nth)
    obtain ls' where "release_one (sc_latches s) ?h cid keep (keep_hashes s keep) =
        (Ok (if keep_hashes s keep \<noteq> [] \<and> hd (keep_hashes s keep) = ?h then (None, tl (keep_hashes s keep), ls')
          else (case q of [] \<Rightarrow> None | c # _ \<Rightarrow> Some c, keep_hashes s keep, ls')) :: (unit, _) result)" "wf_latches ls'"
      "queue ls' = (squeue s)(?h := (if keep_hashes s keep \<noteq> [] \<and> hd (keep_hashes s keep) = ?h then nc # q else q))"
      by (rule release_one_view [OF d(1) f(1), where keep_cid = keep and nxt = nc and keep_it = "keep_hashes s keep"])
        (use True u(1) in auto)
    then show thesis using True kh n f(1) u by (intro keep [of nc u n q ls']) (auto simp: tl_drop drop_Suc)
  next
    case False
    have keep_hd: "keep_hashes s keep = [] \<or> ?h < hd (keep_hashes s keep)"
    proof (cases "keep_hashes s keep = []")
      case False
      obtain nc u n where u: "keep = Some nc" "sc_tasks s nc = Some u" "tk_phase u = Inheriting cid n"
        "set (drop n (req u)) \<subseteq> set (holds t)" "keep_hashes s keep = drop n (req u)"
        by (rule keep_hashes_cases [OF d(6) t(1,2) False])
      then have "hd (keep_hashes s keep) \<in> set (holds t)" using False by (metis hd_in_set subsetD)
      then have "?h \<le> hd (keep_hashes s keep)" by (rule min)
      then show ?thesis using \<open>\<not> (keep_hashes s keep \<noteq> [] \<and> hd (keep_hashes s keep) = ?h)\<close> False by auto
    qed simp
    obtain ls' where ls': "release_one (sc_latches s) ?h cid keep (keep_hashes s keep) =
        (Ok (if keep_hashes s keep \<noteq> [] \<and> hd (keep_hashes s keep) = ?h then (None, tl (keep_hashes s keep), ls')
          else (case q of [] \<Rightarrow> None | c # _ \<Rightarrow> Some c, keep_hashes s keep, ls')) :: (unit, _) result)" "wf_latches ls'"
      "queue ls' = (squeue s)(?h := (if keep_hashes s keep \<noteq> [] \<and> hd (keep_hashes s keep) = ?h then cid # q else q))"
      by (rule release_one_view [OF d(1) f(1), where keep_cid = keep and nxt = cid and keep_it = "keep_hashes s keep"])
        (use keep_hd in auto)
    show thesis
    proof (rule pop [OF f(1) ls'(2)])
      fix nc u n
      assume u: "keep = Some nc" "sc_tasks s nc = Some u" "tk_phase u = Inheriting cid n"
      then have kh: "keep_hashes s keep = drop n (req u)" by (simp add: keep_hashes_def)
      have "sorted_wrt (<) (drop n (req u))" using d(7) [OF u(2)] by (auto simp: task_shape_def sorted_wrt_drop)
      then show "?h \<notin> set (drop n (req u))" using keep_hd kh by (cases "drop n (req u)") auto
    qed (use ls' False in auto)
  qed
qed

lemma inv_released:
  assumes inv: "sched_inv s" and t: "sc_tasks s cid = Some t" "tk_phase t = Releasing j keep" "j < owned t"
    and one: "release_one (sc_latches s) (req t ! j) cid keep (keep_hashes s keep) =
       (Ok (wakeup, keep_it, ls) :: (unit, _) result)"
    and s': "s' = (if keep_it = keep_hashes s keep then s else inherit keep s)"
  shows "sched_inv (set_task cid (Some (t\<lparr>tk_phase := Releasing (Suc j) keep\<rparr>)) (s'\<lparr>sc_latches := ls,
     sc_wakes := sc_wakes s @ (case wakeup of Some w \<Rightarrow> [(Some cid, w)] | None \<Rightarrow> [])\<rparr>))"
  using inv t
proof (cases rule: released_cases [consumes 4, case_names pop keep])
  case (pop q ls')
  then show ?thesis
    using inv_release_pop [OF inv t pop(1-3,5)] one s' by (cases q) auto
next
  case (keep nc u n q ls')
  then have "keep_it \<noteq> keep_hashes s (Some nc)" using one by (auto dest: arg_cong [of _ _ length])
  then have "s' = set_task nc (Some (u\<lparr>tk_phase := Inheriting cid (Suc n)\<rparr>)) s" "wakeup = None" "ls' = ls"
    using s' keep(1-3,9) one by (auto simp: inherit_def)
  then have eq: "s'\<lparr>sc_latches := ls, sc_wakes := sc_wakes s @ (case wakeup of Some w \<Rightarrow> [(Some cid, w)] | None \<Rightarrow> [])\<rparr> =
      set_task nc (Some (u\<lparr>tk_phase := Inheriting cid (Suc n)\<rparr>)) s\<lparr>sc_latches := ls'\<rparr>"
    by (simp add: set_task_def)
  show ?thesis
    unfolding eq using inv_release_keep [OF inv t(1) _ t(3) keep(2-8)] t(2) keep(1) by simp
qed
lemma work_step_inv: "work_step s s' \<Longrightarrow> sched_inv s \<Longrightarrow> sched_inv s'"
  by (induction rule: work_step.induct)
    (blast intro: inv_granted inv_blocked inv_scheduled inv_woken inv_expired inv_finished inv_released
      inv_release_done)+

lemma sched_step_inv: "sched_step hash s s' \<Longrightarrow> sched_inv s \<Longrightarrow> sched_inv s'"
  by (induction rule: sched_step.induct)
    (blast intro: work_step_inv inv_arrive inv_finished_keeping latch_lock_new_sorted)+

lemma scheduler_new_inv: "n \<le> 2 ^ 63 \<Longrightarrow> sched_inv (scheduler_new n)"
  using wf_latches_new [of n]
  by (simp add: sched_inv_def scheduler_new_def queues_ok_def waits_ok_def wakes_ok_def keeps_ok_def)

lemma reachable_inv:
  assumes "(sched_step hash)\<^sup>*\<^sup>* (scheduler_new n) s" "n \<le> 2 ^ 63"
  shows "sched_inv s"
  using assms(1) by (induction rule: rtranclp_induct) (auto intro: scheduler_new_inv [OF assms(2)] sched_step_inv)

section \<open>Progress\<close>

lemma acquiring_steps:
  assumes inv: "sched_inv s" and t: "sc_tasks s cid = Some t" "tk_phase t = Acquiring i"
  shows "\<exists>s'. work_step s s'"
proof (cases "i < length (req t)")
  case True
  obtain ls' where "acquire_one (sc_latches s) (req t ! i) cid =
      (Ok (squeue s (req t ! i) = [] \<or> hd (squeue s (req t ! i)) = cid, ls') :: (unit, _) result)"
    by (rule acquire_one_view [OF sched_invD(1) [OF inv]])
  then show ?thesis
    using granted [OF t True] blocked [OF t True] by (cases "squeue s (req t ! i) = [] \<or> hd (squeue s (req t ! i)) = cid") auto
next
  case False
  moreover have "i \<le> length (req t)" using sched_invD(7) [OF inv t(1)] t(2) by (simp add: task_shape_def)
  ultimately show ?thesis using scheduled [OF t] by auto
qed

lemma releasing_steps:
  assumes inv: "sched_inv s" and t: "sc_tasks s cid = Some t" "tk_phase t = Releasing j keep"
  shows "\<exists>s'. work_step s s'"
proof (cases "j < owned t")
  case True
  from inv t True show ?thesis
  proof (cases rule: released_cases [consumes 4, case_names pop keep])
    case pop
    from released [OF t True pop(4) refl] show ?thesis by blast
  next
    case keep
    from released [OF t True keep(9) refl] show ?thesis by blast
  qed
next
  case False
  note d = sched_invD [OF inv]
  have j: "j = owned t" using False d(7) [OF t(1)] t(2) by (simp add: task_shape_def)
  then have "holds t = []" using t(2) by (simp add: holds_def)
  then have "keep_hashes s keep = []"
    using keep_hashes_cases [OF d(6) t] by (metis empty_set subset_empty set_empty)
  then show ?thesis using release_done [OF t j] by blast
qed

text \<open>
  When every command waits, take the one that waits for the largest hash: whoever is ahead of it
  holds that hash and can only wait for a larger one, so the front of that queue has been woken.
\<close>

lemma waiting_woken:
  assumes inv: "sched_inv s" and all: "\<And>c t. sc_tasks s c = Some t \<Longrightarrow> tk_phase t = Waiting"
    and some: "sc_tasks s cid = Some t"
  shows "\<exists>c u. c \<in> snd ` set (sc_wakes s) \<and> sc_tasks s c = Some u"
proof -
  note d = sched_invD [OF inv]
  let ?at = "\<lambda>c. (\<lambda>t. req t ! owned t) (the (sc_tasks s c))"
  let ?A = "?at ` dom (sc_tasks s)"
  have fin: "finite ?A" "?A \<noteq> {}" using d(2) some by auto
  have "Max ?A \<in> ?A" by (rule Max_in [OF fin])
  then obtain c where c: "c \<in> dom (sc_tasks s)" "Max ?A = ?at c" by (rule imageE) blast
  have max: "?at b \<le> ?at c" if "b \<in> dom (sc_tasks s)" for b
    using Max_ge [OF fin(1) imageI [OF that]] c(2) by simp
  obtain u where u: "sc_tasks s c = Some u" using c(1) by blast
  let ?h = "req u ! owned u"
  have queued: "c \<in> set (squeue s ?h)" by (rule waits_okD(1) [OF d(4) u all [OF u]])
  define b where "b = hd (squeue s ?h)"
  have b: "heads s b ?h" "b \<in> set (squeue s ?h)" using queued by (auto simp: b_def heads_def intro: hd_in_set)
  then obtain v where v: "sc_tasks s b = Some v" "?h \<in> set (holds v) \<or> waits_at v ?h"
    using d(3) unfolding queues_ok_def by blast
  have shape: "sorted_wrt (<) (req v)" "owned v < length (req v)"
    using d(7) [OF v(1)] all [OF v(1)] by (simp_all add: task_shape_def)
  have "?h \<notin> set (holds v)"
    using sorted_nth_notin_take [OF shape, of ?h] max [of b, OF domI, of v] u v(1) all [OF v(1)] by (auto simp: holds_def)
  then have "?h = req v ! owned v" using v(2) all [OF v(1)] by (simp add: waits_at_def)
  then have "b \<in> snd ` set (sc_wakes s)" using waits_okD(2) [OF d(4) v(1) all [OF v(1)]] b(1) by simp
  with v(1) show ?thesis by blast
qed

lemma sched_progress:
  assumes inv: "sched_inv s" and some: "sc_tasks s cid = Some t"
  shows "\<exists>s'. work_step s s'"
proof (cases "\<forall>c t. sc_tasks s c = Some t \<longrightarrow> tk_phase t = Waiting")
  case True
  then obtain c u where c: "c \<in> snd ` set (sc_wakes s)" "sc_tasks s c = Some u"
    using waiting_woken [OF inv _ some] by blast
  then obtain r where r: "(r, c) \<in> set (sc_wakes s)" by force
  then have "r = None"
    using sched_invD(5) [OF inv] True unfolding wakes_ok_def by (cases r) fastforce+
  then show ?thesis using woken [of s _ c _ u] r c(2) True by (metis in_set_conv_decomp)
next
  case False
  then obtain c u where u: "sc_tasks s c = Some u" "tk_phase u \<noteq> Waiting" by blast
  show ?thesis
  proof (cases "tk_phase u")
    case (Inheriting r n)
    then obtain v j where "sc_tasks s r = Some v" "tk_phase v = Releasing j (Some c)"
      using sched_invD(6) [OF inv] u(1) unfolding keeps_ok_def by blast
    then show ?thesis by (rule releasing_steps [OF inv])
  qed (use u acquiring_steps [OF inv u(1)] releasing_steps [OF inv u(1)] finished [OF u(1)] in blast)+
qed
section \<open>Commands finish\<close>

text \<open>
  What a command has still to do, counted so that every step of its own lowers it: three for each
  latch to acquire (queued, woken, granted), one for each latch to release.
\<close>

definition rank :: "scheduler \<Rightarrow> u64 \<Rightarrow> nat" where
  "rank s cid =
     (case sc_tasks s cid of
        None \<Rightarrow> 0
      | Some t \<Rightarrow>
          (case tk_phase t of
             Acquiring i \<Rightarrow> length (req t) + 3 + 3 * (length (req t) - i) -
               (if i < length (req t) \<and> cid \<in> set (squeue s (req t ! i)) then 2 else 0)
           | Waiting \<Rightarrow> length (req t) + 2 + 3 * (length (req t) - owned t)
           | Running \<Rightarrow> length (req t) + 2
           | Releasing j _ \<Rightarrow> owned t - j + 1
           | Inheriting _ _ \<Rightarrow> length (req t) + 4))"

definition potential :: "scheduler \<Rightarrow> nat" where
  "potential s = sum (rank s) (dom (sc_tasks s))"

lemma potential_less:
  assumes "finite (dom (sc_tasks s))" "\<And>c. c \<noteq> cid \<Longrightarrow> rank s' c \<le> rank s c" "rank s' cid < rank s cid"
    and "dom (sc_tasks s') \<subseteq> dom (sc_tasks s)"
  shows "potential s' < potential s"
proof -
  have zero: "rank s' c = 0" if "c \<notin> dom (sc_tasks s')" for c using that by (auto simp: rank_def dom_def split: option.split)
  have "cid \<in> dom (sc_tasks s)" using assms(3) by (auto simp: rank_def dom_def split: option.splits)
  have "potential s' = sum (rank s') (dom (sc_tasks s))"
    unfolding potential_def by (rule sum.mono_neutral_left [OF assms(1,4)]) (use zero in auto)
  also have "\<dots> < potential s"
    unfolding potential_def
  proof (rule sum_strict_mono_ex1 [OF assms(1)])
    show "\<forall>c \<in> dom (sc_tasks s). rank s' c \<le> rank s c" using assms(2,3) by (metis less_imp_le)
    show "\<exists>c \<in> dom (sc_tasks s). rank s' c < rank s c" using assms(3) \<open>cid \<in> dom (sc_tasks s)\<close> by blast
  qed
  finally show ?thesis .
qed

lemma rank_other:
  assumes "sc_tasks s' c = sc_tasks s c" "\<And>h. c \<in> set (squeue s' h) \<longleftrightarrow> c \<in> set (squeue s h)"
  shows "rank s' c = rank s c"
  using assms by (simp add: rank_def split: option.split phase.split)

lemma potential_upd:
  assumes "sched_inv s" "sc_tasks s cid = Some t" "sc_tasks s' = (sc_tasks s)(cid := Some t')"
    and "\<And>c h. c \<noteq> cid \<Longrightarrow> c \<in> set (squeue s' h) \<longleftrightarrow> c \<in> set (squeue s h)" "rank s' cid < rank s cid"
  shows "potential s' < potential s"
proof (rule potential_less [OF sched_invD(2) [OF assms(1)], of cid])
  show "rank s' c \<le> rank s c" if "c \<noteq> cid" for c
    by (rule eq_refl [OF rank_other]) (use assms(3,4) that in auto)
qed (use assms(2,3,5) in auto)

lemma acquire_one_others:
  assumes "sched_inv s" "acquire_one (sc_latches s) h cid = (Ok (b, ls) :: (unit, _) result)" "c \<noteq> cid"
  shows "c \<in> set (queue ls g) \<longleftrightarrow> c \<in> set (squeue s g)"
proof -
  obtain ls' where "acquire_one (sc_latches s) h cid =
      (Ok (squeue s h = [] \<or> hd (squeue s h) = cid, ls') :: (unit, _) result)"
    "queue ls' = (if squeue s h \<noteq> [] \<and> hd (squeue s h) = cid then squeue s
                  else (squeue s)(h := squeue s h @ [cid]))"
    by (rule acquire_one_view [OF sched_invD(1) [OF assms(1)]])
  then show ?thesis using assms(2,3) by auto
qed

lemma blocked_not_queued:
  assumes "sched_inv s" "sc_tasks s cid = Some t" "tk_phase t = Acquiring i" "i < length (req t)"
    and "acquire_one (sc_latches s) (req t ! i) cid = (Ok (False, ls) :: (unit, _) result)"
  shows "cid \<notin> set (squeue s (req t ! i))"
proof -
  obtain ls' where "acquire_one (sc_latches s) (req t ! i) cid =
      (Ok (squeue s (req t ! i) = [] \<or> hd (squeue s (req t ! i)) = cid, ls') :: (unit, _) result)"
    by (rule acquire_one_view [OF sched_invD(1) [OF assms(1)]])
  then show ?thesis
    using waits_okD(3) [OF sched_invD(4) [OF assms(1)] assms(2-4)] assms(5) by (auto simp: heads_def)
qed

lemma released_potential:
  assumes inv: "sched_inv s" and t: "sc_tasks s cid = Some t" "tk_phase t = Releasing j keep" "j < owned t"
    and one: "release_one (sc_latches s) (req t ! j) cid keep (keep_hashes s keep) =
       (Ok (wakeup, keep_it, ls) :: (unit, _) result)"
    and s': "s' = (if keep_it = keep_hashes s keep then s else inherit keep s)"
  shows "potential (set_task cid (Some (t\<lparr>tk_phase := Releasing (Suc j) keep\<rparr>)) (s'\<lparr>sc_latches := ls, sc_wakes := w\<rparr>)) <
    potential s" (is "potential ?s' < _")
  using inv t
proof (cases rule: released_cases [consumes 4, case_names pop keep])
  case (pop q ls')
  then have "s' = s" "ls' = ls" using one s' by auto
  show ?thesis
  proof (rule potential_upd [OF inv t(1), of ?s'])
    show "c \<in> set (squeue ?s' h) \<longleftrightarrow> c \<in> set (squeue s h)" if "c \<noteq> cid" for c h
      using pop(1,3) that \<open>s' = s\<close> \<open>ls' = ls\<close> by auto
    show "rank ?s' cid < rank s cid" using t by (simp add: rank_def)
  qed (use \<open>s' = s\<close> in simp)
next
  case (keep nc u n q ls')
  then have kept: "keep_it \<noteq> keep_hashes s (Some nc)" and ls: "ls' = ls" using one by (auto dest: arg_cong [of _ _ length])
  then have eq: "s' = set_task nc (Some (u\<lparr>tk_phase := Inheriting cid (Suc n)\<rparr>)) s"
    using s' keep(1-3) by (simp add: inherit_def)
  have ne: "nc \<noteq> cid" using t keep by auto
  show ?thesis
  proof (rule potential_less [OF sched_invD(2) [OF inv], of cid])
    show "rank ?s' c \<le> rank s c" if "c \<noteq> cid" for c
    proof (cases "c = nc")
      case True
      then show ?thesis using ne keep(2,3) eq by (simp add: rank_def)
    next
      case False
      then show ?thesis
        using that keep(6,8) ls eq by (intro eq_refl rank_other) auto
    qed
    show "rank ?s' cid < rank s cid" using t by (simp add: rank_def)
  qed (use t keep(2) eq in auto)
qed

lemma release_done_potential:
  assumes inv: "sched_inv s" and t: "sc_tasks s cid = Some t" "tk_phase t = Releasing j keep"
  shows "potential (set_task cid None (hand_over keep (s\<lparr>sc_wakes := w\<rparr>))) < potential s" (is "potential ?s' < _")
proof (rule potential_less [OF sched_invD(2) [OF inv], of cid])
  have inh: "\<exists>u n. sc_tasks s nc = Some u \<and> tk_phase u = Inheriting cid n" if "keep = Some nc" for nc
    using sched_invD(6) [OF inv] t that unfolding keeps_ok_def by blast
  have tasks': "sc_tasks ?s' c = (if c = cid then None else if keep = Some c then
      map_option (\<lambda>u. \<lparr> tk_lock = force_assume_acquired (tk_lock u), tk_phase = Acquiring (length (req u)) \<rparr>)
        (sc_tasks s c) else sc_tasks s c)" for c
    using inh by (auto simp: hand_over_def split: option.split)
  show "rank ?s' c \<le> rank s c" if "c \<noteq> cid" for c
  proof (cases "keep = Some c")
    case True
    then obtain u n where "sc_tasks s c = Some u" "tk_phase u = Inheriting cid n" using inh by blast
    then show ?thesis using tasks' [of c] that True by (simp add: rank_def force_assume_acquired_def)
  next
    case False
    then show ?thesis using tasks' [of c] that by (intro eq_refl rank_other) auto
  qed
  show "rank ?s' cid < rank s cid" using t by (simp add: rank_def)
  show "dom (sc_tasks ?s') \<subseteq> dom (sc_tasks s)" unfolding dom_def tasks' by auto
qed

lemma work_step_potential:
  assumes "work_step s s'" "sched_inv s"
  shows "potential s' < potential s"
  using assms
proof (induction rule: work_step.induct)
  case (granted s cid t i ls)
  then show ?case
    by (intro potential_upd [OF granted.prems granted(1)])
      (use acquire_one_others [OF granted.prems granted(4)] in \<open>auto simp: rank_def\<close>)
next
  case (blocked s cid t i ls)
  then show ?case
    by (intro potential_upd [OF blocked.prems blocked(1)])
      (use acquire_one_others [OF blocked.prems blocked(4)] blocked_not_queued [OF blocked.prems blocked(1-4)] in
        \<open>auto simp: rank_def\<close>)
next
  case (scheduled s cid t i)
  then show ?case by (intro potential_upd [OF scheduled.prems scheduled(1)]) (auto simp: rank_def)
next
  case (woken s xs cid ys t)
  have "owned t < length (req t)" "cid \<in> set (squeue s (req t ! owned t))"
    using sched_invD(7) [OF woken.prems woken(2)] waits_okD(1) [OF sched_invD(4) [OF woken.prems] woken(2,3)] woken(3)
    by (simp_all add: task_shape_def)
  with woken show ?case by (intro potential_upd [OF woken.prems woken(2)]) (auto simp: rank_def)
next
  case (expired s xs cid ys t)
  have "owned t < length (req t)"
    using sched_invD(7) [OF expired.prems expired(2)] expired(3) by (simp add: task_shape_def)
  with expired show ?case by (intro potential_upd [OF expired.prems expired(2)]) (auto simp: rank_def)
next
  case (finished s cid t)
  have "owned t = length (req t)"
    using sched_invD(7) [OF finished.prems finished(1)] finished(2) by (simp add: task_shape_def)
  with finished show ?case by (intro potential_upd [OF finished.prems finished(1)]) (auto simp: rank_def)
next
  case (released s cid t j keep wakeup keep_it ls s')
  then show ?case by (intro released_potential)
next
  case (release_done s cid t j keep)
  then show ?case by (intro release_done_potential)
qed
section \<open>The whole calls as runs of steps\<close>

lemma set_task_twice [simp]: "set_task cid t' ((set_task cid t s)\<lparr>sc_latches := ls\<rparr>) = set_task cid t' (s\<lparr>sc_latches := ls\<rparr>)"
  "set_task cid t' (set_task cid t s) = set_task cid t' s"
  by (simp_all add: set_task_def)

lemma acquire_loop_runs:
  assumes "sched_inv s" "sc_tasks s cid = Some t" "tk_phase t = Acquiring i"
  shows "\<exists>n ls. acquire_loop (sc_latches s) (drop i (req t)) cid = (Ok (n, ls) :: (unit, _) result) \<and>
    i + n \<le> length (req t) \<and>
    work_step\<^sup>*\<^sup>* s (set_task cid (Some (at_phase t (i + n) (if i + n = length (req t) then Running else Waiting)))
      (s\<lparr>sc_latches := ls\<rparr>))"
  using assms
proof (induction "length (req t) - i" arbitrary: s t i)
  case 0
  then have i: "i = length (req t)" using sched_invD(7) [OF 0(2,3)] by (simp add: task_shape_def)
  have "work_step\<^sup>*\<^sup>* s (set_task cid (Some (at_phase t i Running)) s)"
    using scheduled [OF 0(3,4) i] by blast
  then show ?case using i by (intro exI [of _ 0] exI [of _ "sc_latches s"]) simp
next
  case (Suc m)
  then have i: "i < length (req t)" by simp
  define b where "b = (squeue s (req t ! i) = [] \<or> hd (squeue s (req t ! i)) = cid)"
  obtain ls where one: "acquire_one (sc_latches s) (req t ! i) cid = (Ok (b, ls) :: (unit, _) result)"
    unfolding b_def by (rule acquire_one_view [OF sched_invD(1) [OF Suc.prems(1)]])
  show ?case
  proof (cases b)
    case True
    let ?t = "t\<lparr>tk_phase := Acquiring (Suc i)\<rparr>"
    let ?s = "set_task cid (Some ?t) (s\<lparr>sc_latches := ls\<rparr>)"
    have step: "work_step s ?s" using granted [OF Suc.prems(2,3) i, of ls] one True by simp
    have "m = length (req ?t) - Suc i" using Suc.hyps(2) by simp
    from Suc.hyps(1) [OF this, of ?s] work_step_inv [OF step Suc.prems(1)]
    obtain n ls' where r: "acquire_loop ls (drop (Suc i) (req t)) cid = (Ok (n, ls') :: (unit, _) result)"
      "Suc i + n \<le> length (req t)"
      "work_step\<^sup>*\<^sup>* ?s (set_task cid (Some (at_phase ?t (Suc i + n) (if Suc i + n = length (req t) then Running else Waiting)))
        (?s\<lparr>sc_latches := ls'\<rparr>))" by auto
    have eq: "set_task cid (Some (at_phase ?t k p)) (?s\<lparr>sc_latches := ls'\<rparr>) =
        set_task cid (Some (at_phase t k p)) (s\<lparr>sc_latches := ls'\<rparr>)" for k p
      by (simp add: set_task_def at_phase_def)
    have "drop i (req t) = req t ! i # drop (Suc i) (req t)" by (rule Cons_nth_drop_Suc [OF i, symmetric])
    with one True r(1,2) converse_rtranclp_into_rtranclp [OF step r(3) [unfolded eq]]
    show ?thesis by (intro exI [of _ "Suc n"] exI [of _ ls']) simp
  next
    case False
    then have "work_step s (set_task cid (Some (at_phase t i Waiting)) (s\<lparr>sc_latches := ls\<rparr>))"
      using blocked [OF Suc.prems(2,3) i, of ls] one by simp
    moreover have "drop i (req t) = req t ! i # drop (Suc i) (req t)" by (rule Cons_nth_drop_Suc [OF i, symmetric])
    ultimately show ?thesis using one False i by (intro exI [of _ 0] exI [of _ ls]) auto
  qed
qed

lemma acquire_runs:
  assumes "sched_inv s" "sc_tasks s cid = Some t" "tk_phase t = Acquiring (owned t)"
  shows "\<exists>b l ls. acquire (sc_latches s) (tk_lock t) cid = (Ok (b, l, ls) :: (unit, _) result) \<and>
    work_step\<^sup>*\<^sup>* s (set_task cid (Some \<lparr> tk_lock = l, tk_phase = (if b then Running else Waiting) \<rparr>) (s\<lparr>sc_latches := ls\<rparr>))"
proof -
  obtain n ls where r: "acquire_loop (sc_latches s) (drop (owned t) (req t)) cid = (Ok (n, ls) :: (unit, _) result)"
    "owned t + n \<le> length (req t)"
    "work_step\<^sup>*\<^sup>* s (set_task cid (Some (at_phase t (owned t + n) (if owned t + n = length (req t) then Running else Waiting)))
      (s\<lparr>sc_latches := ls\<rparr>))"
    using acquire_loop_runs [OF assms] by blast
  have at: "at_phase t k p = \<lparr> tk_lock = (tk_lock t)\<lparr>owned_count := k\<rparr>, tk_phase = p \<rparr>" for k p
    by (simp add: at_phase_def)
  have "acquire (sc_latches s) (tk_lock t) cid =
      (Ok (owned t + n = length (req t), (tk_lock t)\<lparr>owned_count := owned t + n\<rparr>, ls) :: (unit, _) result)"
    using r(1,2) by (auto simp: acquire_def acquired_def Let_def)
  with r(3) [unfolded at] show ?thesis by blast
qed
text \<open>One turn of the loop in \<open>release\<close> as a step, with the kept hashes that remain.\<close>

lemma release_one_runs:
  assumes inv: "sched_inv s" and t: "sc_tasks s cid = Some t" "tk_phase t = Releasing j keep" "j < owned t"
  obtains wakeup keep_it ls s' where "release_one (sc_latches s) (req t ! j) cid keep (keep_hashes s keep) =
      (Ok (wakeup, keep_it, ls) :: (unit, _) result)" "work_step s s'" "sc_latches s' = ls"
    "sc_tasks s' cid = Some (t\<lparr>tk_phase := Releasing (Suc j) keep\<rparr>)" "keep_hashes s' keep = keep_it"
    "sc_wakes s' = sc_wakes s @ (case wakeup of Some w \<Rightarrow> [(Some cid, w)] | None \<Rightarrow> [])"
proof -
  have self: "keep \<noteq> Some cid"
    using sched_invD(6) [OF inv] t(1,2) unfolding keeps_ok_def by fastforce
  from inv t show thesis
  proof (cases rule: released_cases [consumes 4, case_names pop keep])
    case (pop q ls)
    note step = released [OF t pop(4) refl]
    show thesis
      by (rule that [OF pop(4) step]) (use self in \<open>auto simp: keep_hashes_def set_task_def split: option.split\<close>)
  next
    case (keep nc u n q ls)
    have "drop (Suc n) (req u) \<noteq> keep_hashes s keep"
      unfolding keep(10) using keep(4) by (auto dest: arg_cong [of _ _ length])
    note step = released [OF t keep(9) refl]
    show thesis
      by (rule that [OF keep(9) step])
        (use self keep(1-4) \<open>drop (Suc n) (req u) \<noteq> keep_hashes s keep\<close> in
          \<open>auto simp: keep_hashes_def inherit_def set_task_def\<close>)
  qed
qed

lemma release_loop_runs:
  assumes "sched_inv s" "sc_tasks s cid = Some t" "tk_phase t = Releasing j keep"
  shows "\<exists>wl ls s'. release_loop (sc_latches s) (drop j (take (owned t) (req t))) cid keep (keep_hashes s keep) =
      (Ok (wl, keep_hashes s' keep, ls) :: (unit, _) result) \<and>
    work_step\<^sup>*\<^sup>* s s' \<and> sc_latches s' = ls \<and> sc_tasks s' cid = Some (t\<lparr>tk_phase := Releasing (owned t) keep\<rparr>) \<and>
    sc_wakes s' = sc_wakes s @ map (Pair (Some cid)) wl"
  using assms
proof (induction "owned t - j" arbitrary: s t j)
  case 0
  have "j = owned t" using sched_invD(7) [OF 0(2,3)] 0(1,4) by (simp add: task_shape_def)
  then show ?case using 0(3,4) by (intro exI [of _ "[]"] exI [of _ "sc_latches s"] exI [of _ s]) simp
next
  case (Suc m)
  then have j: "j < owned t" "owned t \<le> length (req t)"
    using sched_invD(7) [OF Suc.prems(1,2)] by (simp_all add: task_shape_def)
  then have hd: "drop j (take (owned t) (req t)) = req t ! j # drop (Suc j) (take (owned t) (req t))"
    by (simp add: Cons_nth_drop_Suc [symmetric])
  let ?t = "t\<lparr>tk_phase := Releasing (Suc j) keep\<rparr>"
  obtain wakeup keep_it ls s\<^sub>1 where one: "release_one (sc_latches s) (req t ! j) cid keep (keep_hashes s keep) =
      (Ok (wakeup, keep_it, ls) :: (unit, _) result)" "work_step s s\<^sub>1" "sc_latches s\<^sub>1 = ls"
    "sc_tasks s\<^sub>1 cid = Some ?t" "keep_hashes s\<^sub>1 keep = keep_it"
    "sc_wakes s\<^sub>1 = sc_wakes s @ (case wakeup of Some w \<Rightarrow> [(Some cid, w)] | None \<Rightarrow> [])"
    by (rule release_one_runs [OF Suc.prems j(1)])
  have "m = owned ?t - Suc j" using Suc.hyps(2) by simp
  from Suc.hyps(1) [OF this work_step_inv [OF one(2) Suc.prems(1)] one(4)]
  obtain wl ls' s' where r: "release_loop ls (drop (Suc j) (take (owned t) (req t))) cid keep keep_it =
      (Ok (wl, keep_hashes s' keep, ls') :: (unit, _) result)" "work_step\<^sup>*\<^sup>* s\<^sub>1 s'" "sc_latches s' = ls'"
    "sc_tasks s' cid = Some (t\<lparr>tk_phase := Releasing (owned t) keep\<rparr>)"
    "sc_wakes s' = sc_wakes s\<^sub>1 @ map (Pair (Some cid)) wl"
    using one(3,5) by auto
  have "work_step\<^sup>*\<^sup>* s s'" by (rule converse_rtranclp_into_rtranclp [OF one(2) r(2)])
  with hd one(1,6) r show ?case
    by (intro exI [of _ "case wakeup of Some w \<Rightarrow> w # wl | None \<Rightarrow> wl"] exI [of _ ls'] exI [of _ s'])
      (auto split: option.splits)
qed

lemma release_runs:
  assumes inv: "sched_inv s" and t: "sc_tasks s cid = Some t" "tk_phase t = Releasing 0 keep"
    and l: "\<And>nc. keep = Some nc \<Longrightarrow> \<exists>u. sc_tasks s nc = Some u \<and> tk_phase u = Inheriting cid 0 \<and> tk_lock u = l"
  shows "\<exists>wl ls s'. release (sc_latches s) (tk_lock t) cid (map_option (\<lambda>nc. (nc, l)) keep) =
      (Ok (wl, ls) :: (unit, _) result) \<and> work_step\<^sup>*\<^sup>* s s' \<and> sc_latches s' = ls \<and> sc_tasks s' cid = None \<and>
    set wl \<subseteq> snd ` set (sc_wakes s')"
proof -
  obtain wl ls s\<^sub>1 where r: "release_loop (sc_latches s) (take (owned t) (req t)) cid keep (keep_hashes s keep) =
      (Ok (wl, keep_hashes s\<^sub>1 keep, ls) :: (unit, _) result)" "work_step\<^sup>*\<^sup>* s s\<^sub>1" "sc_latches s\<^sub>1 = ls"
    "sc_tasks s\<^sub>1 cid = Some (t\<lparr>tk_phase := Releasing (owned t) keep\<rparr>)"
    "sc_wakes s\<^sub>1 = sc_wakes s @ map (Pair (Some cid)) wl"
    using release_loop_runs [OF inv t] by auto
  have inv\<^sub>1: "sched_inv s\<^sub>1" using r(2) inv by (induction rule: rtranclp_induct) (auto intro: work_step_inv)
  have empty: "keep_hashes s\<^sub>1 keep = []"
    using keep_hashes_cases [OF sched_invD(6) [OF inv\<^sub>1] r(4)] by (force simp: holds_def)
  have kh: "keep_hashes s keep = (case keep of Some _ \<Rightarrow> required_hashes l | None \<Rightarrow> [])"
    using l by (auto simp: keep_hashes_def split: option.split)
  have o: "owned t \<le> length (req t)" using sched_invD(7) [OF inv t(1)] t(2) by (simp add: task_shape_def)
  let ?s' = "set_task cid None (hand_over keep
       (s\<^sub>1\<lparr>sc_wakes := map (\<lambda>(r, w). (if r = Some cid then None else r, w)) (sc_wakes s\<^sub>1)\<rparr>))"
  have "work_step s\<^sub>1 ?s'" by (rule release_done [OF r(4)]) (use empty in auto)
  with r(2) have "work_step\<^sup>*\<^sup>* s ?s'" by simp
  moreover have "release (sc_latches s) (tk_lock t) cid (map_option (\<lambda>nc. (nc, l)) keep) = (Ok (wl, ls) :: (unit, _) result)"
    using r(1) empty o unfolding kh by (cases keep) (auto simp: release_def)
  moreover have "set wl \<subseteq> snd ` set (sc_wakes ?s')" using r(5) by (simp add: image_Un image_image)
  ultimately show ?thesis using r(3) by (intro exI [of _ wl] exI [of _ ls] exI [of _ ?s']) simp
qed

section \<open>Order in the queues\<close>

lemma behind_not_heads:
  assumes "queues_ok s" "squeue s h = xs @ a # ys @ b # zs"
  shows "\<not> heads s b h"
proof -
  have "distinct (xs @ a # ys @ b # zs)" using assms unfolding queues_ok_def by metis
  then show ?thesis using assms(2) by (cases xs) (auto simp: heads_def)
qed

lemma filter_pair:
  assumes "distinct (xs @ a # ys @ b # zs)"
  shows "filter (\<lambda>c. c = a \<or> c = b) (xs @ a # ys @ b # zs) = [a, b]"
proof -
  have "filter (\<lambda>c. c = a \<or> c = b) ws = []" if "ws \<in> {xs, ys, zs}" for ws
    using that assms by (auto simp: filter_empty_conv)
  then show ?thesis by simp
qed

lemma filter_pair_swap:
  "distinct (xs @ b # ys @ a # zs) \<Longrightarrow> filter (\<lambda>c. c = a \<or> c = b) (xs @ b # ys @ a # zs) = [b, a]"
  using filter_pair [of xs b ys a zs] by (simp add: disj_commute)

lemma order_unique:
  assumes "queues_ok s" "squeue s h = xs @ a # ys @ b # zs"
  shows "squeue s h \<noteq> xs' @ b # ys' @ a # zs'"
proof
  let ?f = "filter (\<lambda>c. c = a \<or> c = b)"
  assume eq: "squeue s h = xs' @ b # ys' @ a # zs'"
  have d: "distinct (squeue s h)" using assms(1) unfolding queues_ok_def by blast
  have "?f (squeue s h) = [a, b]" using d unfolding assms(2) by (rule filter_pair)
  moreover have "?f (squeue s h) = [b, a]" using d unfolding eq by (rule filter_pair_swap)
  ultimately have "[a, b] = [b, a]" by (rule trans [OF sym])
  moreover have "a \<noteq> b" using d unfolding assms(2) by simp
  ultimately show False by simp
qed

lemma waits_at_unique: "waits_at t h \<Longrightarrow> waits_at t h' \<Longrightarrow> h = h'"
  by (auto simp: waits_at_def split: phase.splits)

text \<open>A command waits only for a hash above all it holds.\<close>

lemma waits_above_holds:
  assumes "sched_inv s" "sc_tasks s cid = Some t" "waits_at t h" "g \<in> set (holds t)"
  shows "g < h"
proof -
  have "sorted_wrt (<) (req t)" using sched_invD(7) [OF assms(1,2)] by (simp add: task_shape_def)
  then show ?thesis
    using assms(3,4) sched_invD(7) [OF assms(1,2)] sorted_nth_notin_take [of "req t"]
    by (auto simp: waits_at_def holds_def task_shape_def split: phase.splits)
qed

section \<open>Properties of the latches\<close>

text \<open>
  C31: In every reachable state of the scheduler, whatever the interleaving of acquiring, waiting,
  waking, expiring, releasing and handing over, no two commands hold a common latch, a running
  command holds all its latches, and no two commands stand in opposite order in the queues of two
  latches.
\<close>

theorem latch_exclusive:
  assumes "(sched_step hash)\<^sup>*\<^sup>* (scheduler_new n) s" "n \<le> 2 ^ 63"
    and "sc_tasks s a = Some t" "sc_tasks s b = Some u" "a \<noteq> b"
  shows "set (holds t) \<inter> set (holds u) = {} \<and> (tk_phase t = Running \<longrightarrow> holds t = req t \<and> owned t = length (req t)) \<and>
    \<not> (\<exists>xs ys zs. squeue s h = xs @ a # ys @ b # zs \<and> (\<exists>xs ys zs. squeue s h' = xs @ b # ys @ a # zs))"
proof -
  note inv = reachable_inv [OF assms(1,2)] and d = sched_invD [OF reachable_inv [OF assms(1,2)]]
  have "set (holds t) \<inter> set (holds u) = {}"
    using holds_heads [OF d(3) assms(3)] holds_heads [OF d(3) assms(4)] heads_unique assms(5) by blast
  moreover have "tk_phase t = Running \<longrightarrow> holds t = req t \<and> owned t = length (req t)"
    using d(7) [OF assms(3)] by (auto simp: holds_def task_shape_def)
  moreover have False if "squeue s h = xs @ a # ys @ b # zs" "squeue s h' = xs' @ b # ys' @ a # zs'" for xs ys zs xs' ys' zs'
  proof -
    have b: "b \<in> set (squeue s h)" "\<not> heads s b h" and a: "a \<in> set (squeue s h')" "\<not> heads s a h'"
      using that behind_not_heads [OF d(3)] by auto
    have wu: "waits_at u h" using queued_task [OF d(3) b(1) assms(4)] holds_heads [OF d(3) assms(4)] b(2) by blast
    have wt: "waits_at t h'" using queued_task [OF d(3) a(1) assms(3)] holds_heads [OF d(3) assms(3)] a(2) by blast
    have ne: "h \<noteq> h'" using order_unique [OF d(3) that(1)] that(2) by metis
    have "h \<in> set (holds t)" using queued_task [OF d(3) _ assms(3), of h] waits_at_unique [OF wt] ne that(1) by auto
    moreover have "h' \<in> set (holds u)" using queued_task [OF d(3) _ assms(4), of h'] waits_at_unique [OF wu] ne that(2) by auto
    ultimately have "h < h'" "h' < h"
      using waits_above_holds [OF inv assms(3) wt] waits_above_holds [OF inv assms(4) wu] by auto
    then show False by simp
  qed
  ultimately show ?thesis by blast
qed

text \<open>A run used by the witnesses: one command has its latch, a second one asks for it.\<close>

definition demo_arrival :: "u64 \<Rightarrow> scheduler \<Rightarrow> scheduler" where
  "demo_arrival cid = set_task cid (Some \<lparr> tk_lock = latch_lock_new (\<lambda>k. k) [7, 7, 3], tk_phase = Acquiring 0 \<rparr>)"

lemma demo_acquire:
  "acquire (latches_new 1) (latch_lock_new (\<lambda>k. k) [7, 7, 3]) 1 =
     (Ok (True, \<lparr> required_hashes = [3, 7], owned_count = 2 \<rparr>,
          \<lparr> slots = [\<lparr> la_waiting = [Some (3, 1), Some (7, 1)] \<rparr>], latches_size = 1 \<rparr>) :: (unit, _) result)"
  by (simp add: acquire_def latch_lock_new_def latches_new_def next_power_of_two_def next_power_loop.simps
    acquire_one_def lock_latch_def slot_of_def put_latch_def get_first_req_by_hash_def wait_for_wake_def
    latch_new_def acquired_def)

definition demo_running :: scheduler where
  "demo_running = demo_arrival 2 (set_task 1 (Some \<lparr> tk_lock = \<lparr> required_hashes = [3, 7], owned_count = 2 \<rparr>,
     tk_phase = Running \<rparr>) (scheduler_new 1\<lparr>sc_latches :=
       \<lparr> slots = [\<lparr> la_waiting = [Some (3, 1), Some (7, 1)] \<rparr>], latches_size = 1 \<rparr>\<rparr>))"

lemma work_steps_sched: "work_step\<^sup>*\<^sup>* s s' \<Longrightarrow> (sched_step hash)\<^sup>*\<^sup>* s s'"
  by (erule rtranclp_mono [THEN predicate2D, rotated]) (auto intro: work)

lemma demo_reachable: "(sched_step (\<lambda>k. k))\<^sup>*\<^sup>* (scheduler_new 1) demo_running"
proof -
  let ?h = "\<lambda>k :: u64. k" and ?s = "demo_arrival 1 (scheduler_new 1)"
  have a: "(sched_step ?h)\<^sup>*\<^sup>* (scheduler_new 1) ?s"
    unfolding demo_arrival_def by (rule r_into_rtranclp, rule arrive) (simp add: scheduler_new_def)
  have t: "sc_tasks ?s 1 = Some \<lparr> tk_lock = latch_lock_new ?h [7, 7, 3], tk_phase = Acquiring 0 \<rparr>"
    and l: "sc_latches ?s = latches_new 1"
    by (simp_all add: demo_arrival_def scheduler_new_def)
  have "work_step\<^sup>*\<^sup>* ?s (set_task 1 (Some \<lparr> tk_lock = \<lparr> required_hashes = [3, 7], owned_count = 2 \<rparr>,
     tk_phase = Running \<rparr>) (?s\<lparr>sc_latches := \<lparr> slots = [\<lparr> la_waiting = [Some (3, 1), Some (7, 1)] \<rparr>], latches_size = 1 \<rparr>\<rparr>))"
    using acquire_runs [OF reachable_inv [OF a] t] demo_acquire l by (auto simp: latch_lock_new_def)
  then have r: "(sched_step ?h)\<^sup>*\<^sup>* (scheduler_new 1) (set_task 1 (Some \<lparr> tk_lock = \<lparr> required_hashes = [3, 7], owned_count = 2 \<rparr>,
     tk_phase = Running \<rparr>) (scheduler_new 1\<lparr>sc_latches := \<lparr> slots = [\<lparr> la_waiting = [Some (3, 1), Some (7, 1)] \<rparr>], latches_size = 1 \<rparr>\<rparr>))"
    using rtranclp_trans [OF a work_steps_sched] by (simp add: demo_arrival_def set_task_def)
  show ?thesis
    unfolding demo_running_def demo_arrival_def
    by (rule rtranclp.rtrancl_into_rtrancl [OF r], rule arrive) (simp add: scheduler_new_def)
qed

lemma demo_tasks:
  "sc_tasks demo_running 1 = Some \<lparr> tk_lock = \<lparr> required_hashes = [3, 7], owned_count = 2 \<rparr>, tk_phase = Running \<rparr>"
  "sc_tasks demo_running 2 = Some \<lparr> tk_lock = latch_lock_new (\<lambda>k. k) [7, 7, 3], tk_phase = Acquiring 0 \<rparr>"
  by (simp_all add: demo_running_def demo_arrival_def)

theorem latch_exclusive_witness:
  "holds (the (sc_tasks demo_running 1)) = [3, 7] \<and>
   set (holds (the (sc_tasks demo_running 1))) \<inter> set (holds (the (sc_tasks demo_running 2))) = {}"
  using latch_exclusive [OF demo_reachable _ demo_tasks, where h = 0 and h' = 0]
  by (auto simp: demo_tasks)

text \<open>
  C32: From every reachable state, if no further command arrives, the commands finish after a bounded
  number of steps whatever the interleaving: a run of \<open>k\<close> steps has \<open>k\<close> at most the potential, where
  it ends some command can still step as long as any is left, and when none is left no latch is held
  and no wakeup is lost.
\<close>

theorem latch_drain:
  assumes "(sched_step hash)\<^sup>*\<^sup>* (scheduler_new n) s" "n \<le> 2 ^ 63" "(work_step ^^ k) s s'"
  shows "k \<le> potential s \<and>
    (if dom (sc_tasks s') = {} then sc_wakes s' = [] \<and> (\<forall>h. squeue s' h = []) else \<exists>s''. work_step s' s'')"
proof -
  have *: "sched_inv s' \<and> k + potential s' \<le> potential s"
    using assms(3) reachable_inv [OF assms(1,2)]
  proof (induction k arbitrary: s')
    case (Suc k)
    then obtain s\<^sub>1 where "(work_step ^^ k) s s\<^sub>1" "work_step s\<^sub>1 s'" by auto
    with Suc show ?case using work_step_inv work_step_potential by fastforce
  qed simp
  have "sc_wakes s' = [] \<and> (\<forall>h. squeue s' h = [])" if "dom (sc_tasks s') = {}"
    using that sched_invD(3,5) [OF conjunct1 [OF *]] unfolding queues_ok_def wakes_ok_def
    by (cases "sc_wakes s'") (fastforce simp: neq_Nil_conv)+
  moreover have "\<exists>s''. work_step s' s''" if ne: "dom (sc_tasks s') \<noteq> {}"
  proof -
    obtain cid where "cid \<in> dom (sc_tasks s')" using ne by blast
    then show ?thesis using sched_progress [OF conjunct1 [OF *]] by blast
  qed
  ultimately show ?thesis using * by auto
qed

theorem latch_drain_witness: "\<exists>s'. work_step demo_running s'"
  using latch_drain [OF demo_reachable, of 0 demo_running] demo_tasks(1) by (auto split: if_splits)

text \<open>
  C33: The calls of \<open>acquire\<close> and \<open>release\<close> that the scheduler makes never panic in a reachable state,
  and each is a run of the steps above: \<open>acquire\<close> ends running or waiting as it returns, \<open>release\<close>
  removes the command and notes a wakeup for everyone it returns.
\<close>

theorem latch_calls_refine:
  assumes "(sched_step hash)\<^sup>*\<^sup>* (scheduler_new n) s" "n \<le> 2 ^ 63" "sc_tasks s cid = Some t"
  shows "(tk_phase t = Acquiring (owned t) \<longrightarrow>
      (\<exists>b l ls. acquire (sc_latches s) (tk_lock t) cid = (Ok (b, l, ls) :: (unit, _) result) \<and>
        work_step\<^sup>*\<^sup>* s (set_task cid (Some \<lparr> tk_lock = l, tk_phase = (if b then Running else Waiting) \<rparr>)
          (s\<lparr>sc_latches := ls\<rparr>)))) \<and>
    (\<forall>keep l. tk_phase t = Releasing 0 keep \<longrightarrow>
      (\<forall>nc. keep = Some nc \<longrightarrow> (\<exists>u. sc_tasks s nc = Some u \<and> tk_phase u = Inheriting cid 0 \<and> tk_lock u = l)) \<longrightarrow>
      (\<exists>wl ls s'. release (sc_latches s) (tk_lock t) cid (map_option (\<lambda>nc. (nc, l)) keep) =
          (Ok (wl, ls) :: (unit, _) result) \<and> work_step\<^sup>*\<^sup>* s s' \<and> sc_latches s' = ls \<and> sc_tasks s' cid = None \<and>
        set wl \<subseteq> snd ` set (sc_wakes s')))"
  using acquire_runs [OF reachable_inv [OF assms(1,2)] assms(3)] release_runs [OF reachable_inv [OF assms(1,2)] assms(3)]
  by blast

theorem latch_calls_refine_witness:
  "\<exists>b l ls. acquire (sc_latches demo_running) (latch_lock_new (\<lambda>k. k) [7, 7, 3]) 2 = (Ok (b, l, ls) :: (unit, _) result)"
  using latch_calls_refine [OF demo_reachable _ demo_tasks(2)] by (auto simp: latch_lock_new_def)
end
