(* ===== verification/Spec2Isabelle.thy ===== *)
theory Spec2Isabelle
  imports TxnPessimistic TxnCommands LatchSystem
begin

text \<open>
  A verification library for the transaction layer of TiKV (sources under \<open>src/tikv\<close>), from the bytes
  of a key up to the commands that change it.

  \<^bold>\<open>The program and its parts.\<close> A client's transaction writes locks on its keys, turns them into write
  records when it commits, and removes them when it rolls back. Every key has three kinds of entries
  in an ordered key-value engine: write records and values under the key with a timestamp appended,
  and at most one lock under the key itself. Readers look for the newest record at or below their
  timestamp. Commands take latches on their keys, run an action on a snapshot of the engine, collect
  the modifications in a buffer and hand them to the engine; the concurrency manager remembers the
  largest timestamp read. The theories follow these layers, each importing those below.

  \<^item> \<open>Prelude\<close>: machine types, the result of a call (value, error value or panic), the order of byte
    strings, and the locales \<open>codec\<close> (a decoder undoes its encoder and returns the rest),
    \<open>memcomparable\<close> and \<open>memcomparable_pair\<close> (encodings compare like their arguments).
  \<^item> \<open>NumberCodec\<close>, \<open>BytesCodec\<close>: \<open>tikv_util/src/codec/number.rs\<close>, \<open>bytes.rs\<close>, \<open>mod.rs\<close> and the
    variable-length decoder of \<open>components/codec/src/number.rs\<close>. Every encoder is an interpretation
    of the locales; the in-place decoder is proved equal to the allocating one, the recognition of an
    encoding to re-encoding, and the unchecked reads to stay in bounds.
  \<^item> \<open>TxnTypes\<close>, \<open>TxnLock\<close>, \<open>TxnWrite\<close>: \<open>components/txn_types/src\<close>: timestamps, encoded and versioned
    keys, mutations, the lock and write records with their tagged binary formats, which round trip,
    and the rules by which a lock blocks a read.
  \<^item> \<open>KvEngine\<close>: \<open>components/tikv_kv/src\<close>: the ordered maps of \<open>btree_engine.rs\<close> (locale \<open>ordered_map\<close>),
    write batches, iterators, and the cursor of \<open>cursor.rs\<close>, whose near seek is proved to be a seek.
  \<^item> \<open>PeerLocks\<close>: \<open>raftstore/src/store/txn_ext.rs\<close>: the in-memory pessimistic locks of a peer, with
    exact accounting of their memory and their partition at a region split.
  \<^item> \<open>ConcurrencyManager\<close>: \<open>components/concurrency_manager/src\<close>: the maximal timestamp, its limit, and
    the table of in-memory locks.
  \<^item> \<open>MvccReader\<close>, \<open>MvccStore\<close>: \<open>src/storage/mvcc/reader/reader.rs\<close> and the view of a well-formed store
    as three partial functions (\<open>write_at\<close>, \<open>lock_at\<close>, \<open>data_at\<close>). Batches refine updates of the view;
    the seek, the read of the visible version and the lookup of a commit record are characterised
    over it.
  \<^item> \<open>MvccTxn\<close>, \<open>TxnActions\<close>: \<open>src/storage/mvcc/txn.rs\<close> and \<open>src/storage/txn/actions\<close> (\<open>commit.rs\<close>,
    \<open>check_txn_status.rs\<close>, \<open>cleanup.rs\<close>, \<open>mvcc.rs\<close>), each function with all its branches.
  \<^item> \<open>TxnProtocol\<close>, \<open>TxnSafety\<close>: actions applied to a store. The locale \<open>rollback_action\<close> is the
    contract of everything that rolls a transaction back, interpreted on cleanup, on the check of a
    missing lock and on the check of an expired lock. Commit refines a specification on the view;
    commit and rollback exclude each other; a rollback is invisible and, when protected, remembered;
    a pushed lower bound is respected; a snapshot read returns the newest committed value.
  \<^item> \<open>TxnGc\<close>: \<open>actions/gc.rs\<close>: garbage collection as a loop over the versions of a key; no read at or
    after the safe point changes, finished or interrupted.
  \<^item> \<open>TxnPrewrite\<close>: \<open>actions/prewrite.rs\<close>, \<open>common.rs\<close> and \<open>check_data_constraint.rs\<close>: the first phase of
    a commit, with pessimistic locks, repeated flushes, async commit and one-phase commit. The
    optimistic call refines a specification on the view; followed by a commit it takes effect; after a
    rollback it is refused; an async commit is ordered after the reads before it. What the checks rely
    on is \<open>checkable\<close>: right hints, fences passed, no record at timestamp zero.
  \<^item> \<open>TxnPessimistic\<close>: \<open>actions/acquire_pessimistic_lock.rs\<close>: the lock a pessimistic transaction takes
    before it prewrites. The request refines a specification on the view, repeating it does no harm,
    and lock, prewrite and commit together take effect.
  \<^item> \<open>TxnCommands\<close>: \<open>src/storage/txn/commands\<close>: the commands that finish a transaction, each of which runs
    actions on several keys and writes one batch. The locale \<open>key_action\<close> is what a command relies on:
    an action appends modifications of its own key only, whatever is buffered already; then the batch
    has the effect of the single actions side by side. It is interpreted on commit, cleanup and
    pessimistic rollback, and \<open>rollback_action\<close> on the check of secondary locks. Commands commit or roll
    back all their keys or none, a rollback command excludes every later commit command, and the
    check of secondary locks decides an async commit for good. The keys of a request are distinct.
  \<^item> \<open>Latch\<close>, \<open>LatchSystem\<close>: \<open>src/storage/txn/latch.rs\<close> with the locale \<open>keyed_queues\<close>, and the life of
    commands around the latches in \<open>scheduler.rs\<close> as a step relation at the granularity of one
    critical section: mutual exclusion, the documented order of the queues, no deadlock, no lost
    wakeup, and a bound on the steps of the commands in the system.

  \<^bold>\<open>Reading the statements.\<close> \<open>wf_store e\<close> says that the column families are ordered and hold encoded
  entries only; \<open>key_ok e raw\<close> adds what the protocol keeps of a key: one record per transaction, a
  rollback at its start timestamp, a commit after it, and no commit record of the transaction that
  still holds the lock. \<open>last_change_ok\<close> and \<open>fence_free\<close> say that the hints and fences in the records
  a reader meets are right. These are invariants of the store, and the theorems show that the actions
  keep what they rely on.

  \<^bold>\<open>Bounds.\<close> Machine integers are words of their width: timestamps and identifiers are 64-bit words and
  \<open>prev\<close>, \<open>next\<close> panic at the ends as in the source. Lengths are bounded by \<open>isize::MAX\<close> as for every
  Rust slice; a lock must have room for one more rollback timestamp in its vector (\<open>rollback_room\<close>);
  the latches have at most \<open>2 ^ 63\<close> slots, the largest power of two of a 64-bit \<open>usize\<close>. No definition
  uses fuel: every loop is a function with a termination proof, on the rest of the input or on the
  timestamp that goes down.

  \<^bold>\<open>Not modelled.\<close> Statistics, metrics, logging and failpoints; the asynchronous mutex of a key handle
  and the thread pools (a command's action is one step on a snapshot, and the interleaving of commands
  is modelled at their latches); TTL and the API-version wrappers of raw keys; pointer and batch
  variants of the codec crate; the scanners; flashback; the commands around prewrite and pessimistic
  locking, and the read phases of the resolutions; the replication layer, the
  RocksDB binding, the coprocessor, the servers and the clients of external services, which are I/O,
  bindings to code outside the sources, or systems of their own.
\<close>

end
